(* ===== verification/Prelude.thy ===== *)
theory Prelude
  imports
    Main
    "HOL-Library.Char_ord"
    "HOL-Library.Code_Target_Nat"
    "HOL-Library.List_Lexorder"
    "HOL-Library.Multiset"
    "HOL-Library.Product_Lexorder"
    "HOL-Library.Word"
begin

text \<open>
  Shared vocabulary of the development.

  \<^item> Unsigned machine integers are natural numbers together with the bound of their width
    (\<open>u32_max\<close>, \<open>u64_max\<close>); the saturating and clamping operations of the Rust standard library
    that the program calls are written out, and every plain addition the program performs on a
    bounded integer has a lemma in its component that the bound is kept.
  \<^item> A \<open>BTreeMap\<close> is an association list in strictly increasing key order, because the program
    relies on the iteration order in several places; a \<open>BTreeSet\<close> is a strictly increasing list.
  \<^item> A \<open>Result\<close> is a sum (\<open>Inl\<close> the error), an \<open>Option\<close> is an option.
  \<^item> Two locales that several components instantiate: a total preorder with its selection of a
    least element, and a transition system with the induction principle for its invariants.
\<close>

named_theorems bt_simps \<open>lookups and key sets of ordered maps\<close>
named_theorems bt_intros \<open>well-formedness of ordered maps\<close>

section \<open>Bounded integers\<close>

definition u32_max :: nat where
  "u32_max = 4294967295"

definition u64_max :: nat where
  "u64_max = 18446744073709551615"

definition sat_add32 :: "nat \<Rightarrow> nat \<Rightarrow> nat" where
  "sat_add32 a b = min (a + b) u32_max"

definition clamp32 :: "nat \<Rightarrow> nat" where
  "clamp32 n = min n u32_max"

definition wrap_add32 :: "nat \<Rightarrow> nat \<Rightarrow> nat" where
  "wrap_add32 a b = (a + b) mod (u32_max + 1)"

lemma wrap_add32_id: "a + b \<le> u32_max \<Longrightarrow> wrap_add32 a b = a + b"
  by (simp add: wrap_add32_def)

lemma clamp32_le [simp]: "clamp32 n \<le> u32_max"
  by (simp add: clamp32_def)

lemma clamp32_id: "n \<le> u32_max \<Longrightarrow> clamp32 n = n"
  by (simp add: clamp32_def)

lemma clamp32_eq_0 [simp]: "clamp32 n = 0 \<longleftrightarrow> n = 0"
  by (simp add: clamp32_def u32_max_def min_def)

lemma sat_add32_clamp: "sat_add32 (clamp32 a) b = clamp32 (a + b)"
  by (auto simp: sat_add32_def clamp32_def min_def)

lemma fold_sat_add32: "fold (\<lambda>x acc. sat_add32 acc x) xs (clamp32 a) = clamp32 (a + sum_list xs)"
  by (induction xs arbitrary: a) (simp_all add: sat_add32_clamp add.assoc)

lemma fold_sat_add32_0: "fold (\<lambda>x acc. sat_add32 acc x) xs 0 = clamp32 (sum_list xs)"
  using fold_sat_add32 [of xs 0] by (simp add: clamp32_def)

section \<open>Orderings\<close>

text \<open>The three-valued comparison of \<open>std::cmp::Ordering\<close>, with its sequencing.\<close>

datatype Ordering = Less | Equal | Greater

definition cmp :: "'a::linorder \<Rightarrow> 'a \<Rightarrow> Ordering" where
  "cmp a b = (if a < b then Less else if a = b then Equal else Greater)"

fun then_with :: "Ordering \<Rightarrow> Ordering \<Rightarrow> Ordering" where
  "then_with Equal r = r"
| "then_with Less r = Less"
| "then_with Greater r = Greater"

lemma cmp_simps [simp]:
  "cmp a b = Less \<longleftrightarrow> a < b" "cmp a b = Equal \<longleftrightarrow> a = b" "cmp a b = Greater \<longleftrightarrow> b < a"
  by (auto simp: cmp_def)

lemma then_with_not_Greater:
  "then_with x y \<noteq> Greater \<longleftrightarrow> x = Less \<or> (x = Equal \<and> y \<noteq> Greater)"
  by (cases x) auto

lemma then_with_Less: "then_with x y = Less \<longleftrightarrow> x = Less \<or> (x = Equal \<and> y = Less)"
  by (cases x) auto

lemma then_with_Equal [simp]: "then_with x y = Equal \<longleftrightarrow> x = Equal \<and> y = Equal"
  by (cases x) auto

subsection \<open>Selecting a least element\<close>

text \<open>
  \<open>pop_min\<close> is \<open>BinaryHeap::pop\<close> on a heap of reversed entries: it takes out an entry that
  is least. The heap's internal order is not observable.
\<close>

fun least_by :: "('a \<Rightarrow> 'a \<Rightarrow> bool) \<Rightarrow> 'a \<Rightarrow> 'a list \<Rightarrow> 'a" where
  "least_by le x [] = x"
| "least_by le x (y # ys) = least_by le (if le x y then x else y) ys"

fun pop_min :: "('a \<Rightarrow> 'a \<Rightarrow> bool) \<Rightarrow> 'a list \<Rightarrow> ('a \<times> 'a list) option" where
  "pop_min le [] = None"
| "pop_min le (x # xs) = (let m = least_by le x xs in Some (m, remove1 m (x # xs)))"

lemma least_by_mem: "least_by le x xs \<in> insert x (set xs)"
  by (induction le x xs rule: least_by.induct) (auto split: if_splits)

lemma pop_min_None [simp]: "pop_min le xs = None \<longleftrightarrow> xs = []"
  by (cases xs) (auto simp: Let_def)

lemma pop_min_SomeD: "pop_min le xs = Some (m, ys) \<Longrightarrow> m \<in> set xs \<and> ys = remove1 m xs"
  by (cases xs) (use least_by_mem in \<open>fastforce simp: Let_def\<close>)+

locale preorder_on =
  fixes carrier :: "'a \<Rightarrow> bool"
    and le :: "'a \<Rightarrow> 'a \<Rightarrow> bool"
  assumes le_trans: "carrier x \<Longrightarrow> carrier y \<Longrightarrow> carrier z \<Longrightarrow> le x y \<Longrightarrow> le y z \<Longrightarrow> le x z"
    and le_total: "carrier x \<Longrightarrow> carrier y \<Longrightarrow> le x y \<or> le y x"
begin

lemma le_refl: "carrier x \<Longrightarrow> le x x"
  using le_total by blast

lemma least_by_le:
  assumes "carrier x" "\<forall>y \<in> set xs. carrier y" "y \<in> insert x (set xs)"
  shows "le (least_by le x xs) y"
  using assms
proof (induction xs arbitrary: x y)
  case Nil
  then show ?case by (simp add: le_refl)
next
  case (Cons z zs)
  let ?m = "if le x z then x else z"
  from Cons.prems have car: "carrier ?m" "\<forall>y \<in> set zs. carrier y" by auto
  have small: "le ?m x" "le ?m z"
    using Cons.prems le_refl le_total by (auto split: if_splits)
  show ?case
  proof (cases "y \<in> set zs")
    case True
    with Cons.IH [OF car, of y] show ?thesis by simp
  next
    case False
    with Cons.prems have y: "y = x \<or> y = z" and cy: "carrier y" by auto
    have m: "le (least_by le ?m zs) ?m" using Cons.IH [OF car, of ?m] by simp
    have cm: "carrier (least_by le ?m zs)" using least_by_mem [of le ?m zs] car by auto
    from y small have "le ?m y" by auto
    with le_trans [OF cm car(1) cy m] show ?thesis by simp
  qed
qed

lemma pop_min_least:
  assumes "pop_min le xs = Some (m, ys)" "\<forall>y \<in> set xs. carrier y" "y \<in> set xs"
  shows "le m y"
  using assms by (cases xs) (auto simp: Let_def intro: least_by_le)

end

section \<open>Ordered maps\<close>

type_synonym ('k, 'v) btree_map = "('k \<times> 'v) list"

definition bt_wf :: "('k::linorder, 'v) btree_map \<Rightarrow> bool" where
  "bt_wf m \<longleftrightarrow> sorted_wrt (<) (map fst m)"

definition bt_get :: "('k, 'v) btree_map \<Rightarrow> 'k \<Rightarrow> 'v option" where
  "bt_get m k = map_of m k"

definition bt_get_or :: "'v \<Rightarrow> ('k, 'v) btree_map \<Rightarrow> 'k \<Rightarrow> 'v" where
  "bt_get_or d m k = (case bt_get m k of None \<Rightarrow> d | Some v \<Rightarrow> v)"

abbreviation bt_keys :: "('k, 'v) btree_map \<Rightarrow> 'k list" where
  "bt_keys m \<equiv> map fst m"

abbreviation bt_contains :: "('k, 'v) btree_map \<Rightarrow> 'k \<Rightarrow> bool" where
  "bt_contains m k \<equiv> bt_get m k \<noteq> None"

fun bt_insert :: "'k::linorder \<Rightarrow> 'v \<Rightarrow> ('k, 'v) btree_map \<Rightarrow> ('k, 'v) btree_map" where
  "bt_insert k v [] = [(k, v)]"
| "bt_insert k v ((k', v') # m) =
     (if k < k' then (k, v) # (k', v') # m
      else if k = k' then (k, v) # m
      else (k', v') # bt_insert k v m)"

definition bt_remove :: "'k \<Rightarrow> ('k, 'v) btree_map \<Rightarrow> ('k, 'v) btree_map" where
  "bt_remove k m = filter (\<lambda>(k', _). k' \<noteq> k) m"

definition bt_retain :: "('k \<Rightarrow> 'v \<Rightarrow> bool) \<Rightarrow> ('k, 'v) btree_map \<Rightarrow> ('k, 'v) btree_map" where
  "bt_retain P m = filter (\<lambda>(k, v). P k v) m"

definition bt_map :: "('k \<Rightarrow> 'v \<Rightarrow> 'w) \<Rightarrow> ('k, 'v) btree_map \<Rightarrow> ('k, 'w) btree_map" where
  "bt_map f m = map (\<lambda>(k, v). (k, f k v)) m"

definition bt_collect :: "('k::linorder \<times> 'v) list \<Rightarrow> ('k, 'v) btree_map" where
  "bt_collect xs = fold (\<lambda>(k, v) m. bt_insert k v m) xs []"

definition set_collect :: "'k::linorder list \<Rightarrow> 'k list" where
  "set_collect xs = map fst (bt_collect (map (\<lambda>k. (k, ())) xs))"

lemma bt_wf_Nil [simp, bt_intros]: "bt_wf []"
  by (simp add: bt_wf_def)

lemma bt_wf_Cons: "bt_wf ((k, v) # m) \<longleftrightarrow> bt_wf m \<and> (\<forall>k' \<in> fst ` set m. k < k')"
  by (auto simp: bt_wf_def)

lemma bt_wf_distinct: "bt_wf m \<Longrightarrow> distinct (map fst m)"
  by (simp add: bt_wf_def strict_sorted_iff)

lemma bt_get_Nil [simp, bt_simps]: "bt_get [] k = None"
  by (simp add: bt_get_def)

lemma bt_get_Cons: "bt_get ((k', v) # m) k = (if k = k' then Some v else bt_get m k)"
  by (simp add: bt_get_def)

lemma keys_bt_insert [simp, bt_simps]: "fst ` set (bt_insert k v m) = insert k (fst ` set m)"
  by (induction k v m rule: bt_insert.induct) auto

lemma bt_wf_insert [simp, bt_intros]: "bt_wf m \<Longrightarrow> bt_wf (bt_insert k v m)"
  by (induction k v m rule: bt_insert.induct) (auto simp: bt_wf_Cons)

lemma bt_get_insert [simp, bt_simps]:
  "bt_get (bt_insert k v m) k' = (if k' = k then Some v else bt_get m k')"
  by (induction k v m rule: bt_insert.induct) (auto simp: bt_get_Cons)

lemma bt_get_remove [simp, bt_simps]:
  "bt_get (bt_remove k m) k' = (if k' = k then None else bt_get m k')"
  by (induction m) (auto simp: bt_get_Cons bt_remove_def)

lemma keys_bt_remove [simp, bt_simps]: "fst ` set (bt_remove k m) = fst ` set m - {k}"
  by (auto simp: bt_remove_def image_iff)

lemma sorted_wrt_map_filter: "sorted_wrt P (map f xs) \<Longrightarrow> sorted_wrt P (map f (filter Q xs))"
  by (induction xs) auto

lemma bt_wf_remove [simp, bt_intros]: "bt_wf m \<Longrightarrow> bt_wf (bt_remove k m)"
  by (simp add: bt_wf_def bt_remove_def sorted_wrt_map_filter)

lemma bt_wf_retain [simp, bt_intros]: "bt_wf m \<Longrightarrow> bt_wf (bt_retain P m)"
  by (simp add: bt_wf_def bt_retain_def sorted_wrt_map_filter)

lemma bt_wf_map [simp, bt_intros]: "bt_wf (bt_map f m) = bt_wf m"
  by (simp add: bt_wf_def bt_map_def comp_def case_prod_unfold)

lemma keys_bt_map [simp, bt_simps]: "map fst (bt_map f m) = map fst m"
  by (simp add: bt_map_def comp_def case_prod_unfold)

lemma bt_get_map [simp, bt_simps]: "bt_get (bt_map f m) k = map_option (f k) (bt_get m k)"
  by (induction m) (auto simp: bt_map_def bt_get_Cons)

lemma bt_get_None_iff: "bt_get m k = None \<longleftrightarrow> k \<notin> fst ` set m"
  by (simp add: bt_get_def map_of_eq_None_iff)

lemma bt_get_retain [bt_simps]:
  "bt_wf m \<Longrightarrow> bt_get (bt_retain P m) k
     = (case bt_get m k of None \<Rightarrow> None | Some v \<Rightarrow> if P k v then Some v else None)"
proof (induction m)
  case (Cons x m)
  obtain k' v where x: "x = (k', v)" by fastforce
  have none: "bt_get m k' = None"
    using Cons.prems by (auto simp: x bt_wf_Cons bt_get_None_iff)
  have step: "bt_retain P ((k', v) # m) = (if P k' v then (k', v) # bt_retain P m else bt_retain P m)"
    by (simp add: bt_retain_def)
  from Cons show ?case
    unfolding x step by (cases "k = k'") (auto simp: none bt_get_Cons bt_wf_Cons)
qed (simp add: bt_retain_def)

lemma bt_get_SomeD: "bt_get m k = Some v \<Longrightarrow> (k, v) \<in> set m"
  by (simp add: bt_get_def map_of_SomeD)

lemma bt_get_mem: "bt_wf m \<Longrightarrow> bt_get m k = Some v \<longleftrightarrow> (k, v) \<in> set m"
  by (simp add: bt_get_def bt_wf_distinct)

lemma set_bt_insert:
  assumes "bt_wf m"
  shows "set (bt_insert k v m) = insert (k, v) {(k', v') \<in> set m. k' \<noteq> k}"
proof -
  have "(a, b) \<in> set (bt_insert k v m) \<longleftrightarrow> (a, b) \<in> insert (k, v) {(k', v') \<in> set m. k' \<noteq> k}" for a b
    using bt_get_mem [OF bt_wf_insert [OF assms], of k v a b] bt_get_mem [OF assms, of a b] by (auto split: if_splits)
  then show ?thesis by auto
qed

lemma set_bt_remove: "set (bt_remove k m) = {(k', v') \<in> set m. k' \<noteq> k}"
  by (auto simp: bt_remove_def)

lemma bt_get_or_simps [simp]:
  "bt_get_or d [] k = d"
  "bt_get_or d (bt_insert k' v m) k = (if k = k' then v else bt_get_or d m k)"
  "bt_get_or d (bt_remove k' m) k = (if k = k' then d else bt_get_or d m k)"
  by (auto simp: bt_get_or_def)

text \<open>A map is determined by its lookups.\<close>

lemma bt_ext:
  assumes "bt_wf m" "bt_wf n" "\<And>k. bt_get m k = bt_get n k"
  shows "m = n"
proof -
  have "set m = set n"
    using assms by (auto simp: bt_get_mem [symmetric])
  then have "set (map fst m) = set (map fst n)" by simp
  with assms(1,2) have keys: "map fst m = map fst n"
    unfolding bt_wf_def using strict_sorted_equal by metis
  have rebuild: "l = map (\<lambda>k. (k, the (bt_get l k))) (map fst l)" if "bt_wf l" for l :: "('a, 'b) btree_map"
    unfolding map_map comp_def
    by (rule map_idI [symmetric]) (use that in \<open>auto simp: bt_get_mem [symmetric]\<close>)
  have "m = map (\<lambda>k. (k, the (bt_get m k))) (map fst m)"
    using assms(1) by (rule rebuild)
  also have "\<dots> = map (\<lambda>k. (k, the (bt_get n k))) (map fst n)"
    using keys assms(3) by simp
  also have "\<dots> = n"
    using rebuild [OF assms(2)] by simp
  finally show ?thesis .
qed

lemma fold_bt_insert_wf: "bt_wf m \<Longrightarrow> bt_wf (fold (\<lambda>(k, v) m. bt_insert k v m) xs m)"
  by (induction xs arbitrary: m) auto

lemma fold_bt_insert_get:
  "bt_get (fold (\<lambda>(k, v) m. bt_insert k v m) xs m) k
     = (case map_of (rev xs) k of None \<Rightarrow> bt_get m k | Some v \<Rightarrow> Some v)"
  by (induction xs arbitrary: m) (auto simp: map_add_def split: option.splits)

lemma bt_wf_collect [simp, bt_intros]: "bt_wf (bt_collect xs)"
  by (simp add: bt_collect_def fold_bt_insert_wf)

lemma bt_get_collect: "bt_get (bt_collect xs) k = map_of (rev xs) k"
  by (simp add: bt_collect_def fold_bt_insert_get split: option.splits)

lemma map_of_rev: "distinct (map fst xs) \<Longrightarrow> map_of (rev xs) = map_of xs"
  by (rule map_of_eqI) (auto simp: rev_map [symmetric] map_of_is_SomeI dest: map_of_SomeD)

lemma bt_get_collect_distinct:
  "distinct (map fst xs) \<Longrightarrow> bt_get (bt_collect xs) k = map_of xs k"
  by (simp add: bt_get_collect map_of_rev)

lemma keys_bt_collect: "fst ` set (bt_collect xs) = fst ` set xs"
proof -
  have "k \<in> fst ` set (bt_collect xs) \<longleftrightarrow> k \<in> fst ` set xs" for k
    using bt_get_None_iff [of "bt_collect xs" k]
    by (auto simp: bt_get_collect map_of_eq_None_iff)
  then show ?thesis by blast
qed

lemma bt_get_collect_unique:
  assumes "(k, v) \<in> set xs" "\<And>w. (k, w) \<in> set xs \<Longrightarrow> w = v"
  shows "bt_get (bt_collect xs) k = Some v"
proof (cases "map_of (rev xs) k")
  case None
  with assms(1) show ?thesis by (auto simp: map_of_eq_None_iff image_iff)
next
  case (Some w)
  then have "(k, w) \<in> set xs" by (auto dest: map_of_SomeD)
  with assms(2) Some show ?thesis by (simp add: bt_get_collect)
qed

lemma bt_collect_wf_id: "bt_wf xs \<Longrightarrow> bt_collect xs = xs"
  by (rule bt_ext) (simp_all add: bt_get_collect_distinct bt_wf_distinct, simp add: bt_get_def)

lemma bt_wf_sort_zip:
  assumes "distinct (map key xs)" "length ys = length xs"
  shows "bt_wf (zip (map key (sort_key key xs)) ys)"
proof -
  have "distinct (map key (sort_key key xs))" using assms(1) by (simp add: distinct_map)
  then show ?thesis using assms(2) by (simp add: bt_wf_def strict_sorted_iff)
qed

lemma set_set_collect [simp]: "set (set_collect xs) = set xs"
proof -
  have "set (set_collect xs) = fst ` set (bt_collect (map (\<lambda>k. (k, ())) xs))"
    by (simp add: set_collect_def)
  also have "\<dots> = set xs"
    unfolding keys_bt_collect by (auto simp: image_iff)
  finally show ?thesis .
qed

lemma strict_sorted_set_collect: "sorted_wrt (<) (set_collect xs)"
  using bt_wf_collect [of "map (\<lambda>k. (k, ())) xs"] by (simp add: set_collect_def bt_wf_def)

lemma distinct_set_collect [simp]: "distinct (set_collect xs)"
  using strict_sorted_set_collect strict_sorted_iff by blast

subsection \<open>Sums over an ordered map\<close>

definition bt_sum :: "('v \<Rightarrow> nat) \<Rightarrow> ('k, 'v) btree_map \<Rightarrow> nat" where
  "bt_sum f m = (\<Sum>(k, v) \<leftarrow> m. f v)"

lemma bt_sum_Nil [simp]: "bt_sum f [] = 0"
  by (simp add: bt_sum_def)

lemma bt_sum_Cons [simp]: "bt_sum f ((k, v) # m) = f v + bt_sum f m"
  by (simp add: bt_sum_def)

lemma bt_sum_insert:
  "bt_wf m \<Longrightarrow> bt_sum f (bt_insert k v m) + (case bt_get m k of None \<Rightarrow> 0 | Some w \<Rightarrow> f w)
     = bt_sum f m + f v"
proof (induction k v m rule: bt_insert.induct)
  case (2 k v k' v' m)
  have "k < k' \<Longrightarrow> bt_get m k = None"
    using "2.prems" by (auto simp: bt_wf_Cons bt_get_None_iff)
  with 2 show ?case by (auto simp: bt_wf_Cons bt_get_Cons)
qed simp

lemma bt_sum_ge: "bt_get m k = Some v \<Longrightarrow> f v \<le> bt_sum f m"
  by (induction m) (auto simp: bt_get_Cons split: if_splits)

lemma bt_sum_remove:
  "bt_wf m \<Longrightarrow> bt_sum f (bt_remove k m) + (case bt_get m k of None \<Rightarrow> 0 | Some w \<Rightarrow> f w) = bt_sum f m"
proof (induction m)
  case (Cons x m)
  obtain k' v where x: "x = (k', v)" by fastforce
  show ?case
  proof (cases "k = k'")
    case True
    then have "k \<notin> fst ` set m"
      using Cons.prems by (auto simp: bt_wf_Cons x)
    then have "bt_remove k m = m"
      by (auto simp: bt_remove_def filter_id_conv image_iff)
    with True show ?thesis by (simp add: bt_remove_def x bt_get_Cons)
  next
    case False
    with Cons show ?thesis by (simp add: bt_remove_def x bt_wf_Cons bt_get_Cons)
  qed
qed (simp add: bt_remove_def)

text \<open>A sum over an association list with distinct keys, as a sum over any finite set of keys.\<close>

lemma sum_list_assoc:
  assumes "distinct (map fst xs)" "finite K" "fst ` set xs \<subseteq> K"
  shows "(\<Sum>(k, v) \<leftarrow> xs. v) = (\<Sum>k \<in> K. case map_of xs k of None \<Rightarrow> 0 | Some v \<Rightarrow> v)"
proof -
  let ?f = "\<lambda>k. case map_of xs k of None \<Rightarrow> 0 | Some v \<Rightarrow> v"
  have "(\<Sum>(k, v) \<leftarrow> xs. v) = (\<Sum>k \<leftarrow> map fst xs. ?f k)"
    unfolding map_map by (intro arg_cong [of _ _ sum_list] map_cong) (use assms(1) in \<open>auto\<close>)
  also have "\<dots> = (\<Sum>k \<in> set (map fst xs). ?f k)"
    using assms(1) by (rule sum_list_distinct_conv_sum_set)
  also have "\<dots> = (\<Sum>k \<in> K. ?f k)"
    by (rule sum.mono_neutral_left) (use assms in \<open>auto simp: map_of_eq_None_iff [THEN iffD2]\<close>)
  finally show ?thesis .
qed

section \<open>Transition systems\<close>

text \<open>
  Components with interleaved operations are transition systems. The locale fixes the initial
  states and the step relation of one, and gives the induction principle for its invariants.
\<close>

locale transition_system =
  fixes initial :: "'s \<Rightarrow> bool"
    and step :: "'s \<Rightarrow> 's \<Rightarrow> bool"
    and reachable :: "'s \<Rightarrow> bool"
  assumes reachable_least:
    "reachable s \<Longrightarrow> (\<And>t. initial t \<Longrightarrow> P t) \<Longrightarrow> (\<And>t u. reachable t \<Longrightarrow> P t \<Longrightarrow> step t u \<Longrightarrow> P u) \<Longrightarrow> P s"
begin

lemma invariant:
  assumes "reachable s" "\<And>t. initial t \<Longrightarrow> I t" "\<And>t u. I t \<Longrightarrow> step t u \<Longrightarrow> I u"
  shows "I s"
  using reachable_least [of s I] assms by blast

lemma invariant_under:
  assumes "reachable s"
    and "\<And>t. reachable t \<Longrightarrow> aux t"
    and "\<And>t. initial t \<Longrightarrow> I t"
    and "\<And>t u. aux t \<Longrightarrow> I t \<Longrightarrow> step t u \<Longrightarrow> I u"
  shows "I s"
  using reachable_least [of s I] assms by blast

end

section \<open>Lists\<close>

lemma sum_list_update_Suc:
  fixes xs :: "nat list"
  assumes "i < length xs"
  shows "sum_list (xs[i := Suc (xs ! i)]) = Suc (sum_list xs)"
  using assms by (simp add: sum_list_update)

lemma sum_list_map_mono:
  fixes f g :: "'a \<Rightarrow> nat"
  assumes "\<And>x. x \<in> set xs \<Longrightarrow> f x \<le> g x"
  shows "(\<Sum>x \<leftarrow> xs. f x) \<le> (\<Sum>x \<leftarrow> xs. g x)"
  using assms by (rule sum_list_mono)

lemma sum_list_nth_le:
  fixes xs :: "nat list"
  assumes "i < length xs"
  shows "xs ! i \<le> sum_list xs"
  using assms by (simp add: member_le_sum_list)

lemma sum_list_nth_conv: "(\<Sum>x \<leftarrow> xs. f x) = (\<Sum>i \<leftarrow> [0..<length xs]. f (xs ! i))"
proof -
  have "map f xs = map (\<lambda>i. f (xs ! i)) [0..<length xs]" by (rule nth_equalityI) simp_all
  then show ?thesis by (simp only:)
qed

lemma sum_le_eq_pointwise:
  fixes f g :: "'a \<Rightarrow> nat"
  assumes "\<forall>x \<in> set xs. f x \<le> g x" "(\<Sum>x \<leftarrow> xs. g x) \<le> (\<Sum>x \<leftarrow> xs. f x)" "x \<in> set xs"
  shows "f x = g x"
  using assms
proof (induction xs)
  case (Cons y ys)
  have "(\<Sum>x \<leftarrow> ys. f x) \<le> (\<Sum>x \<leftarrow> ys. g x)"
    using Cons.prems(1) by (intro sum_list_map_mono) simp
  with Cons show ?case by auto
qed simp

lemma sum_list_concat_map: "sum_list (concat (map f xs)) = (\<Sum>x \<leftarrow> xs. sum_list (f x))"
  for f :: "'a \<Rightarrow> nat list"
  by (induction xs) auto

lemma sum_list_sort_key:
  fixes f :: "'a \<Rightarrow> nat"
  shows "(\<Sum>x \<leftarrow> sort_key k xs. f x) = (\<Sum>x \<leftarrow> xs. f x)"
  by (metis mset_map mset_sort sum_mset_sum_list)

lemma sort_key_cong_mset:
  assumes "mset xs = mset ys" "inj_on k (set xs)"
  shows "sort_key k xs = sort_key k ys"
proof (rule properties_for_sort_key)
  show "mset (sort_key k ys) = mset xs" using assms(1) by simp
  show "sorted (map k (sort_key k ys))" by simp
  fix x assume "x \<in> set (sort_key k ys)"
  have eq: "\<And>zs. mset zs = mset xs \<Longrightarrow> filter (\<lambda>y. k x = k y) zs = replicate (count (mset xs) x) x"
  proof -
    fix zs assume zs: "mset zs = mset xs"
    have sx: "set zs = set xs" using zs by (metis set_mset_mset)
    have "x \<in> set xs" using \<open>x \<in> set (sort_key k ys)\<close> assms(1) by (metis set_mset_mset set_sort)
    then have "filter (\<lambda>y. k x = k y) zs = filter ((=) x) zs"
      using assms(2) sx by (intro filter_cong) (auto dest: inj_onD)
    then show "filter (\<lambda>y. k x = k y) zs = replicate (count (mset xs) x) x"
      using zs by (metis count_mset filter_eq_replicate_mset replicate_count_mset_eq_filter_eq)
  qed
  show "filter (\<lambda>y. k x = k y) (sort_key k ys) = filter (\<lambda>y. k x = k y) xs"
    using eq [of xs] eq [of "sort_key k ys"] assms(1) by simp
qed

end
