(* ===== verification/Fair.thy ===== *)
theory Fair
  imports Prelude
begin

text \<open>
  The allocation algorithm of \<^verbatim>\<open>crates/sched\<close>: the claims of \<^verbatim>\<open>lib.rs\<close> and the weighted
  max-min fair allocator of \<^verbatim>\<open>fair.rs\<close>. Three fillings (guarantee, demand, retention) hand out
  a budget one slot at a time, each slot to the least entry of a heap. The lemmas show that a
  filling spends exactly what is wanted and available, never passes a limit, and is weighted
  max-min fair; the properties lift this to the grants of a whole allocation.
\<close>

section \<open>Claims and grants\<close>

record 'k Claim =
  claim_key :: 'k
  claim_min :: nat
  claim_max :: nat
  claim_weight :: nat
  claim_demand :: nat
  claim_current :: nat
  claim_may_release :: bool

definition Claim_ceiling :: "'k Claim \<Rightarrow> nat" where
  "Claim_ceiling c = min (claim_demand c) (claim_max c)"

definition Claim_guarantee :: "'k Claim \<Rightarrow> nat" where
  "Claim_guarantee c = min (claim_min c) (Claim_ceiling c)"

definition Claim_kept :: "'k Claim \<Rightarrow> nat \<Rightarrow> nat" where
  "Claim_kept c release =
     (let release = (if claim_may_release c then release else 0)
      in min (claim_current c - release) (claim_max c))"

record 'k Grants =
  grants_granted :: "('k, nat) btree_map"
  grants_total :: nat
  grants_unmet_guarantee :: nat

definition Grants_get :: "'k Grants \<Rightarrow> 'k \<Rightarrow> nat" where
  "Grants_get g k = bt_get_or 0 (grants_granted g) k"

definition Grants_guarantees_met :: "'k Grants \<Rightarrow> bool" where
  "Grants_guarantees_met g \<longleftrightarrow> grants_unmet_guarantee g = 0"

section \<open>One filling\<close>

record Row =
  row_guarantee :: nat
  row_ceiling :: nat
  row_kept :: nat
  row_held :: nat
  row_weight :: nat
  row_granted :: nat
  row_base :: nat

datatype Phase = Guarantee | Demand | Retention

fun Phase_limit :: "Phase \<Rightarrow> Row \<Rightarrow> nat" where
  "Phase_limit Guarantee row = row_guarantee row"
| "Phase_limit Demand row = row_ceiling row"
| "Phase_limit Retention row = row_kept row"

record Next =
  next_index :: nat
  next_taken :: nat
  next_weight :: nat
  next_moving :: bool

definition Next_after :: "nat \<Rightarrow> Row \<Rightarrow> Next" where
  "Next_after index row =
     \<lparr>next_index = index,
      next_taken = row_granted row - row_base row + 1,
      next_weight = row_weight row,
      next_moving = (row_granted row \<ge> row_held row)\<rparr>"

definition Next_cmp :: "Next \<Rightarrow> Next \<Rightarrow> Ordering" where
  "Next_cmp a b =
     (let mine = next_taken a * next_weight b;
          theirs = next_taken b * next_weight a
      in then_with (then_with (cmp mine theirs) (cmp (next_moving a) (next_moving b)))
           (cmp (next_index a) (next_index b)))"

definition Next_le :: "Next \<Rightarrow> Next \<Rightarrow> bool" where
  "Next_le a b \<longleftrightarrow> Next_cmp a b \<noteq> Greater"

fun fill_loop :: "Phase \<Rightarrow> nat \<Rightarrow> Row list \<Rightarrow> Next list \<Rightarrow> Row list \<times> nat" where
  "fill_loop phase 0 rows queue = (rows, 0)"
| "fill_loop phase (Suc remaining) rows queue =
     (case pop_min Next_le queue of
        None \<Rightarrow> (rows, Suc remaining)
      | Some (nx, queue') \<Rightarrow>
          (let row = (rows ! next_index nx)\<lparr>row_granted := row_granted (rows ! next_index nx) + 1\<rparr>;
               rows' = rows[next_index nx := row];
               queue'' = (if row_granted row < Phase_limit phase row
                          then Next_after (next_index nx) row # queue' else queue')
           in fill_loop phase remaining rows' queue''))"

definition fill_queue :: "Phase \<Rightarrow> Row list \<Rightarrow> Next list" where
  "fill_queue phase rows =
     map (\<lambda>(index, row). Next_after index row)
       (filter (\<lambda>(_, row). row_granted row < Phase_limit phase row) (enumerate 0 rows))"

definition fill :: "Row list \<Rightarrow> nat \<Rightarrow> Phase \<Rightarrow> Row list \<times> nat" where
  "fill rows remaining phase =
     (if remaining = 0 then (rows, remaining)
      else let rows = map (\<lambda>row. row\<lparr>row_base := row_granted row\<rparr>) rows
           in fill_loop phase remaining rows (fill_queue phase rows))"

section \<open>The allocation\<close>

definition Row_of_claim :: "nat \<Rightarrow> 'k Claim \<Rightarrow> Row" where
  "Row_of_claim release c =
     \<lparr>row_guarantee = Claim_guarantee c, row_ceiling = Claim_ceiling c,
      row_kept = Claim_kept c release, row_held = claim_current c,
      row_weight = claim_weight c, row_granted = 0, row_base = 0\<rparr>"

fun gather :: "(Row \<times> ('k::linorder) Claim) list \<Rightarrow> ('k, nat) btree_map \<times> nat \<times> nat
    \<Rightarrow> ('k, nat) btree_map \<times> nat \<times> nat" where
  "gather [] acc = acc"
| "gather ((row, c) # rest) (granted, tot, unmet) =
     (let unmet' = unmet + (row_guarantee row - row_granted row)
      in if row_granted row > 0
         then gather rest (bt_insert (claim_key c) (row_granted row) granted,
                           tot + row_granted row, unmet')
         else gather rest (granted, tot, unmet'))"

definition fill_phases :: "Row list \<Rightarrow> nat \<Rightarrow> Row list \<times> nat" where
  "fill_phases rows budget =
     (let (rows, remaining) = fill rows budget Guarantee;
          (rows, remaining) = fill rows remaining Demand
      in fill rows remaining Retention)"

definition allocate :: "nat \<Rightarrow> nat \<Rightarrow> ('k::linorder) Claim list \<Rightarrow> 'k Grants" where
  "allocate release budget claims =
     (let order = sort_key claim_key claims;
          (rows, _) = fill_phases (map (Row_of_claim release) order) budget;
          (granted, tot, unmet) = gather (zip rows order) ([], 0, 0)
      in \<lparr>grants_granted = granted, grants_total = tot, grants_unmet_guarantee = clamp32 unmet\<rparr>)"

section \<open>The heap order\<close>

lemma Next_le_iff:
  "Next_le a b \<longleftrightarrow>
     (next_taken a * next_weight b < next_taken b * next_weight a
      \<or> next_taken a * next_weight b = next_taken b * next_weight a
        \<and> (next_moving a < next_moving b
           \<or> next_moving a = next_moving b \<and> next_index a \<le> next_index b))"
  by (auto simp: Next_le_def Next_cmp_def Let_def then_with_not_Greater then_with_Less not_less)

lemma cross_mult_trans:
  fixes a b c wa wb wc :: nat
  assumes "0 < wb" "a * wb \<le> b * wa" "b * wc \<le> c * wb"
  shows "a * wc \<le> c * wa"
proof -
  have "a * wc * wb \<le> b * wa * wc"
    using mult_le_mono1 [OF assms(2), of wc] by (simp add: ac_simps)
  also have "\<dots> \<le> c * wa * wb"
    using mult_le_mono1 [OF assms(3), of wa] by (simp add: ac_simps)
  finally show ?thesis using assms(1) by simp
qed

lemma cross_mult_strict:
  fixes a b c wa wb wc :: nat
  assumes "0 < wb" "0 < wa" "0 < wc" "a * wb \<le> b * wa" "b * wc \<le> c * wb"
    and "a * wc = c * wa"
  shows "a * wb = b * wa \<and> b * wc = c * wb"
proof -
  have "b * wa \<le> a * wb"
    by (rule cross_mult_trans [OF assms(3,5)]) (simp add: assms(6))
  moreover have "c * wb \<le> b * wc"
    by (rule cross_mult_trans [OF assms(2) _ assms(4)]) (simp add: assms(6))
  ultimately show ?thesis using assms by simp
qed

interpretation heap: preorder_on "\<lambda>nx. 0 < next_weight nx" Next_le
proof
  fix x y z :: Next
  assume w: "0 < next_weight x" "0 < next_weight y" "0 < next_weight z"
    and xy: "Next_le x y" and yz: "Next_le y z"
  have le: "next_taken x * next_weight y \<le> next_taken y * next_weight x"
    "next_taken y * next_weight z \<le> next_taken z * next_weight y"
    using xy yz by (auto simp: Next_le_iff)
  have xz: "next_taken x * next_weight z \<le> next_taken z * next_weight x"
    using cross_mult_trans [OF w(2) le] .
  show "Next_le x z"
  proof (cases "next_taken x * next_weight z = next_taken z * next_weight x")
    case True
    from cross_mult_strict [OF w(2,1,3) le True] xy yz
    show ?thesis unfolding Next_le_iff using True by auto
  next
    case False
    with xz show ?thesis by (simp add: Next_le_iff)
  qed
next
  fix x y :: Next
  show "Next_le x y \<or> Next_le y x" by (auto simp: Next_le_iff)
qed

section \<open>The filling loop\<close>

lemma Phase_limit_frame [simp]:
  "Phase_limit phase (row\<lparr>row_granted := n\<rparr>) = Phase_limit phase row"
  "Phase_limit phase (row\<lparr>row_base := n\<rparr>) = Phase_limit phase row"
  by (cases phase; simp)+

definition give :: "nat \<Rightarrow> Row list \<Rightarrow> Row list" where
  "give i rows = rows[i := (rows ! i)\<lparr>row_granted := row_granted (rows ! i) + 1\<rparr>]"

definition wants :: "Phase \<Rightarrow> Row \<Rightarrow> bool" where
  "wants phase row \<longleftrightarrow> row_granted row < Phase_limit phase row"

text \<open>The heap holds one entry for every row that still wants a slot, computed from that row.\<close>

definition queue_ok :: "Phase \<Rightarrow> Row list \<Rightarrow> Next list \<Rightarrow> bool" where
  "queue_ok phase rows q \<longleftrightarrow>
     distinct (map next_index q)
     \<and> (\<forall>nx \<in> set q. nx = Next_after (next_index nx) (rows ! next_index nx))
     \<and> next_index ` set q = {i. i < length rows \<and> wants phase (rows ! i)}"

lemma length_give [simp]: "length (give i rows) = length rows"
  by (simp add: give_def)

lemma nth_give:
  "j < length rows \<Longrightarrow>
     give i rows ! j = (if i = j then (rows ! j)\<lparr>row_granted := Suc (row_granted (rows ! j))\<rparr> else rows ! j)"
  by (simp add: give_def nth_list_update)

lemma next_index_Next_after [simp]: "next_index (Next_after i row) = i"
  by (simp add: Next_after_def)

lemma fill_loop_Suc:
  "pop_min Next_le q = Some (nx, q') \<Longrightarrow> next_index nx = i \<Longrightarrow> i < length rows \<Longrightarrow>
   fill_loop phase (Suc n) rows q =
     fill_loop phase n (give i rows)
       (if wants phase (give i rows ! i) then Next_after i (give i rows ! i) # q' else q')"
  by (simp add: give_def wants_def Let_def)

lemma fill_loop_empty [simp]: "fill_loop phase n rows [] = (rows, n)"
  by (cases n) simp_all

declare fill_loop.simps(2) [simp del]

lemma queue_ok_popD:
  assumes "queue_ok phase rows q" "pop_min Next_le q = Some (nx, q')"
  shows "next_index nx < length rows" "wants phase (rows ! next_index nx)"
    "nx = Next_after (next_index nx) (rows ! next_index nx)"
  using assms pop_min_SomeD [OF assms(2)] by (auto simp: queue_ok_def)

lemma queue_ok_give:
  assumes ok: "queue_ok phase rows q" and pop: "pop_min Next_le q = Some (nx, q')"
    and i: "i = next_index nx"
  shows "queue_ok phase (give i rows)
     (if wants phase (give i rows ! i) then Next_after i (give i rows ! i) # q' else q')"
proof -
  from pop_min_SomeD [OF pop] have mem: "nx \<in> set q" and q': "q' = remove1 nx q" by auto
  from ok have dist: "distinct (map next_index q)" by (simp add: queue_ok_def)
  then have dq: "distinct q" by (simp add: distinct_map)
  have sub: "set q' = set q - {nx}" using dq q' by simp
  have inj: "inj_on next_index (set q)" using dist by (simp add: distinct_map)
  have idx: "next_index ` set q' = next_index ` set q - {i}"
    using inj mem by (auto simp: sub i inj_on_def)
  have d': "distinct (map next_index q')"
    using dist by (auto simp: q' distinct_map inj_on_def dest: notin_set_remove1)
  have other: "\<forall>m \<in> set q'. m = Next_after (next_index m) (give i rows ! next_index m)"
  proof
    fix m assume m: "m \<in> set q'"
    with idx have ne: "next_index m \<noteq> i" by auto
    from m sub ok have "m = Next_after (next_index m) (rows ! next_index m)"
      and "next_index m < length rows" by (auto simp: queue_ok_def)
    with ne show "m = Next_after (next_index m) (give i rows ! next_index m)"
      by (simp add: nth_give)
  qed
  have wanting: "{j. j < length (give i rows) \<and> wants phase (give i rows ! j)}
      = (next_index ` set q - {i}) \<union> (if wants phase (give i rows ! i) then {i} else {})"
    using queue_ok_popD [OF ok pop] ok by (auto simp: queue_ok_def nth_give i split: if_splits)
  show ?thesis
    unfolding queue_ok_def using d' other idx wanting by auto
qed

lemma fill_loop_induct [consumes 1, case_names start give]:
  assumes "queue_ok phase rows q"
    and "P rows"
    and "\<And>rows q nx q' i. queue_ok phase rows q \<Longrightarrow> pop_min Next_le q = Some (nx, q') \<Longrightarrow>
           i = next_index nx \<Longrightarrow> i < length rows \<Longrightarrow> wants phase (rows ! i) \<Longrightarrow> P rows \<Longrightarrow>
           P (give i rows)"
  shows "P (fst (fill_loop phase n rows q))"
  using assms(1,2)
proof (induction n arbitrary: rows q)
  case (Suc n)
  show ?case
  proof (cases "pop_min Next_le q")
    case None
    with Suc.prems show ?thesis by simp
  next
    case (Some pair)
    then obtain nx q' where pop: "pop_min Next_le q = Some (nx, q')" by (cases pair) auto
    note d = queue_ok_popD [OF Suc.prems(1) pop]
    have "P (give (next_index nx) rows)"
      by (rule assms(3) [OF Suc.prems(1) pop refl d(1,2) Suc.prems(2)])
    with Suc.IH [OF queue_ok_give [OF Suc.prems(1) pop refl]] show ?thesis
      by (simp add: fill_loop_Suc [OF pop refl d(1)])
  qed
qed simp

lemma fill_loop_exit:
  assumes "queue_ok phase rows q"
  shows "snd (fill_loop phase n rows q) = 0
     \<or> (\<forall>i < length rows. \<not> wants phase (fst (fill_loop phase n rows q) ! i))"
  using assms
proof (induction n arbitrary: rows q)
  case (Suc n)
  show ?case
  proof (cases "pop_min Next_le q")
    case None
    with Suc.prems show ?thesis by (auto simp: queue_ok_def)
  next
    case (Some pair)
    then obtain nx q' where pop: "pop_min Next_le q = Some (nx, q')" by (cases pair) auto
    from Suc.IH [OF queue_ok_give [OF Suc.prems pop refl]]
    show ?thesis
      by (simp add: fill_loop_Suc [OF pop refl queue_ok_popD(1) [OF Suc.prems pop]])
  qed
qed simp

abbreviation granted_sum :: "Row list \<Rightarrow> nat" where
  "granted_sum rows \<equiv> (\<Sum>row \<leftarrow> rows. row_granted row)"

lemma granted_sum_give:
  assumes "i < length rows"
  shows "granted_sum (give i rows) = Suc (granted_sum rows)"
proof -
  have "map row_granted (give i rows) = (map row_granted rows)[i := Suc (map row_granted rows ! i)]"
    using assms by (simp add: give_def map_update)
  with sum_list_update_Suc [of i "map row_granted rows"] assms show ?thesis by simp
qed

lemma fill_loop_spends:
  assumes "queue_ok phase rows q"
  shows "granted_sum (fst (fill_loop phase n rows q)) + snd (fill_loop phase n rows q) = granted_sum rows + n"
  using assms
proof (induction n arbitrary: rows q)
  case (Suc n)
  show ?case
  proof (cases "pop_min Next_le q")
    case (Some pair)
    then obtain nx q' where pop: "pop_min Next_le q = Some (nx, q')" by (cases pair) auto
    note d = queue_ok_popD(1) [OF Suc.prems pop]
    from Suc.IH [OF queue_ok_give [OF Suc.prems pop refl]]
    show ?thesis by (simp add: fill_loop_Suc [OF pop refl d] granted_sum_give [OF d])
  qed simp
qed simp

subsection \<open>What a filling leaves\<close>

text \<open>
  \<open>grew_to phase rows rows'\<close>: the rows after a filling are the rows before it with more granted,
  and no row that was within the limit of the phase passed it.
\<close>

definition grew_to :: "Phase \<Rightarrow> Row list \<Rightarrow> Row list \<Rightarrow> bool" where
  "grew_to phase rows rows' \<longleftrightarrow>
     length rows' = length rows
     \<and> (\<forall>i < length rows.
          rows' ! i = (rows ! i)\<lparr>row_granted := row_granted (rows' ! i), row_base := row_base (rows' ! i)\<rparr>
          \<and> row_granted (rows ! i) \<le> row_granted (rows' ! i)
          \<and> row_granted (rows' ! i) \<le> max (row_granted (rows ! i)) (Phase_limit phase (rows ! i)))"

lemma grew_to_refl: "grew_to phase rows rows"
  by (simp add: grew_to_def)

lemma grew_to_give:
  assumes "grew_to phase rows0 rows" "i < length rows" "wants phase (rows ! i)"
  shows "grew_to phase rows0 (give i rows)"
  unfolding grew_to_def
proof (intro conjI allI impI)
  show "length (give i rows) = length rows0"
    using assms(1) by (simp add: grew_to_def)
next
  fix j assume j: "j < length rows0"
  then have jl: "j < length rows" using assms(1) by (simp add: grew_to_def)
  from assms(1) j have r: "rows ! j = (rows0 ! j)\<lparr>row_granted := row_granted (rows ! j),
      row_base := row_base (rows ! j)\<rparr>"
    and lo: "row_granted (rows0 ! j) \<le> row_granted (rows ! j)"
    and hi: "row_granted (rows ! j) \<le> max (row_granted (rows0 ! j)) (Phase_limit phase (rows0 ! j))"
    by (auto simp: grew_to_def)
  have lim: "Phase_limit phase (rows ! j) = Phase_limit phase (rows0 ! j)"
    by (subst r) simp
  show "give i rows ! j = (rows0 ! j)\<lparr>row_granted := row_granted (give i rows ! j),
      row_base := row_base (give i rows ! j)\<rparr>"
    using r by (cases "rows0 ! j"; cases "rows ! j") (simp add: nth_give [OF jl])
  show "row_granted (rows0 ! j) \<le> row_granted (give i rows ! j)"
    using lo by (simp add: nth_give [OF jl])
  show "row_granted (give i rows ! j) \<le> max (row_granted (rows0 ! j)) (Phase_limit phase (rows0 ! j))"
    using hi assms(3) lim by (auto simp: nth_give [OF jl] wants_def)
qed

lemma queue_ok_fill_queue: "queue_ok phase rows (fill_queue phase rows)"
proof -
  let ?W = "{i. i < length rows \<and> wants phase (rows ! i)}"
  let ?w = "filter (\<lambda>(_, row). row_granted row < Phase_limit phase row) (enumerate 0 rows)"
  have w: "set ?w = (\<lambda>i. (i, rows ! i)) ` ?W"
    by (auto simp: in_set_enumerate_eq wants_def)
  have q: "set (fill_queue phase rows) = (\<lambda>i. Next_after i (rows ! i)) ` ?W"
    unfolding fill_queue_def set_map w by (simp add: image_image)
  have "map next_index (fill_queue phase rows) = map fst ?w"
    by (auto simp: fill_queue_def)
  moreover have "distinct (map fst ?w)"
    by (rule distinct_map_filter) simp
  ultimately show ?thesis
    by (auto simp: queue_ok_def q image_image)
qed

text \<open>Everything the later proofs need of one filling.\<close>

lemma fill_spec:
  assumes "fill rows n phase = (rows', n')"
  shows "grew_to phase rows rows'"
    and "granted_sum rows' + n' = granted_sum rows + n"
    and "n' = 0 \<or> (\<forall>i < length rows. Phase_limit phase (rows ! i) \<le> row_granted (rows' ! i))"
proof -
  let ?b = "map (\<lambda>row. row\<lparr>row_base := row_granted row\<rparr>) rows"
  let ?q = "fill_queue phase ?b"
  let ?r = "fill_loop phase n ?b ?q"
  have b: "grew_to phase rows ?b" by (simp add: grew_to_def)
  have sumb: "granted_sum ?b = granted_sum rows" by (simp add: comp_def)
  have "grew_to phase rows (fst ?r)"
    using queue_ok_fill_queue b by (rule fill_loop_induct) (rule grew_to_give)
  with assms show g: "grew_to phase rows rows'"
    by (auto simp: fill_def Let_def grew_to_refl split: if_splits)
  show "granted_sum rows' + n' = granted_sum rows + n"
    using fill_loop_spends [OF queue_ok_fill_queue [of phase ?b], of n] sumb assms
    by (auto simp: fill_def Let_def split: if_splits)
  show "n' = 0 \<or> (\<forall>i < length rows. Phase_limit phase (rows ! i) \<le> row_granted (rows' ! i))"
  proof (cases "n = 0")
    case True
    with assms show ?thesis by (simp add: fill_def)
  next
    case False
    with assms have r: "?r = (rows', n')" by (simp add: fill_def Let_def)
    have lim: "Phase_limit phase (rows' ! i) = Phase_limit phase (rows ! i)" if "i < length rows" for i
    proof -
      have "rows' ! i = (rows ! i)\<lparr>row_granted := row_granted (rows' ! i), row_base := row_base (rows' ! i)\<rparr>"
        using g that by (simp add: grew_to_def)
      then show ?thesis by (metis Phase_limit_frame)
    qed
    from fill_loop_exit [OF queue_ok_fill_queue [of phase ?b], of n] r lim show ?thesis
      by (auto simp: wants_def not_less)
  qed
qed

subsection \<open>Weighted fairness of a filling\<close>

definition taken :: "Row \<Rightarrow> nat" where
  "taken row = row_granted row - row_base row"

text \<open>
  No row has taken more, relative to its weight, than a row that still wants a slot would have
  after one more.
\<close>

definition fair_rows :: "Phase \<Rightarrow> Row list \<Rightarrow> bool" where
  "fair_rows phase rows \<longleftrightarrow>
     (\<forall>row \<in> set rows. 0 < row_weight row \<and> row_base row \<le> row_granted row)
     \<and> (\<forall>i < length rows. \<forall>j < length rows. wants phase (rows ! i) \<longrightarrow>
          taken (rows ! j) * row_weight (rows ! i) \<le> Suc (taken (rows ! i)) * row_weight (rows ! j))"

text \<open>The row a slot goes to is the one that has, for its weight, taken least.\<close>

lemma queue_weights:
  assumes "queue_ok phase rows q" "fair_rows phase rows"
  shows "\<forall>m \<in> set q. 0 < next_weight m"
proof
  fix m assume m: "m \<in> set q"
  with assms(1) have "next_index m < length rows" "m = Next_after (next_index m) (rows ! next_index m)"
    by (auto simp: queue_ok_def)
  with assms(2) show "0 < next_weight m"
    unfolding fair_rows_def by (metis Next_after_def Next.select_convs(3) nth_mem)
qed

lemma popped_least:
  assumes ok: "queue_ok phase rows q" and pop: "pop_min Next_le q = Some (nx, q')" and k: "k = next_index nx"
    and fair: "fair_rows phase rows" and i: "i < length rows" "wants phase (rows ! i)"
  shows "Suc (taken (rows ! k)) * row_weight (rows ! i) \<le> Suc (taken (rows ! i)) * row_weight (rows ! k)"
proof -
  from i ok have "i \<in> next_index ` set q" by (simp add: queue_ok_def)
  then obtain m where m: "m \<in> set q" "next_index m = i" by auto
  with ok have mi: "m = Next_after i (rows ! i)" by (auto simp: queue_ok_def)
  have nk: "nx = Next_after k (rows ! k)" using queue_ok_popD(3) [OF ok pop] k by simp
  from heap.pop_min_least [OF pop queue_weights [OF ok fair] m(1)] have "Next_le nx m" .
  then show ?thesis by (auto simp: Next_le_iff mi nk Next_after_def taken_def)
qed

lemma fair_rows_give:
  assumes ok: "queue_ok phase rows q" and pop: "pop_min Next_le q = Some (nx, q')"
    and k: "k = next_index nx" "k < length rows" "wants phase (rows ! k)"
    and fair: "fair_rows phase rows"
  shows "fair_rows phase (give k rows)"
  unfolding fair_rows_def
proof (intro conjI ballI allI impI)
  fix row assume "row \<in> set (give k rows)"
  then obtain i where i: "i < length rows" "row = give k rows ! i" by (auto simp: in_set_conv_nth)
  with fair have "0 < row_weight (rows ! i) \<and> row_base (rows ! i) \<le> row_granted (rows ! i)"
    by (simp add: fair_rows_def)
  with i show "0 < row_weight row" "row_base row \<le> row_granted row"
    by (auto simp: nth_give)
next
  fix i j assume i: "i < length (give k rows)" and j: "j < length (give k rows)"
    and want: "wants phase (give k rows ! i)"
  then have il: "i < length rows" and jl: "j < length rows" by simp_all
  have wi: "wants phase (rows ! i)"
    using want il by (auto simp: nth_give wants_def split: if_splits)
  have wk: "row_base (rows ! k) \<le> row_granted (rows ! k)"
    using fair k(2) by (auto simp: fair_rows_def)
  have tk: "taken (give k rows ! k) = Suc (taken (rows ! k))"
    using wk k(2) by (simp add: nth_give taken_def)
  have old: "taken (rows ! j) * row_weight (rows ! i) \<le> Suc (taken (rows ! i)) * row_weight (rows ! j)"
    using fair il jl wi by (simp add: fair_rows_def)
  have w: "row_weight (give k rows ! x) = row_weight (rows ! x)" if "x < length rows" for x
    using that by (simp add: nth_give)
  have t: "taken (give k rows ! x) = taken (rows ! x)" if "x < length rows" "x \<noteq> k" for x
    using that by (simp add: nth_give)
  show "taken (give k rows ! j) * row_weight (give k rows ! i)
      \<le> Suc (taken (give k rows ! i)) * row_weight (give k rows ! j)"
  proof (cases "j = k")
    case True
    then show ?thesis
      using popped_least [OF ok pop k(1) fair il wi] tk w [OF il] w [OF k(2)] t [OF il]
      by (cases "i = k") auto
  next
    case False
    then show ?thesis
      using old tk w [OF il] w [OF jl] t [OF il] t [OF jl]
      by (cases "i = k") auto
  qed
qed

lemma fill_fair:
  assumes fill: "fill rows n phase = (rows', n')"
    and pos: "\<forall>row \<in> set rows. 0 < row_weight row"
    and i: "i < length rows" "row_granted (rows' ! i) < Phase_limit phase (rows ! i)"
    and j: "j < length rows"
  shows "(row_granted (rows' ! j) - row_granted (rows ! j)) * row_weight (rows ! i)
     \<le> Suc (row_granted (rows' ! i) - row_granted (rows ! i)) * row_weight (rows ! j)"
proof (cases "n = 0")
  case True
  with fill show ?thesis by (simp add: fill_def)
next
  case False
  let ?b = "map (\<lambda>row. row\<lparr>row_base := row_granted row\<rparr>) rows"
  let ?P = "\<lambda>rs. fair_rows phase rs \<and> grew_to phase rows rs \<and> map row_base rs = map row_granted rows"
  have start: "?P ?b"
    using pos by (auto simp: fair_rows_def taken_def grew_to_def comp_def)
  have "?P (fst (fill_loop phase n ?b (fill_queue phase ?b)))"
    using queue_ok_fill_queue start
  proof (rule fill_loop_induct)
    fix rs q nx q' k
    assume h: "queue_ok phase rs q" "pop_min Next_le q = Some (nx, q')" "k = next_index nx"
      "k < length rs" "wants phase (rs ! k)" "?P rs"
    have "map row_base (give k rs) = map row_base rs"
      using h(4) by (simp add: give_def map_update list_update_same_conv)
    with h show "?P (give k rs)"
      using fair_rows_give [OF h(1-5)] grew_to_give [of phase rows rs k] by auto
  qed
  with fill False have fair: "fair_rows phase rows'" and grew: "grew_to phase rows rows'"
    and base: "map row_base rows' = map row_granted rows"
    by (auto simp: fill_def Let_def)
  have len: "length rows' = length rows" using grew by (simp add: grew_to_def)
  have b: "row_base (rows' ! x) = row_granted (rows ! x)" if "x < length rows" for x
    using base that len by (metis nth_map)
  have frame: "rows' ! x = (rows ! x)\<lparr>row_granted := row_granted (rows' ! x), row_base := row_base (rows' ! x)\<rparr>"
    if "x < length rows" for x
    using grew that by (simp add: grew_to_def)
  have w: "row_weight (rows' ! x) = row_weight (rows ! x)" if "x < length rows" for x
    by (subst frame [OF that]) simp
  have lim: "Phase_limit phase (rows' ! i) = Phase_limit phase (rows ! i)"
    by (subst frame [OF i(1)]) simp
  show ?thesis
    using fair i j len unfolding fair_rows_def wants_def taken_def
    by (metis b w lim)
qed

section \<open>The three fillings together\<close>

definition row_limit :: "Row \<Rightarrow> nat" where
  "row_limit row = max (row_ceiling row) (row_kept row)"

text \<open>The parts of a row no filling writes.\<close>

definition same_rows :: "Row list \<Rightarrow> Row list \<Rightarrow> bool" where
  "same_rows rows rows' \<longleftrightarrow> length rows' = length rows \<and>
     (\<forall>i < length rows. row_guarantee (rows' ! i) = row_guarantee (rows ! i)
        \<and> row_ceiling (rows' ! i) = row_ceiling (rows ! i) \<and> row_kept (rows' ! i) = row_kept (rows ! i)
        \<and> row_weight (rows' ! i) = row_weight (rows ! i))"

lemma grew_to_same_rows:
  assumes "grew_to phase rows rows'"
  shows "same_rows rows rows'"
  unfolding same_rows_def
proof (intro conjI allI impI)
  show "length rows' = length rows" using assms by (simp add: grew_to_def)
next
  fix i assume "i < length rows"
  with assms have f: "rows' ! i = (rows ! i)\<lparr>row_granted := row_granted (rows' ! i), row_base := row_base (rows' ! i)\<rparr>"
    by (simp add: grew_to_def)
  show "row_guarantee (rows' ! i) = row_guarantee (rows ! i)" by (subst f) simp
  show "row_ceiling (rows' ! i) = row_ceiling (rows ! i)" by (subst f) simp
  show "row_kept (rows' ! i) = row_kept (rows ! i)" by (subst f) simp
  show "row_weight (rows' ! i) = row_weight (rows ! i)" by (subst f) simp
qed

lemma same_rows_trans: "same_rows a b \<Longrightarrow> same_rows b c \<Longrightarrow> same_rows a c"
  by (simp add: same_rows_def)

lemma fill_guarantee:
  assumes fill: "fill rows budget Guarantee = (rows', n')"
    and zero: "\<forall>row \<in> set rows. row_granted row = 0"
    and fits: "(\<Sum>row \<leftarrow> rows. row_guarantee row) \<le> budget"
    and i: "i < length rows"
  shows "row_granted (rows' ! i) = row_guarantee (rows ! i)"
proof -
  note spec = fill_spec [OF fill]
  have z: "row_granted (rows ! x) = 0" if "x < length rows" for x using zero that by simp
  have len: "length rows' = length rows" using spec(1) by (simp add: grew_to_def)
  have le: "row_granted (rows' ! x) \<le> row_guarantee (rows ! x)" if "x < length rows" for x
    using spec(1) that z [OF that] by (auto simp: grew_to_def)
  show ?thesis
  proof (cases "n' = 0")
    case True
    have "granted_sum rows = 0" using zero by (simp add: sum_list_eq_0_iff)
    with spec(2) True have total: "granted_sum rows' = budget" by simp
    let ?is = "[0..<length rows]"
    have sums: "granted_sum rows' = (\<Sum>x \<leftarrow> ?is. row_granted (rows' ! x))"
      "(\<Sum>row \<leftarrow> rows. row_guarantee row) = (\<Sum>x \<leftarrow> ?is. row_guarantee (rows ! x))"
      by (simp_all add: sum_list_nth_conv [of _ rows'] sum_list_nth_conv [of _ rows] len)
    show ?thesis
      by (rule sum_le_eq_pointwise [where xs = ?is])
        (use le fits total sums i in auto)
  next
    case False
    with spec(3) le i show ?thesis by (force intro: antisym)
  qed
qed

lemma fill_phases_split:
  assumes "fill_phases rows budget = (rows', rest)"
  obtains r1 n1 r2 n2 where "fill rows budget Guarantee = (r1, n1)" "fill r1 n1 Demand = (r2, n2)"
    "fill r2 n2 Retention = (rows', rest)"
  using assms by (auto simp: fill_phases_def Let_def split: prod.splits)

lemma fill_phases_spec:
  assumes run: "fill_phases rows budget = (rows', rest)"
    and zero: "\<forall>row \<in> set rows. row_granted row = 0"
    and guar: "\<forall>row \<in> set rows. row_guarantee row \<le> row_ceiling row"
  shows "same_rows rows rows'"
    and "granted_sum rows' + rest = budget"
    and "\<forall>i < length rows. row_granted (rows' ! i) \<le> row_limit (rows ! i)"
    and "rest = 0 \<or> (\<forall>i < length rows. row_limit (rows ! i) \<le> row_granted (rows' ! i))"
    and "(\<Sum>row \<leftarrow> rows. row_guarantee row) \<le> budget \<Longrightarrow>
           \<forall>i < length rows. row_guarantee (rows ! i) \<le> row_granted (rows' ! i)"
proof -
  obtain r1 n1 r2 n2 where f1: "fill rows budget Guarantee = (r1, n1)"
    and f2: "fill r1 n1 Demand = (r2, n2)" and f3: "fill r2 n2 Retention = (rows', rest)"
    using run by (rule fill_phases_split)
  note s1 = fill_spec [OF f1] and s2 = fill_spec [OF f2] and s3 = fill_spec [OF f3]
  have same1: "same_rows rows r1" and same2: "same_rows r1 r2" and same3: "same_rows r2 rows'"
    using s1(1) s2(1) s3(1) by (simp_all add: grew_to_same_rows)
  show "same_rows rows rows'"
    using same1 same2 same3 by (blast intro: same_rows_trans)
  have "granted_sum rows = 0" using zero by (simp add: sum_list_eq_0_iff)
  with s1(2) s2(2) s3(2) show "granted_sum rows' + rest = budget" by simp
  have len: "length r1 = length rows" "length r2 = length rows"
    using same1 same2 by (auto simp: same_rows_def)
  have lims: "row_guarantee (rows ! i) \<le> row_ceiling (rows ! i)"
    "row_ceiling (r1 ! i) = row_ceiling (rows ! i)" "row_kept (r2 ! i) = row_kept (rows ! i)"
    if "i < length rows" for i
    using that guar same1 same2 len by (auto simp: same_rows_def)
  have grow: "row_granted (rows ! i) = 0" "row_granted (r1 ! i) \<le> row_guarantee (rows ! i)"
    "row_granted (r1 ! i) \<le> row_granted (r2 ! i)"
    "row_granted (r2 ! i) \<le> max (row_granted (r1 ! i)) (row_ceiling (rows ! i))"
    "row_granted (r2 ! i) \<le> row_granted (rows' ! i)"
    "row_granted (rows' ! i) \<le> max (row_granted (r2 ! i)) (row_kept (rows ! i))"
    if "i < length rows" for i
    using that zero s1(1) s2(1) s3(1) len lims [OF that] by (auto simp: grew_to_def)
  show "\<forall>i < length rows. row_granted (rows' ! i) \<le> row_limit (rows ! i)"
    using grow lims(1) by (fastforce simp: row_limit_def)
  show "rest = 0 \<or> (\<forall>i < length rows. row_limit (rows ! i) \<le> row_granted (rows' ! i))"
  proof (cases "rest = 0")
    case False
    then have n2: "n2 \<noteq> 0" using f3 by (cases "n2 = 0") (auto simp: fill_def)
    have kept: "\<forall>i < length rows. row_kept (rows ! i) \<le> row_granted (rows' ! i)"
      using False s3(3) lims(3) len by auto
    from n2 s2(3) have "\<forall>i < length rows. row_ceiling (rows ! i) \<le> row_granted (r2 ! i)"
      using lims(2) len by auto
    with kept grow(5) show ?thesis by (fastforce simp: row_limit_def)
  qed simp
  show "\<forall>i < length rows. row_guarantee (rows ! i) \<le> row_granted (rows' ! i)"
    if "(\<Sum>row \<leftarrow> rows. row_guarantee row) \<le> budget"
    using fill_guarantee [OF f1 zero that] grow(3,5) by (metis le_trans)
qed

section \<open>From rows to grants\<close>

lemma gather_sums:
  "gather ps (m, t, u) = (m', t', u') \<Longrightarrow>
     t' = t + (\<Sum>(row, _) \<leftarrow> ps. row_granted row)
     \<and> u' = u + (\<Sum>(row, _) \<leftarrow> ps. row_guarantee row - row_granted row)"
  by (induction ps "(m, t, u)" arbitrary: m t u rule: gather.induct)
    (auto simp: Let_def split: if_splits)

lemma gather_wf:
  "gather ps (m, t, u) = (m', t', u') \<Longrightarrow> bt_wf m \<Longrightarrow> bt_wf m'"
  by (induction ps "(m, t, u)" arbitrary: m t u rule: gather.induct)
    (auto simp: Let_def split: if_splits)

lemma gather_other:
  "gather ps (m, t, u) = (m', t', u') \<Longrightarrow> \<forall>(_, c) \<in> set ps. claim_key c \<noteq> k \<Longrightarrow> bt_get m' k = bt_get m k"
  by (induction ps "(m, t, u)" arbitrary: m t u rule: gather.induct)
    (auto simp: Let_def split: if_splits)

lemma gather_get:
  assumes "gather ps (m, t, u) = (m', t', u')" "distinct (map (claim_key \<circ> snd) ps)"
    and "(row, c) \<in> set ps" "bt_get m (claim_key c) = None"
  shows "bt_get_or 0 m' (claim_key c) = row_granted row"
  using assms
proof (induction ps "(m, t, u)" arbitrary: m t u rule: gather.induct)
  case (2 row1 c1 rest granted tot unmet)
  show ?case
  proof (cases "(row, c) = (row1, c1)")
    case True
    then have other: "\<forall>(_, c') \<in> set rest. claim_key c' \<noteq> claim_key c"
      using "2.prems"(2) by (force simp: image_iff)
    from 2 True gather_other [OF _ other] show ?thesis
      by (fastforce simp: Let_def bt_get_or_def split: if_splits)
  next
    case False
    with "2.prems" have mem: "(row, c) \<in> set rest" by auto
    then have ne: "claim_key c \<noteq> claim_key c1"
      using "2.prems"(2) by (force simp: image_iff)
    show ?thesis
    proof (cases "row_granted row1 > 0")
      case True
      with "2.hyps"(1) [OF refl True _ _ mem] "2.prems" ne show ?thesis by (simp add: Let_def)
    next
      case g0: False
      with "2.hyps"(2) [OF refl g0 _ _ mem] "2.prems" ne show ?thesis by (simp add: Let_def)
    qed
  qed
qed simp

definition first_rows :: "nat \<Rightarrow> ('k::linorder) Claim list \<Rightarrow> Row list" where
  "first_rows release claims = map (Row_of_claim release) (sort_key claim_key claims)"

definition final_rows :: "nat \<Rightarrow> nat \<Rightarrow> ('k::linorder) Claim list \<Rightarrow> Row list" where
  "final_rows release budget claims = fst (fill_phases (first_rows release claims) budget)"

lemma first_rows_start:
  "\<forall>row \<in> set (first_rows release claims). row_granted row = 0"
  "\<forall>row \<in> set (first_rows release claims). row_guarantee row \<le> row_ceiling row"
  by (auto simp: first_rows_def Row_of_claim_def Claim_guarantee_def)

lemma length_first_rows [simp]: "length (first_rows release claims) = length claims"
  by (simp add: first_rows_def)

lemma first_rows_nth:
  "i < length claims \<Longrightarrow> first_rows release claims ! i = Row_of_claim release (sort_key claim_key claims ! i)"
  by (simp add: first_rows_def)

lemma first_rows_sums:
  "(\<Sum>row \<leftarrow> first_rows release claims. row_guarantee row) = (\<Sum>c \<leftarrow> claims. Claim_guarantee c)"
  "(\<Sum>row \<leftarrow> first_rows release claims. row_limit row)
     = (\<Sum>c \<leftarrow> claims. max (Claim_ceiling c) (Claim_kept c release))"
  by (simp_all add: first_rows_def comp_def Row_of_claim_def row_limit_def sum_list_sort_key)

lemma final_rows_run:
  obtains rest where "fill_phases (first_rows release claims) budget = (final_rows release budget claims, rest)"
  by (metis final_rows_def prod.collapse)

lemma same_rows_final: "same_rows (first_rows release claims) (final_rows release budget claims)"
  using final_rows_run fill_phases_spec(1) first_rows_start by metis

lemma length_final_rows [simp]: "length (final_rows release budget claims) = length claims"
  using same_rows_final [of release claims budget] by (simp add: same_rows_def)

lemma allocate_parts:
  fixes claims :: "('k::linorder) Claim list"
  obtains m t u where
    "gather (zip (final_rows release budget claims) (sort_key claim_key claims)) ([], 0, 0) = (m, t, u)"
    "allocate release budget claims
      = \<lparr>grants_granted = m, grants_total = t, grants_unmet_guarantee = clamp32 u\<rparr>"
proof -
  obtain m t u where
    g: "gather (zip (final_rows release budget claims) (sort_key claim_key claims)) ([], 0, 0) = (m, t, u)"
    by (metis prod_cases3)
  then have "allocate release budget claims
      = \<lparr>grants_granted = m, grants_total = t, grants_unmet_guarantee = clamp32 u\<rparr>"
    by (simp add: allocate_def final_rows_def first_rows_def case_prod_unfold)
  with g show thesis by (rule that)
qed

lemma Grants_get_nth:
  fixes claims :: "('k::linorder) Claim list"
  assumes dist: "distinct (map claim_key claims)" and i: "i < length claims"
  shows "Grants_get (allocate release budget claims) (claim_key (sort_key claim_key claims ! i))
     = row_granted (final_rows release budget claims ! i)"
proof -
  let ?rows = "final_rows release budget claims" and ?order = "sort_key claim_key claims"
  obtain m t u where g: "gather (zip ?rows ?order) ([], 0, 0) = (m, t, u)"
    and alloc: "allocate release budget claims
      = \<lparr>grants_granted = m, grants_total = t, grants_unmet_guarantee = clamp32 u\<rparr>"
    by (rule allocate_parts)
  have "map (claim_key \<circ> snd) (zip ?rows ?order) = map claim_key (map snd (zip ?rows ?order))"
    by (simp only: map_map)
  also have "\<dots> = map claim_key ?order" by (simp only: map_snd_zip length_final_rows length_sort)
  finally have keys: "distinct (map (claim_key \<circ> snd) (zip ?rows ?order))"
    using dist by (simp add: distinct_map)
  have "(?rows ! i, ?order ! i) \<in> set (zip ?rows ?order)"
    using i by (auto simp: in_set_zip)
  from gather_get [OF g keys this] show ?thesis by (simp add: Grants_get_def alloc)
qed

lemma Grants_get_other:
  fixes claims :: "('k::linorder) Claim list"
  assumes "k \<notin> claim_key ` set claims"
  shows "Grants_get (allocate release budget claims) k = 0"
proof -
  let ?rows = "final_rows release budget claims" and ?order = "sort_key claim_key claims"
  obtain m t u where g: "gather (zip ?rows ?order) ([], 0, 0) = (m, t, u)"
    and alloc: "allocate release budget claims
      = \<lparr>grants_granted = m, grants_total = t, grants_unmet_guarantee = clamp32 u\<rparr>"
    by (rule allocate_parts)
  have "\<forall>(_, c) \<in> set (zip ?rows ?order). claim_key c \<noteq> k"
    using assms by (auto dest: set_zip_rightD)
  from gather_other [OF g this] show ?thesis by (simp add: Grants_get_def alloc bt_get_or_def)
qed

lemma allocate_sums:
  fixes claims :: "('k::linorder) Claim list"
  shows "grants_total (allocate release budget claims) = granted_sum (final_rows release budget claims)"
    and "grants_unmet_guarantee (allocate release budget claims)
      = clamp32 (\<Sum>row \<leftarrow> final_rows release budget claims. row_guarantee row - row_granted row)"
proof -
  let ?rows = "final_rows release budget claims" and ?order = "sort_key claim_key claims"
  obtain m t u where g: "gather (zip ?rows ?order) ([], 0, 0) = (m, t, u)"
    and alloc: "allocate release budget claims
      = \<lparr>grants_granted = m, grants_total = t, grants_unmet_guarantee = clamp32 u\<rparr>"
    by (rule allocate_parts)
  have fsts: "(\<Sum>(row, _) \<leftarrow> zip ?rows ?order. f row) = (\<Sum>row \<leftarrow> ?rows. f row)" for f :: "Row \<Rightarrow> nat"
  proof -
    have "map (\<lambda>(row, _). f row) (zip ?rows ?order) = map f (map fst (zip ?rows ?order))"
      by (simp only: map_map comp_def case_prod_unfold)
    then show ?thesis by simp
  qed
  from gather_sums [OF g] show "grants_total (allocate release budget claims) = granted_sum ?rows"
    and "grants_unmet_guarantee (allocate release budget claims)
      = clamp32 (\<Sum>row \<leftarrow> ?rows. row_guarantee row - row_granted row)"
    by (simp_all add: alloc fsts)
qed

lemma claim_index:
  assumes "c \<in> set claims"
  obtains i where "i < length claims" "sort_key claim_key claims ! i = c"
  using assms by (metis in_set_conv_nth length_sort set_sort)

lemma sum_get_final:
  assumes "distinct (map claim_key claims)"
  shows "(\<Sum>c \<leftarrow> claims. Grants_get (allocate release budget claims) (claim_key c))
     = granted_sum (final_rows release budget claims)"
proof -
  let ?get = "\<lambda>c. Grants_get (allocate release budget claims) (claim_key c)"
  let ?order = "sort_key claim_key claims"
  have "(\<Sum>c \<leftarrow> claims. ?get c) = (\<Sum>i \<leftarrow> [0..<length ?order]. ?get (?order ! i))"
    by (simp only: sum_list_sort_key sum_list_nth_conv [of ?get ?order, symmetric])
  also have "\<dots> = (\<Sum>i \<leftarrow> [0..<length (final_rows release budget claims)].
      row_granted (final_rows release budget claims ! i))"
    using Grants_get_nth [OF assms] by (intro arg_cong [of _ _ sum_list]) simp
  finally show ?thesis by (simp only: sum_list_nth_conv [of row_granted])
qed

lemma final_rows_limits:
  "granted_sum (final_rows release budget claims)
     = min budget (\<Sum>c \<leftarrow> claims. max (Claim_ceiling c) (Claim_kept c release))"
proof -
  let ?init = "first_rows release claims" and ?rows = "final_rows release budget claims"
  obtain rest where run: "fill_phases ?init budget = (?rows, rest)" by (rule final_rows_run)
  note spec = fill_phases_spec [OF run first_rows_start]
  let ?is = "[0..<length claims]"
  have lim: "(\<Sum>c \<leftarrow> claims. max (Claim_ceiling c) (Claim_kept c release)) = (\<Sum>i \<leftarrow> ?is. row_limit (?init ! i))"
    by (simp only: first_rows_sums(2) [symmetric] sum_list_nth_conv [of row_limit] length_first_rows)
  have gs: "granted_sum ?rows = (\<Sum>i \<leftarrow> ?is. row_granted (?rows ! i))"
    by (simp only: sum_list_nth_conv [of row_granted] length_final_rows)
  have "granted_sum ?rows \<le> (\<Sum>c \<leftarrow> claims. max (Claim_ceiling c) (Claim_kept c release))"
    unfolding gs lim using spec(3) by (intro sum_list_map_mono) simp
  moreover have "rest = 0 \<or> (\<Sum>c \<leftarrow> claims. max (Claim_ceiling c) (Claim_kept c release)) \<le> granted_sum ?rows"
    unfolding gs lim using spec(4) by (auto intro: sum_list_map_mono)
  ultimately show ?thesis using spec(2) by linarith
qed

section \<open>Properties of an allocation\<close>

text \<open>
  C27: An allocation is work conserving and never spends more than the budget: the total it grants
  is the smaller of the budget and of what the claims together may still use (their capped demand,
  or the slots they are not yet allowed to give up), and the total is the sum of the grants.
\<close>

theorem allocate_work_conserving:
  assumes "distinct (map claim_key claims)"
  shows "grants_total (allocate release budget claims)
      = min budget (\<Sum>c \<leftarrow> claims. max (Claim_ceiling c) (Claim_kept c release))
     \<and> (\<Sum>c \<leftarrow> claims. Grants_get (allocate release budget claims) (claim_key c))
      = grants_total (allocate release budget claims)"
  using assms by (simp_all add: allocate_sums final_rows_limits sum_get_final)

theorem allocate_work_conserving_witness:
  "grants_total (allocate 1 100
     [\<lparr>claim_key = ''web'', claim_min = 30, claim_max = 100, claim_weight = 1, claim_demand = 60,
        claim_current = 0, claim_may_release = True\<rparr>,
      \<lparr>claim_key = ''worker'', claim_min = 10, claim_max = 100, claim_weight = 1, claim_demand = 90,
        claim_current = 0, claim_may_release = True\<rparr>]) = 100"
  by (subst allocate_work_conserving [THEN conjunct1]) (simp_all add: Claim_ceiling_def Claim_kept_def)

text \<open>
  No claim is granted more than it may use: a grant stays within the claim's capped demand or
  the slots it may not give up yet, and so within the tenant's maximum.
\<close>

theorem allocate_within_max:
  assumes "distinct (map claim_key claims)" "c \<in> set claims"
  shows "Grants_get (allocate release budget claims) (claim_key c) \<le> max (Claim_ceiling c) (Claim_kept c release)
     \<and> Grants_get (allocate release budget claims) (claim_key c) \<le> claim_max c"
proof -
  obtain i where i: "i < length claims" "sort_key claim_key claims ! i = c"
    using assms(2) by (rule claim_index)
  obtain rest where run: "fill_phases (first_rows release claims) budget = (final_rows release budget claims, rest)"
    by (rule final_rows_run)
  have "row_granted (final_rows release budget claims ! i) \<le> row_limit (first_rows release claims ! i)"
    using fill_phases_spec(3) [OF run first_rows_start] i(1) by simp
  with Grants_get_nth [OF assms(1) i(1)] i have "Grants_get (allocate release budget claims) (claim_key c)
      \<le> max (Claim_ceiling c) (Claim_kept c release)"
    by (simp add: first_rows_nth Row_of_claim_def row_limit_def)
  then show ?thesis
    by (auto simp: Claim_ceiling_def Claim_kept_def Let_def split: if_splits)
qed

theorem allocate_within_max_witness:
  "Grants_get (allocate 1 50
     [\<lparr>claim_key = ''app'', claim_min = 0, claim_max = 7, claim_weight = 1, claim_demand = 40,
        claim_current = 9, claim_may_release = False\<rparr>]) ''app'' \<le> 7"
  using allocate_within_max [of "[\<lparr>claim_key = ''app'', claim_min = 0, claim_max = 7,
      claim_weight = 1, claim_demand = 40, claim_current = 9, claim_may_release = False\<rparr>]"
      "\<lparr>claim_key = ''app'', claim_min = 0, claim_max = 7, claim_weight = 1, claim_demand = 40,
        claim_current = 9, claim_may_release = False\<rparr>" 1 50] by simp

text \<open>
  C29: The guarantees are met exactly when they fit the budget: an allocation reports no unmet
  guarantee if and only if the guarantees together are at most the budget, and then every claim is
  granted at least its guarantee.
\<close>

theorem allocate_guarantees:
  assumes "distinct (map claim_key claims)"
  shows "(Grants_guarantees_met (allocate release budget claims) \<longleftrightarrow> (\<Sum>c \<leftarrow> claims. Claim_guarantee c) \<le> budget)
     \<and> ((\<Sum>c \<leftarrow> claims. Claim_guarantee c) \<le> budget \<longrightarrow>
          (\<forall>c \<in> set claims. Claim_guarantee c \<le> Grants_get (allocate release budget claims) (claim_key c)))"
proof -
  let ?init = "first_rows release claims" and ?rows = "final_rows release budget claims"
  obtain rest where run: "fill_phases ?init budget = (?rows, rest)" by (rule final_rows_run)
  note spec = fill_phases_spec [OF run first_rows_start]
  have g: "row_guarantee (?rows ! i) = row_guarantee (?init ! i)" if "i < length claims" for i
    using spec(1) that by (simp add: same_rows_def)
  have gsum: "(\<Sum>row \<leftarrow> ?rows. row_guarantee row) = (\<Sum>c \<leftarrow> claims. Claim_guarantee c)"
    unfolding first_rows_sums(1) [of release, symmetric] sum_list_nth_conv [of row_guarantee ?rows]
      sum_list_nth_conv [of row_guarantee ?init]
    using g by (intro arg_cong [of _ _ sum_list]) simp
  have met: "Claim_guarantee c \<le> Grants_get (allocate release budget claims) (claim_key c)"
    if fits: "(\<Sum>c \<leftarrow> claims. Claim_guarantee c) \<le> budget" and mem: "c \<in> set claims" for c
  proof -
    obtain i where i: "i < length claims" "sort_key claim_key claims ! i = c"
      using mem by (rule claim_index)
    from spec(5) fits i(1) have "row_guarantee (?init ! i) \<le> row_granted (?rows ! i)"
      by (simp add: first_rows_sums)
    with Grants_get_nth [OF assms i(1), of release budget] i show ?thesis
      by (simp add: first_rows_nth Row_of_claim_def)
  qed
  have unmet0: "Grants_guarantees_met (allocate release budget claims)
      \<longleftrightarrow> (\<forall>row \<in> set ?rows. row_guarantee row \<le> row_granted row)"
    by (simp add: Grants_guarantees_met_def allocate_sums sum_list_eq_0_iff)
  have "(\<Sum>c \<leftarrow> claims. Claim_guarantee c) \<le> budget" if "Grants_guarantees_met (allocate release budget claims)"
  proof -
    have "(\<Sum>row \<leftarrow> ?rows. row_guarantee row) \<le> granted_sum ?rows"
      using that unmet0 by (intro sum_list_map_mono) simp
    with gsum spec(2) show ?thesis by simp
  qed
  moreover have "Grants_guarantees_met (allocate release budget claims)"
    if fits: "(\<Sum>c \<leftarrow> claims. Claim_guarantee c) \<le> budget"
    using spec(5) fits g unfolding unmet0 by (auto simp: first_rows_sums in_set_conv_nth)
  ultimately show ?thesis using met by blast
qed

theorem allocate_guarantees_witness:
  "Grants_guarantees_met (allocate 1 5
     [\<lparr>claim_key = ''a'', claim_min = 2, claim_max = 9, claim_weight = 1, claim_demand = 9,
        claim_current = 0, claim_may_release = True\<rparr>,
      \<lparr>claim_key = ''b'', claim_min = 3, claim_max = 9, claim_weight = 5, claim_demand = 9,
        claim_current = 0, claim_may_release = True\<rparr>])"
  by (subst allocate_guarantees [THEN conjunct1]) (simp_all add: Claim_guarantee_def Claim_ceiling_def)

text \<open>
  C28: The allocation is weighted max-min fair. When the guarantees fit the budget, a claim whose
  demand is not met is not behind any other claim: what another claim was granted beyond its
  guarantee, relative to its weight, is at most what the unmet claim would have with one slot more.
\<close>

theorem allocate_fair:
  assumes "distinct (map claim_key claims)" "\<forall>c \<in> set claims. 0 < claim_weight c"
    and "(\<Sum>c \<leftarrow> claims. Claim_guarantee c) \<le> budget"
    and "unmet \<in> set claims" "other \<in> set claims"
    and "Grants_get (allocate release budget claims) (claim_key unmet) < Claim_ceiling unmet"
  shows "(Grants_get (allocate release budget claims) (claim_key other) - Claim_guarantee other) * claim_weight unmet
     \<le> Suc (Grants_get (allocate release budget claims) (claim_key unmet) - Claim_guarantee unmet) * claim_weight other"
proof -
  let ?init = "first_rows release claims" and ?rows = "final_rows release budget claims"
  obtain i where i: "i < length claims" "sort_key claim_key claims ! i = unmet"
    using assms(4) by (rule claim_index)
  obtain j where j: "j < length claims" "sort_key claim_key claims ! j = other"
    using assms(5) by (rule claim_index)
  obtain rest where run: "fill_phases ?init budget = (?rows, rest)" by (rule final_rows_run)
  obtain r1 n1 r2 n2 where f1: "fill ?init budget Guarantee = (r1, n1)"
    and f2: "fill r1 n1 Demand = (r2, n2)" and f3: "fill r2 n2 Retention = (?rows, rest)"
    using run by (rule fill_phases_split)
  have same1: "same_rows ?init r1" using fill_spec(1) [OF f1] by (rule grew_to_same_rows)
  have same2: "same_rows r1 r2" using fill_spec(1) [OF f2] by (rule grew_to_same_rows)
  have len: "length r1 = length claims" "length r2 = length claims"
    using same1 same2 by (simp_all add: same_rows_def)
  have row: "row_granted (r1 ! x) = Claim_guarantee (sort_key claim_key claims ! x)"
    "row_ceiling (r1 ! x) = Claim_ceiling (sort_key claim_key claims ! x)"
    "row_weight (r1 ! x) = claim_weight (sort_key claim_key claims ! x)"
    if x: "x < length claims" for x
    using x same1 fill_guarantee [OF f1 first_rows_start(1) _, of x] assms(3)
    by (simp_all add: first_rows_sums first_rows_nth same_rows_def Row_of_claim_def)
  have pos: "\<forall>row \<in> set r1. 0 < row_weight row"
    using assms(2) row(3) len(1) by (metis in_set_conv_nth length_sort set_sort)
  have n2: "n2 = 0"
  proof (rule ccontr)
    assume "n2 \<noteq> 0"
    then have "row_ceiling (r1 ! i) \<le> row_granted (r2 ! i)"
      using fill_spec(3) [OF f2] len i by auto
    also have "\<dots> \<le> row_granted (?rows ! i)"
      using fill_spec(1) [OF f3] len i by (simp add: grew_to_def)
    finally show False
      using assms(6) row(2) [OF i(1)] Grants_get_nth [OF assms(1) i(1), of release budget] i by simp
  qed
  then have r2: "r2 = ?rows" using f3 by (simp add: fill_def)
  have get: "Grants_get (allocate release budget claims) (claim_key (sort_key claim_key claims ! x))
      = row_granted (r2 ! x)" if "x < length claims" for x
    using Grants_get_nth [OF assms(1) that] r2 by simp
  show ?thesis
    using fill_fair [OF f2 pos, of i j] assms(6) i j len row get [OF i(1)] get [OF j(1)] by simp
qed

theorem allocate_fair_witness:
  "(Grants_get (allocate 1 9
      [\<lparr>claim_key = (1::nat), claim_min = 1, claim_max = 20, claim_weight = 1, claim_demand = 20,
         claim_current = 0, claim_may_release = True\<rparr>,
       \<lparr>claim_key = 2, claim_min = 0, claim_max = 20, claim_weight = 3, claim_demand = 20,
         claim_current = 0, claim_may_release = True\<rparr>]) 2 - 0) * 1
    \<le> Suc (Grants_get (allocate 1 9
      [\<lparr>claim_key = (1::nat), claim_min = 1, claim_max = 20, claim_weight = 1, claim_demand = 20,
         claim_current = 0, claim_may_release = True\<rparr>,
       \<lparr>claim_key = 2, claim_min = 0, claim_max = 20, claim_weight = 3, claim_demand = 20,
         claim_current = 0, claim_may_release = True\<rparr>]) 1 - 1) * 3"
proof -
  let ?a = "\<lparr>claim_key = (1::nat), claim_min = 1, claim_max = 20, claim_weight = 1, claim_demand = 20,
         claim_current = 0, claim_may_release = True\<rparr>"
  let ?b = "\<lparr>claim_key = (2::nat), claim_min = 0, claim_max = 20, claim_weight = 3, claim_demand = 20,
         claim_current = 0, claim_may_release = True\<rparr>"
  have get: "Grants_get (allocate 1 9 [?a, ?b]) 1 = 3" by code_simp
  show ?thesis
    using allocate_fair [of "[?a, ?b]" 9 ?a ?b 1] get
    by (simp add: Claim_guarantee_def Claim_ceiling_def)
qed

text \<open>
  The allocation does not depend on the order the claims are listed in.
\<close>

theorem allocate_order_independent:
  assumes "mset claims = mset claims'" "distinct (map claim_key claims)"
  shows "allocate release budget claims = allocate release budget claims'"
proof -
  have "sort_key claim_key claims = sort_key claim_key claims'"
    using assms by (intro sort_key_cong_mset) (simp_all add: distinct_map)
  then show ?thesis by (simp add: allocate_def)
qed

theorem allocate_order_independent_witness:
  "allocate 1 4
     [\<lparr>claim_key = (2::nat), claim_min = 0, claim_max = 9, claim_weight = 1, claim_demand = 9,
        claim_current = 0, claim_may_release = True\<rparr>,
      \<lparr>claim_key = 1, claim_min = 0, claim_max = 9, claim_weight = 1, claim_demand = 9,
        claim_current = 0, claim_may_release = True\<rparr>]
   = allocate 1 4
     [\<lparr>claim_key = 1, claim_min = 0, claim_max = 9, claim_weight = 1, claim_demand = 9,
        claim_current = 0, claim_may_release = True\<rparr>,
      \<lparr>claim_key = 2, claim_min = 0, claim_max = 9, claim_weight = 1, claim_demand = 9,
        claim_current = 0, claim_may_release = True\<rparr>]"
  by (rule allocate_order_independent) simp_all

section \<open>The allocator interface\<close>

text \<open>
  What the coordinator relies on from an \<open>Allocator\<close>: the grants of one call never add up to more
  than the budget, and a key without a claim is granted nothing. \<open>WeightedMaxMinFair\<close> is the
  implementation the node is started with.
\<close>

locale slot_allocator =
  fixes alloc :: "nat \<Rightarrow> ('k::linorder) Claim list \<Rightarrow> 'k Grants"
  assumes alloc_le_budget:
      "distinct (map claim_key claims) \<Longrightarrow> (\<Sum>c \<leftarrow> claims. Grants_get (alloc budget claims) (claim_key c)) \<le> budget"
    and alloc_unclaimed: "k \<notin> claim_key ` set claims \<Longrightarrow> Grants_get (alloc budget claims) k = 0"
begin

lemma alloc_sum_keys:
  assumes dist: "distinct (map claim_key claims)" and ks: "distinct ks"
  shows "(\<Sum>k \<leftarrow> ks. Grants_get (alloc budget claims) k) \<le> budget"
proof -
  let ?g = "Grants_get (alloc budget claims)"
  have "(\<Sum>k \<leftarrow> ks. ?g k) = (\<Sum>k \<in> set ks. ?g k)"
    using ks by (rule sum_list_distinct_conv_sum_set)
  also have "\<dots> = (\<Sum>k \<in> set ks \<inter> claim_key ` set claims. ?g k)"
    by (rule sum.mono_neutral_right) (auto simp: alloc_unclaimed)
  also have "\<dots> \<le> (\<Sum>k \<in> set (map claim_key claims). ?g k)"
    by (rule sum_mono2) auto
  also have "\<dots> = (\<Sum>c \<leftarrow> claims. ?g (claim_key c))"
    using sum_list_distinct_conv_sum_set [OF dist, of ?g] by (simp add: comp_def)
  also have "\<dots> \<le> budget" using dist by (rule alloc_le_budget)
  finally show ?thesis .
qed

end

interpretation fair: slot_allocator "allocate release" for release
proof
  fix claims :: "('k::linorder) Claim list" and budget
  assume "distinct (map claim_key claims)"
  then show "(\<Sum>c \<leftarrow> claims. Grants_get (allocate release budget claims) (claim_key c)) \<le> budget"
    by (simp add: sum_get_final final_rows_limits)
qed (rule Grants_get_other)

end
