(* ===== verification/Split.thy ===== *)
theory Split
  imports Prelude
begin

text \<open>
  Splitting a tenant's grant over the proxies that serve it (\<^verbatim>\<open>crates/sched/src/split.rs\<close>): keep
  what is held and still wanted, take from the largest while that is too much, then give to the
  furthest from its demand and last to the furthest from what it may not release yet. The lemmas
  show that both loops level, and the properties that a split spends exactly what it may.
\<close>

section \<open>Definitions\<close>

record 'k Share =
  share_key :: 'k
  share_demand :: nat
  share_current :: nat
  share_may_release :: bool

definition Share_need :: "'k Share \<Rightarrow> nat" where
  "Share_need s =
     (if share_may_release s then share_demand s else max (share_demand s) (share_current s))"

fun first_max_loop :: "nat \<Rightarrow> (nat \<times> nat) option \<Rightarrow> nat list \<Rightarrow> (nat \<times> nat) option" where
  "first_max_loop index best [] = best"
| "first_max_loop index best (value # values) =
     (if value > (case best of None \<Rightarrow> 0 | Some (_, most) \<Rightarrow> most)
      then first_max_loop (Suc index) (Some (index, value)) values
      else first_max_loop (Suc index) best values)"

definition first_max :: "nat list \<Rightarrow> nat option" where
  "first_max values = map_option fst (first_max_loop 0 None values)"

fun shrink_loop :: "nat \<Rightarrow> nat \<Rightarrow> nat list \<Rightarrow> nat list" where
  "shrink_loop granted tot given =
     (if tot > granted
      then case first_max given of
             None \<Rightarrow> given
           | Some most \<Rightarrow> shrink_loop granted (tot - 1) (given[most := given ! most - 1])
      else given)"

definition shortfalls :: "('k Share \<Rightarrow> nat) \<Rightarrow> 'k Share list \<Rightarrow> nat list \<Rightarrow> nat list" where
  "shortfalls wanted order given = map (\<lambda>(share, given). wanted share - given) (zip order given)"

function give_loop :: "nat \<Rightarrow> nat \<Rightarrow> 'k Share list \<Rightarrow> ('k Share \<Rightarrow> nat) \<Rightarrow> nat list \<Rightarrow> nat list" where
  "give_loop granted tot order wanted given =
     (if tot < granted
      then case first_max (shortfalls wanted order given) of
             None \<Rightarrow> given
           | Some furthest \<Rightarrow>
               give_loop granted (tot + 1) order wanted (given[furthest := given ! furthest + 1])
      else given)"
  by pat_completeness auto
termination
  by (relation "measure (\<lambda>(granted, tot, _, _, _). granted - tot)") auto

definition give_up_to :: "nat \<Rightarrow> 'k Share list \<Rightarrow> nat list \<Rightarrow> ('k Share \<Rightarrow> nat) \<Rightarrow> nat list" where
  "give_up_to granted order given wanted = give_loop granted (sum_list given) order wanted given"

definition split_given :: "nat \<Rightarrow> 'k Share list \<Rightarrow> nat list" where
  "split_given granted order =
     (let given = map (\<lambda>share. min (share_current share) (share_demand share)) order;
          given = shrink_loop granted (sum_list given) given;
          given = give_up_to granted order given share_demand
      in give_up_to granted order given Share_need)"

definition split :: "nat \<Rightarrow> ('k::linorder) Share list \<Rightarrow> ('k, nat) btree_map" where
  "split granted shares =
     (let order = sort_key share_key shares
      in bt_collect (zip (map share_key order) (split_given granted order)))"

declare shrink_loop.simps [simp del] give_loop.simps [simp del]

section \<open>The first largest entry\<close>

lemma first_max_loop_spec:
  assumes "\<forall>(i, m) \<in> set_option best. i < length pre \<and> pre ! i = m \<and> 0 < m"
    and "\<forall>x \<in> set pre. x \<le> (case best of None \<Rightarrow> 0 | Some (_, m) \<Rightarrow> m)"
  shows "case first_max_loop (length pre) best xs of
       None \<Rightarrow> \<forall>x \<in> set (pre @ xs). x = 0
     | Some (i, m) \<Rightarrow> i < length (pre @ xs) \<and> (pre @ xs) ! i = m \<and> 0 < m \<and> (\<forall>x \<in> set (pre @ xs). x \<le> m)"
  using assms
proof (induction xs arbitrary: pre best)
  case Nil
  then show ?case by (auto split: option.splits)
next
  case (Cons y ys)
  let ?big = "y > (case best of None \<Rightarrow> 0 | Some (_, most) \<Rightarrow> most)"
  let ?best = "if ?big then Some (length pre, y) else best"
  have pre: "\<forall>(i, m) \<in> set_option ?best. i < length (pre @ [y]) \<and> (pre @ [y]) ! i = m \<and> 0 < m"
    using Cons.prems(1) by (auto simp: nth_append split: option.splits if_splits)
  have le: "\<forall>x \<in> set (pre @ [y]). x \<le> (case ?best of None \<Rightarrow> 0 | Some (_, m) \<Rightarrow> m)"
    using Cons.prems(2) by (fastforce split: option.splits if_splits)
  have "first_max_loop (length pre) best (y # ys) = first_max_loop (length (pre @ [y])) ?best ys"
    by simp
  with Cons.IH [OF pre le] show ?case by (simp only: append_assoc append_Cons append_Nil)
qed

lemma first_max_None: "first_max xs = None \<Longrightarrow> x \<in> set xs \<Longrightarrow> x = 0"
  using first_max_loop_spec [of None "[]" xs] by (auto simp: first_max_def split: option.splits)

lemma first_max_Some:
  assumes "first_max xs = Some i"
  shows "i < length xs" "0 < xs ! i" "\<And>j. j < length xs \<Longrightarrow> xs ! j \<le> xs ! i"
  using first_max_loop_spec [of None "[]" xs] assms
  by (auto simp: first_max_def split: option.splits)

section \<open>Taking from the largest\<close>

lemma sum_list_dec:
  fixes xs :: "nat list"
  assumes "i < length xs" "0 < xs ! i"
  shows "sum_list (xs[i := xs ! i - 1]) = sum_list xs - 1"
proof -
  have "xs ! i \<le> sum_list xs" using assms(1) by (rule sum_list_nth_le)
  then show ?thesis using assms by (simp add: sum_list_update)
qed

lemma shrink_loop_done: "tot \<le> granted \<Longrightarrow> shrink_loop granted tot given = given"
  by (simp add: shrink_loop.simps)

lemma shrink_loop_spec:
  assumes "tot = sum_list given"
  shows "length (shrink_loop granted tot given) = length given
     \<and> sum_list (shrink_loop granted tot given) = min tot granted
     \<and> (\<forall>i < length given. shrink_loop granted tot given ! i \<le> given ! i)"
  using assms
proof (induction granted tot given rule: shrink_loop.induct)
  case (1 granted tot given)
  show ?case
  proof (cases "tot > granted")
    case False
    then show ?thesis using "1.prems" by (simp add: shrink_loop_done)
  next
    case True
    show ?thesis
    proof (cases "first_max given")
      case None
      then have "sum_list given = 0" by (auto simp: sum_list_eq_0_iff dest: first_max_None)
      with True "1.prems" show ?thesis by simp
    next
      case (Some most)
      note m = first_max_Some [OF Some]
      let ?g = "given[most := given ! most - 1]"
      have sum: "tot - 1 = sum_list ?g" using sum_list_dec [OF m(1,2)] "1.prems" by simp
      have eq: "shrink_loop granted tot given = shrink_loop granted (tot - 1) ?g"
        using True Some by (simp add: shrink_loop.simps [of granted tot given])
      have le: "?g ! i \<le> given ! i" if "i < length given" for i
        using that by (cases "i = most") simp_all
      show ?thesis
        using "1.IH" [OF True Some sum] True le unfolding eq
        by (auto intro: order_trans)
    qed
  qed
qed

section \<open>Giving to the furthest\<close>

lemma shortfalls_nth:
  "length order = length given \<Longrightarrow> i < length given \<Longrightarrow>
     shortfalls wanted order given ! i = wanted (order ! i) - given ! i"
  by (simp add: shortfalls_def)

lemma length_shortfalls [simp]: "length (shortfalls wanted order given) = min (length order) (length given)"
  by (simp add: shortfalls_def)

lemma shortfalls_None:
  assumes "first_max (shortfalls wanted order given) = None" "length order = length given" "i < length given"
  shows "wanted (order ! i) \<le> given ! i"
proof -
  have "shortfalls wanted order given ! i \<in> set (shortfalls wanted order given)"
    using assms by (intro nth_mem) simp
  from first_max_None [OF assms(1) this] show ?thesis using assms by (simp add: shortfalls_nth)
qed

lemma shortfalls_Some:
  assumes "first_max (shortfalls wanted order given) = Some i" "length order = length given"
  shows "i < length given" "given ! i < wanted (order ! i)"
proof -
  show i: "i < length given" using first_max_Some(1) [OF assms(1)] assms(2) by simp
  show "given ! i < wanted (order ! i)"
    using first_max_Some(2) [OF assms(1)] assms(2) i by (simp add: shortfalls_nth)
qed

abbreviation reach :: "('k Share \<Rightarrow> nat) \<Rightarrow> 'k Share list \<Rightarrow> nat list \<Rightarrow> nat" where
  "reach wanted order given \<equiv> (\<Sum>i \<leftarrow> [0..<length given]. max (given ! i) (wanted (order ! i)))"

lemma sum_le_reach: "sum_list given \<le> reach wanted order given"
proof -
  have "sum_list given = (\<Sum>i \<leftarrow> [0..<length given]. given ! i)"
    using sum_list_nth_conv [of "\<lambda>x. x" given] by simp
  also have "\<dots> \<le> reach wanted order given" by (rule sum_list_map_mono) simp
  finally show ?thesis .
qed

lemma reach_step:
  assumes "i < length given" "given ! i < wanted (order ! i)"
  shows "reach wanted order (given[i := given ! i + 1]) = reach wanted order given"
  using assms by (intro arg_cong [of _ _ sum_list]) (auto simp: nth_list_update max_def)

lemma reach_met:
  assumes "\<And>i. i < length given \<Longrightarrow> wanted (order ! i) \<le> given ! i"
  shows "reach wanted order given = sum_list given"
proof -
  have "reach wanted order given = (\<Sum>i \<leftarrow> [0..<length given]. given ! i)"
    using assms by (intro arg_cong [of _ _ sum_list]) (auto simp: max_def intro: le_antisym)
  then show ?thesis using sum_list_nth_conv [of "\<lambda>x. x" given] by simp
qed

lemma give_loop_spec:
  assumes "tot = sum_list given" "length order = length given"
  shows "length (give_loop granted tot order wanted given) = length given
     \<and> sum_list (give_loop granted tot order wanted given) = max tot (min granted (reach wanted order given))
     \<and> (\<forall>i < length given. given ! i \<le> give_loop granted tot order wanted given ! i
          \<and> give_loop granted tot order wanted given ! i \<le> max (given ! i) (wanted (order ! i)))"
  using assms
proof (induction granted tot order wanted given rule: give_loop.induct)
  case (1 granted tot order wanted given)
  show ?case
  proof (cases "tot < granted")
    case False
    then show ?thesis using "1.prems" by (simp add: give_loop.simps)
  next
    case True
    show ?thesis
    proof (cases "first_max (shortfalls wanted order given)")
      case None
      have "reach wanted order given = sum_list given"
        using shortfalls_None [OF None "1.prems"(2)] by (rule reach_met)
      then show ?thesis using True None "1.prems" by (simp add: give_loop.simps)
    next
      case (Some far)
      note far = shortfalls_Some [OF Some "1.prems"(2)]
      let ?g = "given[far := given ! far + 1]"
      have sum: "tot + 1 = sum_list ?g" using sum_list_update_Suc [OF far(1)] "1.prems" by simp
      have eq: "give_loop granted tot order wanted given = give_loop granted (tot + 1) order wanted ?g"
        using True Some by (simp add: give_loop.simps [of granted tot order wanted given])
      have len: "length order = length ?g" using "1.prems" by simp
      have grew: "tot + 1 \<le> reach wanted order given"
        using sum_le_reach [of ?g wanted order] sum reach_step [of far given wanted order, OF far] by simp
      have up: "given ! i \<le> ?g ! i" "max (?g ! i) (wanted (order ! i)) = max (given ! i) (wanted (order ! i))"
        if "i < length given" for i
        using that far by (auto simp: nth_list_update)
      show ?thesis
        using "1.IH" [OF True Some sum len] True grew up
        unfolding eq reach_step [of far given wanted order, OF far]
        by (auto intro: order_trans)
    qed
  qed
qed

lemma give_up_to_spec:
  assumes "length order = length given"
  shows "length (give_up_to granted order given wanted) = length given"
    and "sum_list (give_up_to granted order given wanted) = max (sum_list given) (min granted (reach wanted order given))"
    and "\<And>i. i < length given \<Longrightarrow> given ! i \<le> give_up_to granted order given wanted ! i"
    and "\<And>i. i < length given \<Longrightarrow> give_up_to granted order given wanted ! i \<le> max (given ! i) (wanted (order ! i))"
  using give_loop_spec [OF refl assms] by (auto simp: give_up_to_def)

section \<open>The whole split\<close>

definition held_wanted :: "'k Share \<Rightarrow> nat" where
  "held_wanted s = min (share_current s) (share_demand s)"

lemma need_ge_demand: "share_demand s \<le> Share_need s"
  by (simp add: Share_need_def)

lemma held_wanted_le: "held_wanted s \<le> share_demand s"
  by (simp add: held_wanted_def)

text \<open>The share kept of what is held, then what demand adds to it.\<close>

abbreviation kept_parts :: "nat \<Rightarrow> 'k Share list \<Rightarrow> nat list" where
  "kept_parts granted order \<equiv> shrink_loop granted (sum_list (map held_wanted order)) (map held_wanted order)"

abbreviation wanted_parts :: "nat \<Rightarrow> 'k Share list \<Rightarrow> nat list" where
  "wanted_parts granted order \<equiv> give_up_to granted order (kept_parts granted order) share_demand"

lemma kept_parts_spec:
  shows "length (kept_parts granted order) = length order"
    and "i < length order \<Longrightarrow> kept_parts granted order ! i \<le> share_demand (order ! i)"
    and "sum_list (kept_parts granted order) = min (\<Sum>s \<leftarrow> order. held_wanted s) granted"
proof -
  note s1 = shrink_loop_spec [OF refl, of granted "map held_wanted order"]
  show "length (kept_parts granted order) = length order" "sum_list (kept_parts granted order) = min (\<Sum>s \<leftarrow> order. held_wanted s) granted"
    using s1 by simp_all
  show "kept_parts granted order ! i \<le> share_demand (order ! i)" if "i < length order"
    using s1 that held_wanted_le [of "order ! i"] by (metis le_trans length_map nth_map)
qed

lemma wanted_parts_spec:
  shows "length (wanted_parts granted order) = length order"
    and "i < length order \<Longrightarrow> wanted_parts granted order ! i \<le> share_demand (order ! i)"
    and "i < length order \<Longrightarrow> kept_parts granted order ! i \<le> wanted_parts granted order ! i"
    and "sum_list (wanted_parts granted order) = min granted (\<Sum>s \<leftarrow> order. share_demand s)"
proof -
  note k = kept_parts_spec [where granted = granted and order = order]
  note s2 = give_up_to_spec [where order = order and given = "kept_parts granted order" and granted = granted
      and wanted = share_demand, unfolded k(1), OF refl]
  show "length (wanted_parts granted order) = length order"
    and "i < length order \<Longrightarrow> wanted_parts granted order ! i \<le> share_demand (order ! i)"
    and "i < length order \<Longrightarrow> kept_parts granted order ! i \<le> wanted_parts granted order ! i"
    using s2(1) s2(3,4) [of i] k(2) [where i = i] by simp_all
  have "(\<Sum>i \<leftarrow> [0..<length order]. max (kept_parts granted order ! i) (share_demand (order ! i))) = (\<Sum>s \<leftarrow> order. share_demand s)"
    unfolding sum_list_nth_conv [of share_demand order]
    using k(2) by (intro arg_cong [of _ _ sum_list]) (simp add: max_def)
  moreover have "(\<Sum>s \<leftarrow> order. held_wanted s) \<le> (\<Sum>s \<leftarrow> order. share_demand s)"
    by (rule sum_list_map_mono) (simp add: held_wanted_le)
  ultimately show "sum_list (wanted_parts granted order) = min granted (\<Sum>s \<leftarrow> order. share_demand s)"
    unfolding s2(2) k(3) by (auto simp: min_def max_def)
qed

lemma wanted_parts_full:
  assumes "(\<Sum>s \<leftarrow> order. share_demand s) \<le> granted" "i < length order"
  shows "wanted_parts granted order ! i = share_demand (order ! i)"
proof -
  note w = wanted_parts_spec [where granted = granted and order = order]
  have "sum_list (wanted_parts granted order) = (\<Sum>s \<leftarrow> order. share_demand s)" using w(4) assms(1) by simp
  then have "(\<Sum>j \<leftarrow> [0..<length order]. share_demand (order ! j)) \<le> (\<Sum>j \<leftarrow> [0..<length order]. wanted_parts granted order ! j)"
    using sum_list_nth_conv [of share_demand order] sum_list_nth_conv [of "\<lambda>x. x" "wanted_parts granted order"] by (simp add: w(1))
  from sum_le_eq_pointwise [OF _ this, of i] w(2) assms(2) show ?thesis by simp
qed

lemma split_given_spec:
  fixes order :: "'k Share list"
  shows "length (split_given granted order) = length order"
    and "sum_list (split_given granted order) = min granted (\<Sum>s \<leftarrow> order. Share_need s)"
    and "\<And>i. i < length order \<Longrightarrow> split_given granted order ! i \<le> Share_need (order ! i)"
    and "\<And>i. i < length order \<Longrightarrow> (\<Sum>s \<leftarrow> order. held_wanted s) \<le> granted \<Longrightarrow>
           held_wanted (order ! i) \<le> split_given granted order ! i"
    and "\<And>i. i < length order \<Longrightarrow> (\<Sum>s \<leftarrow> order. share_demand s) \<le> granted \<Longrightarrow>
           share_demand (order ! i) \<le> split_given granted order ! i"
    and "\<And>i. i < length order \<Longrightarrow> granted \<le> (\<Sum>s \<leftarrow> order. share_demand s) \<Longrightarrow>
           split_given granted order ! i \<le> share_demand (order ! i)"
proof -
  let ?g2 = "wanted_parts granted order"
  have eq: "split_given granted order = give_up_to granted order ?g2 Share_need"
    by (simp add: split_given_def held_wanted_def [abs_def] Let_def)
  note w = wanted_parts_spec [where granted = granted and order = order]
  note s3 = give_up_to_spec [where order = order and given = ?g2 and granted = granted and wanted = Share_need, unfolded w(1), OF refl]
  have r3: "(\<Sum>i \<leftarrow> [0..<length order]. max (?g2 ! i) (Share_need (order ! i))) = (\<Sum>s \<leftarrow> order. Share_need s)"
    unfolding sum_list_nth_conv [of Share_need order]
    using order_trans [OF w(2) need_ge_demand] by (intro arg_cong [of _ _ sum_list]) (simp add: max_absorb2)
  have le_dn: "(\<Sum>s \<leftarrow> order. share_demand s) \<le> (\<Sum>s \<leftarrow> order. Share_need s)"
    by (rule sum_list_map_mono) (simp add: need_ge_demand)
  show "length (split_given granted order) = length order" unfolding eq s3(1) by simp
  show "sum_list (split_given granted order) = min granted (\<Sum>s \<leftarrow> order. Share_need s)"
    unfolding eq s3(2) r3 w(4) using le_dn by (auto simp: min_def max_def)
  fix i assume i: "i < length order"
  show "split_given granted order ! i \<le> Share_need (order ! i)"
    unfolding eq using s3(4) [OF i] w(2) [OF i] need_ge_demand [of "order ! i"] by simp
  show "held_wanted (order ! i) \<le> split_given granted order ! i" if "(\<Sum>s \<leftarrow> order. held_wanted s) \<le> granted"
    using w(3) [OF i] s3(3) [OF i] i that by (simp add: eq shrink_loop_done)
  show "share_demand (order ! i) \<le> split_given granted order ! i" if "(\<Sum>s \<leftarrow> order. share_demand s) \<le> granted"
    using s3(3) [OF i] wanted_parts_full [OF that i] by (simp add: eq)
  show "split_given granted order ! i \<le> share_demand (order ! i)" if "granted \<le> (\<Sum>s \<leftarrow> order. share_demand s)"
  proof -
    have full: "sum_list ?g2 = granted" using w(4) that by simp
    have "split_given granted order = ?g2"
      unfolding eq give_up_to_def [of granted order ?g2] full by (simp add: give_loop.simps)
    with w(2) [OF i] show ?thesis by simp
  qed
qed

lemma split_zip:
  assumes "distinct (map share_key shares)"
  shows "split granted shares =
     zip (map share_key (sort_key share_key shares)) (split_given granted (sort_key share_key shares))"
  using bt_wf_sort_zip [OF assms, of "split_given granted (sort_key share_key shares)"]
  by (simp add: split_def Let_def bt_collect_wf_id split_given_spec(1))

lemma split_wf [simp, bt_intros]: "bt_wf (split granted shares)"
  by (simp add: split_def Let_def)

lemma split_keys [bt_simps]: "fst ` set (split granted shares) = share_key ` set shares"
proof -
  have "fst ` set (split granted shares)
      = set (map fst (zip (map share_key (sort_key share_key shares)) (split_given granted (sort_key share_key shares))))"
    by (simp add: split_def Let_def keys_bt_collect)
  then show ?thesis by (simp add: map_fst_zip split_given_spec(1))
qed

lemma split_sum:
  assumes "distinct (map share_key shares)"
  shows "bt_sum id (split granted shares) = min granted (\<Sum>s \<leftarrow> shares. Share_need s)"
proof -
  have "bt_sum id (split granted shares) = sum_list (map snd (split granted shares))"
    by (simp add: bt_sum_def case_prod_unfold)
  also have "\<dots> = sum_list (split_given granted (sort_key share_key shares))"
    by (simp add: split_zip [OF assms] map_snd_zip split_given_spec(1))
  finally show ?thesis by (simp add: split_given_spec(2) sum_list_sort_key)
qed

lemma split_get_nth:
  assumes "distinct (map share_key shares)" "s \<in> set shares"
  obtains i where "i < length shares" "sort_key share_key shares ! i = s"
    "bt_get (split granted shares) (share_key s) = Some (split_given granted (sort_key share_key shares) ! i)"
proof -
  obtain i where i: "i < length shares" "sort_key share_key shares ! i = s"
    using assms(2) by (metis in_set_conv_nth length_sort set_sort)
  have "(share_key s, split_given granted (sort_key share_key shares) ! i) \<in> set (split granted shares)"
    using i by (auto simp: split_zip [OF assms(1)] in_set_zip split_given_spec(1) intro!: exI [of _ i])
  then show thesis
    using i by (intro that) (simp_all add: bt_get_mem)
qed

lemma split_bt_keys:
  "distinct (map share_key shares) \<Longrightarrow> bt_keys (split granted shares) = map share_key (sort_key share_key shares)"
  by (simp add: split_zip map_fst_zip split_given_spec(1))

lemma split_get_sum:
  assumes "distinct (map share_key shares)"
  shows "(\<Sum>s \<leftarrow> shares. bt_get_or 0 (split granted shares) (share_key s)) = min granted (\<Sum>s \<leftarrow> shares. Share_need s)"
proof -
  have vals: "map (bt_get_or 0 (split granted shares)) (bt_keys (split granted shares)) = map snd (split granted shares)"
    by (auto simp: bt_get_or_def bt_get_mem [symmetric])
  have "(\<Sum>s \<leftarrow> shares. bt_get_or 0 (split granted shares) (share_key s))
      = (\<Sum>s \<leftarrow> sort_key share_key shares. bt_get_or 0 (split granted shares) (share_key s))"
    by (simp only: sum_list_sort_key)
  also have "\<dots> = bt_sum id (split granted shares)"
    using vals unfolding split_bt_keys [OF assms] by (simp add: bt_sum_def case_prod_unfold comp_def)
  finally show ?thesis using split_sum [OF assms] by simp
qed

section \<open>Properties of a split\<close>

text \<open>
  A split spends exactly what it may: over proxies with distinct keys, what they are given adds
  up to the grant or, if less, to what the proxies need together; and every proxy has an entry.
\<close>

theorem split_spends:
  assumes "distinct (map share_key shares)"
  shows "(\<Sum>s \<leftarrow> shares. bt_get_or 0 (split granted shares) (share_key s)) = min granted (\<Sum>s \<leftarrow> shares. Share_need s)
     \<and> bt_keys (split granted shares) = map share_key (sort_key share_key shares)"
  using split_get_sum [OF assms] split_bt_keys [OF assms] by blast

theorem split_spends_witness:
  "bt_keys (split 3
     [\<lparr>share_key = (2::nat), share_demand = 4, share_current = 1, share_may_release = True\<rparr>,
      \<lparr>share_key = 1, share_demand = 2, share_current = 2, share_may_release = True\<rparr>]) = [1, 2]"
  by (subst split_spends [THEN conjunct2]) simp_all

text \<open>
  A split does not move a connection without need. No proxy is given more than it needs. When
  what the proxies hold and still want fits the grant, none loses any of it; when all demands fit,
  every proxy gets its demand; and when they do not, no proxy is given more than its demand.
\<close>

theorem split_stable:
  assumes "distinct (map share_key shares)" "s \<in> set shares"
  shows "bt_get_or 0 (split granted shares) (share_key s) \<le> Share_need s
     \<and> ((\<Sum>s \<leftarrow> shares. min (share_current s) (share_demand s)) \<le> granted \<longrightarrow>
          min (share_current s) (share_demand s) \<le> bt_get_or 0 (split granted shares) (share_key s))
     \<and> ((\<Sum>s \<leftarrow> shares. share_demand s) \<le> granted \<longrightarrow>
          share_demand s \<le> bt_get_or 0 (split granted shares) (share_key s))
     \<and> (granted \<le> (\<Sum>s \<leftarrow> shares. share_demand s) \<longrightarrow>
          bt_get_or 0 (split granted shares) (share_key s) \<le> share_demand s)"
proof -
  obtain i where i: "i < length shares" "sort_key share_key shares ! i = s"
    and get: "bt_get (split granted shares) (share_key s) = Some (split_given granted (sort_key share_key shares) ! i)"
    using assms by (rule split_get_nth)
  show ?thesis
    using split_given_spec(3-6) [of i "sort_key share_key shares" granted] i
    by (simp add: bt_get_or_def get sum_list_sort_key held_wanted_def)
qed

theorem split_stable_witness:
  "4 \<le> bt_get_or 0 (split 9
     [\<lparr>share_key = (2::nat), share_demand = 4, share_current = 7, share_may_release = False\<rparr>,
      \<lparr>share_key = 1, share_demand = 2, share_current = 0, share_may_release = True\<rparr>]) 2"
  using split_stable [of "[\<lparr>share_key = (2::nat), share_demand = 4, share_current = 7, share_may_release = False\<rparr>,
      \<lparr>share_key = 1, share_demand = 2, share_current = 0, share_may_release = True\<rparr>]"
      "\<lparr>share_key = (2::nat), share_demand = 4, share_current = 7, share_may_release = False\<rparr>" 9] by simp

end
