(* ===== verification/Allocation.thy ===== *)
theory Allocation
  imports Prelude
begin

text \<open>
  The identifiers of the system and the desired-state table: \<^verbatim>\<open>crates/core/src/tenant.rs\<close> and
  \<^verbatim>\<open>crates/core/src/allocation.rs\<close>. Every write to the table goes through \<open>apply\<close>, which
  rejects an entry as a whole when it breaks the budget of an instance. The properties show that
  the running total of an entry is the sum of its grants, that no reachable table grants more than
  a budget, and what an accepted and a rejected entry do.
\<close>

section \<open>Identifiers\<close>

datatype InstanceId = InstanceId (InstanceId_as_str: string)

datatype ProxyId = ProxyId (ProxyId_as_str: string)

datatype TenantId = TenantId (TenantId_user: string) (TenantId_database: string)

datatype Holder = Holder (Holder_tenant: TenantId) (Holder_proxy: ProxyId)

definition TenantId_display :: "TenantId \<Rightarrow> string" where
  "TenantId_display t = TenantId_user t @ ''@'' @ TenantId_database t"

text \<open>The derived orders compare the fields in the order of their declaration.\<close>

instantiation InstanceId :: linorder
begin
definition less_eq_InstanceId :: "InstanceId \<Rightarrow> InstanceId \<Rightarrow> bool" where
  "less_eq_InstanceId a b \<longleftrightarrow> InstanceId_as_str a \<le> InstanceId_as_str b"
definition less_InstanceId :: "InstanceId \<Rightarrow> InstanceId \<Rightarrow> bool" where
  "less_InstanceId a b \<longleftrightarrow> InstanceId_as_str a < InstanceId_as_str b"
instance
  by standard (auto simp: less_eq_InstanceId_def less_InstanceId_def intro: InstanceId.expand)
end

instantiation ProxyId :: linorder
begin
definition less_eq_ProxyId :: "ProxyId \<Rightarrow> ProxyId \<Rightarrow> bool" where
  "less_eq_ProxyId a b \<longleftrightarrow> ProxyId_as_str a \<le> ProxyId_as_str b"
definition less_ProxyId :: "ProxyId \<Rightarrow> ProxyId \<Rightarrow> bool" where
  "less_ProxyId a b \<longleftrightarrow> ProxyId_as_str a < ProxyId_as_str b"
instance
  by standard (auto simp: less_eq_ProxyId_def less_ProxyId_def intro: ProxyId.expand)
end

definition TenantId_key :: "TenantId \<Rightarrow> string \<times> string" where
  "TenantId_key t = (TenantId_user t, TenantId_database t)"

lemma TenantId_key_inj [simp]: "TenantId_key a = TenantId_key b \<longleftrightarrow> a = b"
  by (cases a; cases b) (auto simp: TenantId_key_def)

instantiation TenantId :: linorder
begin
definition less_eq_TenantId :: "TenantId \<Rightarrow> TenantId \<Rightarrow> bool" where
  "less_eq_TenantId a b \<longleftrightarrow> TenantId_key a \<le> TenantId_key b"
definition less_TenantId :: "TenantId \<Rightarrow> TenantId \<Rightarrow> bool" where
  "less_TenantId a b \<longleftrightarrow> TenantId_key a < TenantId_key b"
instance
proof
  fix a b :: TenantId
  show "a \<le> b \<Longrightarrow> b \<le> a \<Longrightarrow> a = b"
    unfolding less_eq_TenantId_def using order_antisym TenantId_key_inj by blast
qed (auto simp: less_eq_TenantId_def less_TenantId_def order_less_le)
end

definition Holder_key :: "Holder \<Rightarrow> TenantId \<times> ProxyId" where
  "Holder_key h = (Holder_tenant h, Holder_proxy h)"

lemma Holder_key_inj [simp]: "Holder_key a = Holder_key b \<longleftrightarrow> a = b"
  by (cases a; cases b) (auto simp: Holder_key_def)

instantiation Holder :: linorder
begin
definition less_eq_Holder :: "Holder \<Rightarrow> Holder \<Rightarrow> bool" where
  "less_eq_Holder a b \<longleftrightarrow> Holder_key a \<le> Holder_key b"
definition less_Holder :: "Holder \<Rightarrow> Holder \<Rightarrow> bool" where
  "less_Holder a b \<longleftrightarrow> Holder_key a < Holder_key b"
instance
proof
  fix a b :: Holder
  show "a \<le> b \<Longrightarrow> b \<le> a \<Longrightarrow> a = b"
    unfolding less_eq_Holder_def using order_antisym Holder_key_inj by blast
qed (auto simp: less_eq_Holder_def less_Holder_def order_less_le)
end

section \<open>One instance's desired state\<close>

record Desired =
  desired_budget :: nat
  desired_granted :: "(Holder, nat) btree_map"
  desired_total :: nat

definition Desired_new :: "nat \<Rightarrow> Desired" where
  "Desired_new budget = \<lparr>desired_budget = budget, desired_granted = [], desired_total = 0\<rparr>"

definition Desired_grant :: "Desired \<Rightarrow> Holder \<Rightarrow> nat \<Rightarrow> Desired" where
  "Desired_grant d holder slots =
     (let previous = bt_get (desired_granted d) holder;
          granted = (if slots = 0 then bt_remove holder (desired_granted d)
                     else bt_insert holder slots (desired_granted d))
      in d\<lparr>desired_granted := granted,
           desired_total := desired_total d - (case previous of None \<Rightarrow> 0 | Some n \<Rightarrow> n) + slots\<rparr>)"

definition Desired_granted :: "Desired \<Rightarrow> Holder \<Rightarrow> nat" where
  "Desired_granted d holder = bt_get_or 0 (desired_granted d) holder"

definition Desired_holders :: "Desired \<Rightarrow> (Holder \<times> nat) list" where
  "Desired_holders d = desired_granted d"

section \<open>The table\<close>

record Entry =
  entry_instances :: "(InstanceId, Desired) btree_map"

definition Entry_new :: Entry where
  "Entry_new = \<lparr>entry_instances = []\<rparr>"

definition Entry_instance :: "Entry \<Rightarrow> InstanceId \<Rightarrow> Desired \<Rightarrow> Entry" where
  "Entry_instance e instance_id desired =
     e\<lparr>entry_instances := bt_insert instance_id desired (entry_instances e)\<rparr>"

datatype PreconditionError = OverBudget InstanceId nat nat

record AllocationTable =
  table_instances :: "(InstanceId, Desired) btree_map"

definition AllocationTable_new :: AllocationTable where
  "AllocationTable_new = \<lparr>table_instances = []\<rparr>"

fun first_over_budget :: "(InstanceId \<times> Desired) list \<Rightarrow> PreconditionError option" where
  "first_over_budget [] = None"
| "first_over_budget ((instance_id, desired) # rest) =
     (if desired_total desired > desired_budget desired
      then Some (OverBudget instance_id (desired_total desired) (desired_budget desired))
      else first_over_budget rest)"

definition AllocationTable_apply ::
    "AllocationTable \<Rightarrow> Entry \<Rightarrow> AllocationTable \<times> (PreconditionError + unit)" where
  "AllocationTable_apply t entry =
     (case first_over_budget (entry_instances entry) of
        Some err \<Rightarrow> (t, Inl err)
      | None \<Rightarrow>
          (t\<lparr>table_instances :=
               fold (\<lambda>(instance_id, desired) m. bt_insert instance_id desired m)
                 (entry_instances entry) (table_instances t)\<rparr>, Inr ()))"

definition AllocationTable_budget :: "AllocationTable \<Rightarrow> InstanceId \<Rightarrow> nat" where
  "AllocationTable_budget t i = (case bt_get (table_instances t) i of None \<Rightarrow> 0 | Some d \<Rightarrow> desired_budget d)"

definition AllocationTable_granted :: "AllocationTable \<Rightarrow> InstanceId \<Rightarrow> Holder \<Rightarrow> nat" where
  "AllocationTable_granted t i h =
     (case bt_get (table_instances t) i of None \<Rightarrow> 0 | Some d \<Rightarrow> Desired_granted d h)"

definition AllocationTable_granted_total :: "AllocationTable \<Rightarrow> InstanceId \<Rightarrow> nat" where
  "AllocationTable_granted_total t i =
     clamp32 (case bt_get (table_instances t) i of None \<Rightarrow> 0 | Some d \<Rightarrow> desired_total d)"

definition AllocationTable_headroom :: "AllocationTable \<Rightarrow> InstanceId \<Rightarrow> nat" where
  "AllocationTable_headroom t i = AllocationTable_budget t i - AllocationTable_granted_total t i"

definition AllocationTable_instances :: "AllocationTable \<Rightarrow> InstanceId list" where
  "AllocationTable_instances t = bt_keys (table_instances t)"

definition AllocationTable_holders :: "AllocationTable \<Rightarrow> InstanceId \<Rightarrow> (Holder \<times> nat) list" where
  "AllocationTable_holders t i =
     (case bt_get (table_instances t) i of None \<Rightarrow> [] | Some d \<Rightarrow> Desired_holders d)"

definition AllocationTable_grants_for :: "AllocationTable \<Rightarrow> ProxyId \<Rightarrow> (InstanceId \<times> TenantId \<times> nat) list" where
  "AllocationTable_grants_for t proxy =
     concat (map (\<lambda>(i, desired).
        map (\<lambda>(holder, slots). (i, Holder_tenant holder, slots))
          (filter (\<lambda>(holder, _). Holder_proxy holder = proxy) (Desired_holders desired)))
       (table_instances t))"

section \<open>The running total\<close>

text \<open>
  A well-formed desired state stores no zero grant, and its running total is the sum of its grants:
  in particular the subtraction in \<open>grant\<close> never goes below zero.
\<close>

definition desired_wf :: "Desired \<Rightarrow> bool" where
  "desired_wf d \<longleftrightarrow> bt_wf (desired_granted d) \<and> (\<forall>(h, n) \<in> set (desired_granted d). 0 < n)
     \<and> desired_total d = bt_sum id (desired_granted d)"

lemma desired_wf_new [simp]: "desired_wf (Desired_new b)"
  by (simp add: desired_wf_def Desired_new_def)

lemma Desired_grant_budget [simp]: "desired_budget (Desired_grant d h n) = desired_budget d"
  by (simp add: Desired_grant_def Let_def)

lemma desired_wf_grant:
  assumes "desired_wf d"
  shows "desired_wf (Desired_grant d h n)"
proof (cases "n = 0")
  case True
  with assms bt_sum_remove [of "desired_granted d" id h] show ?thesis
    by (auto simp: desired_wf_def Desired_grant_def Let_def set_bt_remove split: option.splits)
next
  case False
  with assms bt_sum_insert [of "desired_granted d" id h n] bt_sum_ge [of "desired_granted d" h _ id] show ?thesis
    by (auto simp: desired_wf_def Desired_grant_def Let_def set_bt_insert split: option.splits)
qed

lemma Desired_granted_grant [simp]:
  "Desired_granted (Desired_grant d h n) h' = (if h' = h then n else Desired_granted d h')"
  by (auto simp: Desired_granted_def Desired_grant_def Let_def)

lemma Desired_total_grant:
  "desired_wf d \<Longrightarrow> desired_total (Desired_grant d h n) + Desired_granted d h = desired_total d + n"
  using bt_sum_ge [of "desired_granted d" h _ id]
  by (auto simp: desired_wf_def Desired_grant_def Desired_granted_def Let_def bt_get_or_def split: option.splits)

section \<open>Reachable tables\<close>

text \<open>What a caller can build: desired states and entries through their builders only.\<close>

inductive desired_built :: "Desired \<Rightarrow> bool" where
  built_new: "budget \<le> u32_max \<Longrightarrow> desired_built (Desired_new budget)"
| built_grant: "desired_built d \<Longrightarrow> slots \<le> u32_max \<Longrightarrow> desired_built (Desired_grant d holder slots)"

inductive entry_built :: "Entry \<Rightarrow> bool" where
  entry_new: "entry_built Entry_new"
| entry_instance: "entry_built e \<Longrightarrow> desired_built d \<Longrightarrow> entry_built (Entry_instance e i d)"

inductive table_step :: "AllocationTable \<Rightarrow> AllocationTable \<Rightarrow> bool" where
  table_apply: "entry_built e \<Longrightarrow> table_step t (fst (AllocationTable_apply t e))"

inductive table_reachable :: "AllocationTable \<Rightarrow> bool" where
  table_init: "table_reachable AllocationTable_new"
| table_next: "table_reachable t \<Longrightarrow> table_step t u \<Longrightarrow> table_reachable u"

inductive_cases table_stepE: "table_step t u"

interpretation table: transition_system "\<lambda>t. t = AllocationTable_new" table_step table_reachable
proof
  fix s P
  assume "table_reachable s" and init: "\<And>t. t = AllocationTable_new \<Longrightarrow> P t"
    and step: "\<And>t u. table_reachable t \<Longrightarrow> P t \<Longrightarrow> table_step t u \<Longrightarrow> P u"
  from this(1) show "P s"
    by (induction rule: table_reachable.induct) (rule init [OF refl], rule step)
qed

definition desired_ok :: "Desired \<Rightarrow> bool" where
  "desired_ok d \<longleftrightarrow> desired_wf d \<and> desired_budget d \<le> u32_max"

definition table_ok :: "AllocationTable \<Rightarrow> bool" where
  "table_ok t \<longleftrightarrow> bt_wf (table_instances t)
     \<and> (\<forall>(i, d) \<in> set (table_instances t). desired_ok d \<and> desired_total d \<le> desired_budget d)"

lemma desired_built_ok: "desired_built d \<Longrightarrow> desired_ok d"
  by (induction rule: desired_built.induct) (simp_all add: desired_ok_def desired_wf_grant, simp add: Desired_new_def)

lemma entry_built_ok:
  "entry_built e \<Longrightarrow> bt_wf (entry_instances e) \<and> (\<forall>(i, d) \<in> set (entry_instances e). desired_ok d)"
  by (induction rule: entry_built.induct)
    (auto simp: Entry_new_def Entry_instance_def set_bt_insert desired_built_ok)

lemma first_over_budget_None:
  "first_over_budget xs = None \<longleftrightarrow> (\<forall>(i, d) \<in> set xs. desired_total d \<le> desired_budget d)"
  by (induction xs rule: first_over_budget.induct) auto

lemma fold_insert_mem:
  assumes "bt_wf m" "(k, v) \<in> set (fold (\<lambda>(k, v) m. bt_insert k v m) xs m)"
  shows "(k, v) \<in> set xs \<or> (k, v) \<in> set m"
  using assms
proof (induction xs arbitrary: m)
  case (Cons x xs)
  from Cons.IH [of "bt_insert (fst x) (snd x) m"] Cons.prems show ?case
    by (cases x) (auto simp: set_bt_insert)
qed simp

lemma table_ok_apply:
  assumes "table_ok t" "\<forall>(i, d) \<in> set (entry_instances e). desired_ok d"
  shows "table_ok (fst (AllocationTable_apply t e))"
proof (cases "first_over_budget (entry_instances e)")
  case None
  then have "\<forall>(i, d) \<in> set (entry_instances e). desired_total d \<le> desired_budget d"
    by (simp only: first_over_budget_None)
  with assms show ?thesis
    by (auto simp: table_ok_def AllocationTable_apply_def None fold_bt_insert_wf dest!: fold_insert_mem [rotated])
qed (simp add: AllocationTable_apply_def assms)

lemma table_reachable_ok: "table_reachable t \<Longrightarrow> table_ok t"
proof (rule table.invariant)
  show "table_ok t" if "t = AllocationTable_new" for t
    using that by (simp add: table_ok_def AllocationTable_new_def)
  show "table_ok u" if "table_ok t" "table_step t u" for t u
    using that entry_built_ok by (auto elim!: table_stepE intro!: table_ok_apply)
qed

lemma grants_for_mem:
  assumes ok: "table_ok t"
  shows "(i, tenant, slots) \<in> set (AllocationTable_grants_for t proxy)
     \<longleftrightarrow> 0 < slots \<and> AllocationTable_granted t i (Holder tenant proxy) = slots"
proof -
  have holder: "h = Holder tenant proxy \<longleftrightarrow> Holder_tenant h = tenant \<and> Holder_proxy h = proxy" for h
    by (cases h) auto
  have "(i, tenant, slots) \<in> set (AllocationTable_grants_for t proxy)
      \<longleftrightarrow> (\<exists>d. (i, d) \<in> set (table_instances t) \<and> (Holder tenant proxy, slots) \<in> set (desired_granted d))"
    by (force simp: AllocationTable_grants_for_def Desired_holders_def holder)
  also have "\<dots> \<longleftrightarrow> (\<exists>d. bt_get (table_instances t) i = Some d
      \<and> bt_get (desired_granted d) (Holder tenant proxy) = Some slots \<and> 0 < slots)"
    using ok by (fastforce simp: table_ok_def desired_ok_def desired_wf_def bt_get_mem)
  finally show ?thesis
    by (auto simp: AllocationTable_granted_def Desired_granted_def bt_get_or_def split: option.splits)
qed

section \<open>Properties\<close>

lemma table_totals:
  assumes "table_ok t"
  shows "AllocationTable_granted_total t i = (\<Sum>(holder, slots) \<leftarrow> AllocationTable_holders t i. slots)
     \<and> (\<Sum>(holder, slots) \<leftarrow> AllocationTable_holders t i. slots) \<le> AllocationTable_budget t i
     \<and> AllocationTable_headroom t i + AllocationTable_granted_total t i = AllocationTable_budget t i"
proof (cases "bt_get (table_instances t) i")
  case None
  then show ?thesis
    by (simp add: AllocationTable_granted_total_def AllocationTable_holders_def AllocationTable_budget_def
        AllocationTable_headroom_def)
next
  case (Some d)
  then have "desired_ok d \<and> desired_total d \<le> desired_budget d"
    using assms by (auto simp: table_ok_def dest: bt_get_SomeD)
  then show ?thesis
    by (simp add: Some AllocationTable_granted_total_def AllocationTable_holders_def AllocationTable_budget_def
        AllocationTable_headroom_def Desired_holders_def desired_ok_def desired_wf_def bt_sum_def clamp32_id)
qed

text \<open>
  C30: No reachable table grants more than a budget: the slots an instance's holders are granted add
  up to \<open>granted_total\<close>, never exceed the instance's total budget, and \<open>headroom\<close> is exactly the rest.
\<close>

theorem table_within_budget:
  assumes "table_reachable t"
  shows "AllocationTable_granted_total t i = (\<Sum>(holder, slots) \<leftarrow> AllocationTable_holders t i. slots)
     \<and> (\<Sum>(holder, slots) \<leftarrow> AllocationTable_holders t i. slots) \<le> AllocationTable_budget t i
     \<and> AllocationTable_headroom t i + AllocationTable_granted_total t i = AllocationTable_budget t i"
  using table_reachable_ok [OF assms] by (rule table_totals)

theorem table_within_budget_witness:
  "let t = fst (AllocationTable_apply AllocationTable_new
             (Entry_instance Entry_new (InstanceId ''db1'')
               (Desired_grant (Desired_new 10) (Holder (TenantId ''app'' ''app'') (ProxyId ''p'')) 4)))
   in AllocationTable_headroom t (InstanceId ''db1'') + AllocationTable_granted_total t (InstanceId ''db1'')
        = AllocationTable_budget t (InstanceId ''db1'')"
  unfolding Let_def
  by (intro table_within_budget [THEN conjunct2, THEN conjunct2] table_next [OF table_init] table_apply
      entry_instance entry_new built_grant built_new) (simp_all add: u32_max_def)

text \<open>
  An entry is applied as a whole or not at all. If every instance in it is within its budget the
  write is accepted, replaces exactly the instances of the entry and keeps every other one; otherwise
  the table is unchanged and the error names the first instance over its budget, with its numbers.
\<close>

theorem apply_whole_or_nothing:
  assumes "bt_wf (entry_instances e)"
  shows "if \<forall>(i, d) \<in> set (entry_instances e). desired_total d \<le> desired_budget d
     then snd (AllocationTable_apply t e) = Inr ()
        \<and> (\<forall>i. bt_get (table_instances (fst (AllocationTable_apply t e))) i
              = (case bt_get (entry_instances e) i of
                   None \<Rightarrow> bt_get (table_instances t) i | Some d \<Rightarrow> Some d))
     else fst (AllocationTable_apply t e) = t
        \<and> (\<exists>i d. (i, d) \<in> set (entry_instances e) \<and> desired_budget d < desired_total d
              \<and> snd (AllocationTable_apply t e) = Inl (OverBudget i (desired_total d) (desired_budget d))
              \<and> (\<forall>(j, d') \<in> set (entry_instances e). desired_budget d' < desired_total d' \<longrightarrow> i \<le> j))"
proof -
  have first: "\<exists>i d. (i, d) \<in> set xs \<and> desired_budget d < desired_total d
      \<and> err = OverBudget i (desired_total d) (desired_budget d)
      \<and> (\<forall>(j, d') \<in> set xs. desired_budget d' < desired_total d' \<longrightarrow> i \<le> j)"
    if "bt_wf xs" "first_over_budget xs = Some err" for xs err
    using that
  proof (induction xs rule: first_over_budget.induct)
    case (2 i d rest)
    then show ?case
      by (cases "desired_budget d < desired_total d") (fastforce simp: bt_wf_Cons intro: less_imp_le)+
  qed simp
  show ?thesis
  proof (cases "first_over_budget (entry_instances e)")
    case None
    moreover from None have "\<forall>(i, d) \<in> set (entry_instances e). desired_total d \<le> desired_budget d"
      by (simp only: first_over_budget_None)
    moreover have "map_of (rev (entry_instances e)) i = bt_get (entry_instances e) i" for i
      using assms by (simp add: map_of_rev bt_wf_distinct bt_get_def)
    ultimately show ?thesis
      by (simp add: AllocationTable_apply_def fold_bt_insert_get)
  next
    case (Some err)
    then have "\<not> (\<forall>(i, d) \<in> set (entry_instances e). desired_total d \<le> desired_budget d)"
      by (metis first_over_budget_None option.distinct(1))
    with first [OF assms Some] show ?thesis by (simp only: if_False AllocationTable_apply_def Some) simp
  qed
qed

theorem apply_whole_or_nothing_witness:
  "fst (AllocationTable_apply AllocationTable_new
      (Entry_instance Entry_new (InstanceId ''db1'')
        (Desired_grant (Desired_new 3) (Holder (TenantId ''app'' ''app'') (ProxyId ''p'')) 4))) = AllocationTable_new"
  using apply_whole_or_nothing [of "Entry_instance Entry_new (InstanceId ''db1'')
      (Desired_grant (Desired_new 3) (Holder (TenantId ''app'' ''app'') (ProxyId ''p'')) 4)" AllocationTable_new]
  by (simp add: Entry_instance_def Entry_new_def Desired_grant_def Desired_new_def Let_def bt_wf_def)

text \<open>
  What a proxy is told to hold is exactly its part of the table: \<open>grants_for\<close> lists an instance
  and a tenant with a number of slots if and only if the table grants that many, more than zero, to
  that tenant at that proxy.
\<close>

theorem grants_for_exact:
  assumes "table_reachable t"
  shows "(i, tenant, slots) \<in> set (AllocationTable_grants_for t proxy)
     \<longleftrightarrow> 0 < slots \<and> AllocationTable_granted t i (Holder tenant proxy) = slots"
  by (rule grants_for_mem [OF table_reachable_ok [OF assms]])

theorem grants_for_exact_witness:
  "(InstanceId ''db1'', TenantId ''app'' ''app'', 4) \<in> set (AllocationTable_grants_for
     (fst (AllocationTable_apply AllocationTable_new
        (Entry_instance Entry_new (InstanceId ''db1'')
          (Desired_grant (Desired_new 10) (Holder (TenantId ''app'' ''app'') (ProxyId ''p'')) 4)))) (ProxyId ''p''))"
proof (subst grants_for_exact)
  show "table_reachable (fst (AllocationTable_apply AllocationTable_new
      (Entry_instance Entry_new (InstanceId ''db1'')
        (Desired_grant (Desired_new 10) (Holder (TenantId ''app'' ''app'') (ProxyId ''p'')) 4))))"
    by (intro table_next [OF table_init] table_apply entry_instance entry_new built_grant built_new)
      (simp_all add: u32_max_def)
qed code_simp

end
