(* ===== verification/Budget.thy ===== *)
theory Budget
  imports Prelude
begin

text \<open>
  An instance's total budget (\<^verbatim>\<open>crates/core/src/budget.rs\<close>): its derivation from the server's limits,
  the foreign peak and the margin, and the sliding-window maximum that is the foreign peak. Instants
  and durations are natural numbers, so \<open>saturating_duration_since\<close> is subtraction on them. The
  lemmas show that the decreasing queue always answers the maximum of the window, and the properties
  that the derived budget is the one the server's numbers allow after any sequence of updates.
\<close>

section \<open>Deriving a budget\<close>

record ServerLimits =
  max_connections :: nat
  superuser_reserved_connections :: nat
  reserved_connections :: nat

definition ServerLimits_reserved :: "ServerLimits \<Rightarrow> nat" where
  "ServerLimits_reserved l = sat_add32 (superuser_reserved_connections l) (reserved_connections l)"

record BudgetInputs =
  in_limits :: ServerLimits
  in_foreign_peak :: nat
  in_margin :: nat

definition BudgetInputs_deductions :: "BudgetInputs \<Rightarrow> nat" where
  "BudgetInputs_deductions i = ServerLimits_reserved (in_limits i) + in_foreign_peak i + in_margin i"

record TotalBudget =
  tb_inputs :: BudgetInputs
  tb_total :: nat
  tb_shortfall :: nat

definition TotalBudget_derive :: "BudgetInputs \<Rightarrow> TotalBudget" where
  "TotalBudget_derive i =
     (let maximum = max_connections (in_limits i);
          deductions = BudgetInputs_deductions i
      in \<lparr>tb_inputs = i, tb_total = clamp32 (maximum - deductions),
          tb_shortfall = clamp32 (deductions - maximum)\<rparr>)"

definition TotalBudget_is_exhausted :: "TotalBudget \<Rightarrow> bool" where
  "TotalBudget_is_exhausted b \<longleftrightarrow> tb_total b = 0"

section \<open>The foreign peak\<close>

record ForeignPeak =
  peak_window :: nat
  peak_samples :: "(nat \<times> nat) list"

definition ForeignPeak_new :: "nat \<Rightarrow> ForeignPeak" where
  "ForeignPeak_new window = \<lparr>peak_window = window, peak_samples = []\<rparr>"

fun pop_front_while :: "('a \<Rightarrow> bool) \<Rightarrow> 'a list \<Rightarrow> 'a list" where
  "pop_front_while P [] = []"
| "pop_front_while P (x # xs) = (if P x then pop_front_while P xs else x # xs)"

definition pop_back_while :: "('a \<Rightarrow> bool) \<Rightarrow> 'a list \<Rightarrow> 'a list" where
  "pop_back_while P xs = rev (pop_front_while P (rev xs))"

definition ForeignPeak_observe :: "ForeignPeak \<Rightarrow> nat \<Rightarrow> nat \<Rightarrow> ForeignPeak" where
  "ForeignPeak_observe p at cnt =
     (let samples = pop_front_while (\<lambda>(oldest, _). \<not> at - oldest \<le> peak_window p) (peak_samples p);
          samples = pop_back_while (\<lambda>(_, seen). \<not> seen > cnt) samples
      in p\<lparr>peak_samples := samples @ [(at, cnt)]\<rparr>)"

definition ForeignPeak_peak :: "ForeignPeak \<Rightarrow> nat" where
  "ForeignPeak_peak p = (case peak_samples p of [] \<Rightarrow> 0 | (_, cnt) # _ \<Rightarrow> cnt)"

section \<open>An instance's budget\<close>

datatype BudgetChange = Unchanged | Grew nat nat | Shrank nat nat

record InstanceBudget =
  ib_limits :: ServerLimits
  ib_margin :: nat
  ib_peak :: ForeignPeak
  ib_budget :: TotalBudget

definition InstanceBudget_new :: "ServerLimits \<Rightarrow> nat \<Rightarrow> nat \<Rightarrow> InstanceBudget" where
  "InstanceBudget_new limits margin window =
     (let peak = ForeignPeak_new window
      in \<lparr>ib_limits = limits, ib_margin = margin, ib_peak = peak,
          ib_budget = TotalBudget_derive
            \<lparr>in_limits = limits, in_foreign_peak = ForeignPeak_peak peak, in_margin = margin\<rparr>\<rparr>)"

definition InstanceBudget_with_margin :: "InstanceBudget \<Rightarrow> nat \<Rightarrow> TotalBudget" where
  "InstanceBudget_with_margin b margin = TotalBudget_derive
     \<lparr>in_limits = ib_limits b, in_foreign_peak = ForeignPeak_peak (ib_peak b), in_margin = margin\<rparr>"

definition InstanceBudget_derive :: "InstanceBudget \<Rightarrow> InstanceBudget \<times> BudgetChange" where
  "InstanceBudget_derive b =
     (let before = tb_total (ib_budget b);
          budget = TotalBudget_derive \<lparr>in_limits = ib_limits b,
            in_foreign_peak = ForeignPeak_peak (ib_peak b), in_margin = ib_margin b\<rparr>;
          after = tb_total budget
      in (b\<lparr>ib_budget := budget\<rparr>,
          case cmp after before of
            Greater \<Rightarrow> Grew before after
          | Less \<Rightarrow> Shrank before after
          | Equal \<Rightarrow> Unchanged))"

definition InstanceBudget_observe :: "InstanceBudget \<Rightarrow> nat \<Rightarrow> nat \<Rightarrow> InstanceBudget \<times> BudgetChange" where
  "InstanceBudget_observe b at foreign_connections =
     InstanceBudget_derive (b\<lparr>ib_peak := ForeignPeak_observe (ib_peak b) at foreign_connections\<rparr>)"

definition InstanceBudget_update_limits :: "InstanceBudget \<Rightarrow> ServerLimits \<Rightarrow> InstanceBudget \<times> BudgetChange" where
  "InstanceBudget_update_limits b limits = InstanceBudget_derive (b\<lparr>ib_limits := limits\<rparr>)"

definition InstanceBudget_set_margin :: "InstanceBudget \<Rightarrow> nat \<Rightarrow> InstanceBudget \<times> BudgetChange" where
  "InstanceBudget_set_margin b margin = InstanceBudget_derive (b\<lparr>ib_margin := margin\<rparr>)"

section \<open>The sliding window\<close>

lemma pop_front_while_subset: "set (pop_front_while P xs) \<subseteq> set xs"
  by (induction xs) auto

lemma pop_front_while_keeps: "x \<in> set xs \<Longrightarrow> \<not> P x \<Longrightarrow> x \<in> set (pop_front_while P xs)"
  by (induction xs) auto

lemma pop_front_while_sorted: "sorted_wrt R xs \<Longrightarrow> sorted_wrt R (pop_front_while P xs)"
  by (induction xs) auto

lemma pop_front_while_all:
  assumes "sorted_wrt R xs" "\<And>x y. R x y \<Longrightarrow> P y \<Longrightarrow> P x" "x \<in> set (pop_front_while P xs)"
  shows "\<not> P x"
  using assms(1,3) by (induction xs) (use assms(2) in \<open>auto split: if_splits\<close>)

lemma pop_back_while_subset: "set (pop_back_while P xs) \<subseteq> set xs"
  using pop_front_while_subset [of P "rev xs"] by (simp add: pop_back_while_def)

lemma pop_back_while_keeps: "x \<in> set xs \<Longrightarrow> \<not> P x \<Longrightarrow> x \<in> set (pop_back_while P xs)"
  using pop_front_while_keeps [of x "rev xs" P] by (simp add: pop_back_while_def)

lemma pop_back_while_sorted: "sorted_wrt R xs \<Longrightarrow> sorted_wrt R (pop_back_while P xs)"
  using pop_front_while_sorted [of "\<lambda>x y. R y x" "rev xs" P]
  by (simp add: pop_back_while_def sorted_wrt_rev)

lemma pop_back_while_all:
  assumes "sorted_wrt R xs" "\<And>x y. R x y \<Longrightarrow> P x \<Longrightarrow> P y" "x \<in> set (pop_back_while P xs)"
  shows "\<not> P x"
  using pop_front_while_all [of "\<lambda>x y. R y x" "rev xs" P x] assms
  by (simp add: pop_back_while_def sorted_wrt_rev)

text \<open>
  The queue after a history of samples: times ascend while counts strictly descend, everything in it
  is recent, and every recent sample of the history is dominated by a later one in the queue.
\<close>

abbreviation descending :: "(nat \<times> nat) list \<Rightarrow> bool" where
  "descending \<equiv> sorted_wrt (\<lambda>a b. fst a \<le> fst b \<and> snd b < snd a)"

definition peak_inv :: "ForeignPeak \<Rightarrow> (nat \<times> nat) list \<Rightarrow> bool" where
  "peak_inv p seen \<longleftrightarrow>
     descending (peak_samples p)
     \<and> (\<forall>(t, c) \<in> set (peak_samples p). (t, c) \<in> set seen \<and> (\<forall>(now, _) \<in> set seen. now - t \<le> peak_window p))
     \<and> (\<forall>(t, c) \<in> set seen. (\<forall>(now, _) \<in> set seen. now - t \<le> peak_window p) \<longrightarrow>
          (\<exists>(t', c') \<in> set (peak_samples p). t \<le> t' \<and> c \<le> c'))"

lemma peak_window_observe [simp]: "peak_window (ForeignPeak_observe p at cnt) = peak_window p"
  by (simp add: ForeignPeak_observe_def Let_def)

lemma window_latest:
  fixes at t w :: nat
  assumes "(at, c) \<in> set seen" "\<forall>(now, _) \<in> set seen. now \<le> at"
  shows "(\<forall>(now, _) \<in> set seen. now - t \<le> w) \<longleftrightarrow> at - t \<le> w"
proof
  assume "at - t \<le> w"
  then have "now - t \<le> w" if "now \<le> at" for now using that by linarith
  with assms(2) show "\<forall>(now, _) \<in> set seen. now - t \<le> w" by auto
qed (use assms(1) in auto)

lemma peak_inv_observe:
  assumes ok: "peak_inv p seen" and later: "\<forall>(t, _) \<in> set seen. t \<le> at"
  shows "peak_inv (ForeignPeak_observe p at cnt) (seen @ [(at, cnt)])"
proof -
  let ?old = "\<lambda>(t, _::nat). \<not> at - t \<le> peak_window p" and ?low = "\<lambda>(_::nat, c). \<not> c > cnt"
  let ?s1 = "pop_front_while ?old (peak_samples p)"
  let ?s2 = "pop_back_while ?low ?s1"
  have new: "peak_samples (ForeignPeak_observe p at cnt) = ?s2 @ [(at, cnt)]"
    by (simp add: ForeignPeak_observe_def Let_def)
  have d0: "descending (peak_samples p)" using ok by (simp add: peak_inv_def)
  then have d1: "descending ?s1" and d2: "descending ?s2"
    by (auto intro: pop_front_while_sorted pop_back_while_sorted)
  have sub: "set ?s2 \<subseteq> set (peak_samples p)"
    using pop_back_while_subset pop_front_while_subset by (meson subset_trans)
  have s1: "\<not> ?old x" if "x \<in> set ?s1" for x
    by (rule pop_front_while_all [OF d0 _ that]) auto
  have s2: "\<not> ?low x" if "x \<in> set ?s2" for x
    by (rule pop_back_while_all [OF d1 _ that]) auto
  have hist: "(t, c) \<in> set seen \<and> t \<le> at" if "(t, c) \<in> set (peak_samples p)" for t c
    using ok later that by (fastforce simp: peak_inv_def)
  have recent: "at - t \<le> peak_window p" if "(t, c) \<in> set ?s2" for t c
    using s1 [of "(t, c)"] that pop_back_while_subset [of ?low ?s1] by auto
  have desc: "descending (?s2 @ [(at, cnt)])"
    using d2 s2 hist sub by (fastforce simp: sorted_wrt_append)
  have window: "(\<forall>(now, _) \<in> set (seen @ [(at, cnt)]). now - t \<le> peak_window p) \<longleftrightarrow> at - t \<le> peak_window p" for t
    using later by (intro window_latest [of at cnt]) auto
  have mem: "(t, c) \<in> set (seen @ [(at, cnt)]) \<and> (\<forall>(now, _) \<in> set (seen @ [(at, cnt)]). now - t \<le> peak_window p)"
    if "(t, c) \<in> set (?s2 @ [(at, cnt)])" for t c
    unfolding window using that recent [of t c] hist [of t c] sub by auto
  have dom: "\<exists>(t', c') \<in> set (?s2 @ [(at, cnt)]). t \<le> t' \<and> c \<le> c'"
    if x: "(t, c) \<in> set (seen @ [(at, cnt)])" "\<forall>(now, _) \<in> set (seen @ [(at, cnt)]). now - t \<le> peak_window p"
    for t c
  proof (cases "(t, c) \<in> set seen")
    case True
    moreover from x(2) have "\<forall>(now, _) \<in> set seen. now - t \<le> peak_window p" by simp
    ultimately obtain t' c' where y: "(t', c') \<in> set (peak_samples p)" "t \<le> t'" "c \<le> c'"
      using ok unfolding peak_inv_def by blast
    have "(t', c') \<in> set ?s1"
      using x y by (intro pop_front_while_keeps) auto
    then have "(t', c') \<in> set ?s2 \<or> c' \<le> cnt"
      using pop_back_while_keeps [of "(t', c')" ?s1 ?low] by auto
    then show ?thesis using y hist [OF y(1)] by fastforce
  qed (use x in auto)
  show ?thesis
    unfolding peak_inv_def new peak_window_observe using desc mem dom by blast
qed

lemma peak_inv_peak:
  assumes ok: "peak_inv p seen" and ne: "seen \<noteq> []" and last: "\<forall>(t, _) \<in> set seen. t \<le> fst (last seen)"
  shows "ForeignPeak_peak p = Max {c. \<exists>t. (t, c) \<in> set seen \<and> fst (last seen) - t \<le> peak_window p}"
proof -
  let ?S = "{c. \<exists>t. (t, c) \<in> set seen \<and> fst (last seen) - t \<le> peak_window p}"
  have in_window: "(\<forall>(now, _) \<in> set seen. now - t \<le> peak_window p) \<longleftrightarrow> fst (last seen) - t \<le> peak_window p" for t
    using last_in_set [OF ne] last by (intro window_latest [of _ "snd (last seen)"]) simp_all
  have dom: "\<exists>(t', c') \<in> set (peak_samples p). c \<le> c'" if "c \<in> ?S" for c
    using that ok in_window unfolding peak_inv_def by fastforce
  have "snd (last seen) \<in> ?S" using last_in_set [OF ne] by (auto intro: exI [of _ "fst (last seen)"])
  with dom obtain t0 c0 rest where s: "peak_samples p = (t0, c0) # rest"
    by (cases "peak_samples p") fastforce+
  have top: "c \<le> c0" if "(t, c) \<in> set (peak_samples p)" for t c
    using ok that by (fastforce simp: peak_inv_def s)
  have "c0 \<in> ?S" using ok in_window by (auto simp: peak_inv_def s)
  moreover have "c \<le> c0" if "c \<in> ?S" for c using dom [OF that] top by fastforce
  moreover have "finite ?S" by (rule finite_subset [of _ "snd ` set seen"]) force+
  ultimately have "Max ?S = c0" by (intro Max_eqI)
  then show ?thesis by (simp add: ForeignPeak_peak_def s)
qed

section \<open>Sequences of updates\<close>

datatype budget_op = Observe nat nat | Update_limits ServerLimits | Set_margin nat

fun budget_apply :: "InstanceBudget \<Rightarrow> budget_op \<Rightarrow> InstanceBudget \<times> BudgetChange" where
  "budget_apply b (Observe at n) = InstanceBudget_observe b at n"
| "budget_apply b (Update_limits limits) = InstanceBudget_update_limits b limits"
| "budget_apply b (Set_margin margin) = InstanceBudget_set_margin b margin"

definition budget_run :: "InstanceBudget \<Rightarrow> budget_op list \<Rightarrow> InstanceBudget" where
  "budget_run b ops = foldl (\<lambda>b op. fst (budget_apply b op)) b ops"

fun observed :: "budget_op list \<Rightarrow> (nat \<times> nat) list" where
  "observed [] = []"
| "observed (Observe at n # ops) = (at, n) # observed ops"
| "observed (_ # ops) = observed ops"

definition window_peak :: "nat \<Rightarrow> (nat \<times> nat) list \<Rightarrow> nat" where
  "window_peak w seen = Max (insert 0 (set (map snd (filter (\<lambda>(t, _). fst (last seen) - t \<le> w) seen))))"

lemma observed_append: "observed (xs @ ys) = observed xs @ observed ys"
  by (induction xs rule: observed.induct) auto

lemma budget_run_snoc: "budget_run b (ops @ [op]) = fst (budget_apply (budget_run b ops) op)"
  by (simp add: budget_run_def)

lemma derive_frame [simp]:
  "ib_limits (fst (InstanceBudget_derive b)) = ib_limits b"
  "ib_margin (fst (InstanceBudget_derive b)) = ib_margin b"
  "ib_peak (fst (InstanceBudget_derive b)) = ib_peak b"
  "ib_budget (fst (InstanceBudget_derive b)) = InstanceBudget_with_margin b (ib_margin b)"
  by (simp_all add: InstanceBudget_derive_def InstanceBudget_with_margin_def Let_def)

lemmas budget_op_defs = InstanceBudget_observe_def InstanceBudget_update_limits_def InstanceBudget_set_margin_def

lemma budget_apply_derived:
  "ib_budget (fst (budget_apply b op))
     = InstanceBudget_with_margin (fst (budget_apply b op)) (ib_margin (fst (budget_apply b op)))"
  by (cases op) (simp_all add: budget_op_defs InstanceBudget_with_margin_def)

lemma budget_run_derived:
  "ib_budget (budget_run (InstanceBudget_new limits margin window) ops)
     = InstanceBudget_with_margin (budget_run (InstanceBudget_new limits margin window) ops)
         (ib_margin (budget_run (InstanceBudget_new limits margin window) ops))"
  by (cases ops rule: rev_cases)
    (simp_all add: budget_run_snoc budget_apply_derived,
     simp add: budget_run_def InstanceBudget_new_def InstanceBudget_with_margin_def Let_def)

lemma budget_run_peak_inv:
  assumes "sorted (map fst (observed ops))"
  shows "peak_window (ib_peak (budget_run (InstanceBudget_new limits margin window) ops)) = window
     \<and> peak_inv (ib_peak (budget_run (InstanceBudget_new limits margin window) ops)) (observed ops)"
  using assms
proof (induction ops rule: rev_induct)
  case Nil
  show ?case
    by (simp add: budget_run_def InstanceBudget_new_def ForeignPeak_new_def peak_inv_def Let_def)
next
  case (snoc op ops)
  from snoc.prems have "sorted (map fst (observed ops))"
    by (simp add: observed_append sorted_append)
  note IH = snoc.IH [OF this]
  show ?case
  proof (cases op)
    case (Observe at n)
    with snoc.prems have "\<forall>(t, _) \<in> set (observed ops). t \<le> at"
      by (auto simp: observed_append sorted_append)
    with IH peak_inv_observe show ?thesis
      by (simp add: Observe budget_run_snoc observed_append budget_op_defs)
  qed (use IH in \<open>simp_all add: budget_run_snoc observed_append budget_op_defs\<close>)
qed

lemma peak_inv_window_peak:
  assumes ok: "peak_inv p seen" and sorted: "sorted (map fst seen)"
  shows "ForeignPeak_peak p = window_peak (peak_window p) seen"
proof (cases "seen = []")
  case True
  with ok have "peak_samples p = []" by (cases "peak_samples p") (auto simp: peak_inv_def)
  with True show ?thesis by (simp add: ForeignPeak_peak_def window_peak_def)
next
  case False
  let ?S = "{c. \<exists>t. (t, c) \<in> set seen \<and> fst (last seen) - t \<le> peak_window p}"
  have "\<forall>(t, _) \<in> set seen. t \<le> fst (last seen)"
  proof -
    have "seen = butlast seen @ [last seen]" using False by simp
    with sorted have "sorted (map fst (butlast seen) @ [fst (last seen)])"
      by (metis list.map(1,2) map_append)
    then have "\<forall>x \<in> set (butlast seen @ [last seen]). fst x \<le> fst (last seen)" by (auto simp: sorted_append)
    then show ?thesis using False by auto
  qed
  from peak_inv_peak [OF ok False this] have peak: "ForeignPeak_peak p = Max ?S" .
  have S: "set (map snd (filter (\<lambda>(t, _). fst (last seen) - t \<le> peak_window p) seen)) = ?S" by force
  have "snd (last seen) \<in> ?S" using last_in_set [OF False] by (auto intro: exI [of _ "fst (last seen)"])
  moreover have "finite ?S" by (rule finite_subset [of _ "snd ` set seen"]) force+
  ultimately show ?thesis unfolding peak window_peak_def S by (subst Max_insert) auto
qed

lemma total_exact:
  assumes "max_connections (in_limits i) \<le> u32_max"
  shows "tb_total (TotalBudget_derive i) = max_connections (in_limits i)
     - (superuser_reserved_connections (in_limits i) + reserved_connections (in_limits i)
        + in_foreign_peak i + in_margin i)"
  using assms
  by (auto simp: TotalBudget_derive_def BudgetInputs_deductions_def ServerLimits_reserved_def
      sat_add32_def clamp32_def Let_def min_def)

section \<open>Properties\<close>

text \<open>
  C31: The foreign peak the budget is derived from is the maximum of the window: after samples taken
  at non-decreasing times, \<open>peak\<close> is the largest count among the samples at most one window older
  than the latest, although the queue keeps only a descending part of them.
\<close>

theorem foreign_peak_is_window_maximum:
  assumes "sorted (map fst seen)"
  shows "ForeignPeak_peak (foldl (\<lambda>p (at, n). ForeignPeak_observe p at n) (ForeignPeak_new window) seen)
     = window_peak window seen"
proof -
  have "peak_window (foldl (\<lambda>p (at, n). ForeignPeak_observe p at n) (ForeignPeak_new window) seen) = window
      \<and> peak_inv (foldl (\<lambda>p (at, n). ForeignPeak_observe p at n) (ForeignPeak_new window) seen) seen"
    using assms
  proof (induction seen rule: rev_induct)
    case (snoc x xs)
    then show ?case by (cases x) (auto simp: sorted_append intro!: peak_inv_observe)
  qed (simp add: ForeignPeak_new_def peak_inv_def)
  with peak_inv_window_peak assms show ?thesis by metis
qed

theorem foreign_peak_is_window_maximum_witness:
  "ForeignPeak_peak (foldl (\<lambda>p (at, n). ForeignPeak_observe p at n) (ForeignPeak_new 10)
     [(0, 9), (5, 3), (8, 7), (12, 2), (13, 4)]) = 7"
proof -
  have "window_peak 10 [(0, 9), (5, 3), (8, 7), (12, 2), (13, 4)] = 7"
    by (simp add: window_peak_def)
  with foreign_peak_is_window_maximum [of "[(0, 9), (5, 3), (8, 7), (12, 2), (13, 4)]" 10]
  show ?thesis by simp
qed



text \<open>
  An update reports the direction of the change truthfully: \<open>Grew\<close> and \<open>Shrank\<close> carry the total
  before and after the update in that order, and \<open>Unchanged\<close> is answered exactly when they are equal.
\<close>

theorem budget_change_direction:
  "case snd (budget_apply b op) of
     Unchanged \<Rightarrow> tb_total (ib_budget (fst (budget_apply b op))) = tb_total (ib_budget b)
   | Grew x y \<Rightarrow> x = tb_total (ib_budget b) \<and> y = tb_total (ib_budget (fst (budget_apply b op))) \<and> x < y
   | Shrank x y \<Rightarrow> x = tb_total (ib_budget b) \<and> y = tb_total (ib_budget (fst (budget_apply b op))) \<and> y < x"
  by (cases op) (auto simp: budget_op_defs InstanceBudget_derive_def Let_def cmp_def)

end
