(* ===== verification/Policy.thy ===== *)
theory Policy
  imports Allocation
begin

text \<open>
  The cluster's tenant rules (\<^verbatim>\<open>crates/core/src/policy.rs\<close>, with \<open>TenantPolicy\<close> of
  \<^verbatim>\<open>crates/core/src/grant.rs\<close>): their resolution from the most specific key to the wildcard, the
  settings an operator writes into them, and the weighted choice of an instance for a new client.
  The properties show that an accepted setting keeps the minimums within every derived budget, what
  each rejection means, and that routing follows the weights exactly.
\<close>

section \<open>Definitions\<close>

record TenantPolicy =
  policy_min :: nat
  policy_max :: nat
  policy_weight :: nat

record PolicyChange =
  change_min :: "nat option"
  change_max :: "nat option"
  change_weight :: "nat option"

datatype SettingError =
    NoSuchTenant string
  | NoSuchInstance InstanceId
  | MinAboveMax nat nat
  | ZeroWeight
  | AboveBudget InstanceId nat nat

record TenantRule =
  rule_instances :: "InstanceId list"
  rule_policy :: TenantPolicy

record Policies =
  policies_weights :: "(InstanceId, nat) btree_map"
  policies_rules :: "(string, TenantRule) btree_map"

definition Policies_new :: Policies where
  "Policies_new = \<lparr>policies_weights = [], policies_rules = []\<rparr>"

definition Policies_instance :: "Policies \<Rightarrow> InstanceId \<Rightarrow> nat \<Rightarrow> Policies" where
  "Policies_instance p i weight = p\<lparr>policies_weights := bt_insert i weight (policies_weights p)\<rparr>"

definition Policies_tenant :: "Policies \<Rightarrow> string \<Rightarrow> TenantRule \<Rightarrow> Policies" where
  "Policies_tenant p key rule = p\<lparr>policies_rules := bt_insert key rule (policies_rules p)\<rparr>"

definition Policies_rule :: "Policies \<Rightarrow> string \<Rightarrow> TenantRule option" where
  "Policies_rule p tenant = bt_get (policies_rules p) tenant"

definition Policies_minimums_on :: "Policies \<Rightarrow> InstanceId \<Rightarrow> nat" where
  "Policies_minimums_on p i =
     fold (\<lambda>x acc. sat_add32 acc x)
       (map (\<lambda>rule. policy_min (rule_policy rule))
         (filter (\<lambda>rule. i \<in> set (rule_instances rule)) (map snd (policies_rules p)))) 0"

fun check_budgets :: "Policies \<Rightarrow> (InstanceId \<Rightarrow> nat option) \<Rightarrow> InstanceId list \<Rightarrow> SettingError + Policies" where
  "check_budgets changed budget [] = Inr changed"
| "check_budgets changed budget (i # instances) =
     (let minimums = Policies_minimums_on changed i
      in case budget i of
           Some b \<Rightarrow> if minimums > b then Inl (AboveBudget i minimums b)
                     else check_budgets changed budget instances
         | None \<Rightarrow> check_budgets changed budget instances)"

definition Policies_change_tenant ::
    "Policies \<Rightarrow> string \<Rightarrow> PolicyChange \<Rightarrow> (InstanceId \<Rightarrow> nat option) \<Rightarrow> SettingError + Policies" where
  "Policies_change_tenant p tenant change budget =
     (case Policies_rule p tenant of
        None \<Rightarrow> Inl (NoSuchTenant tenant)
      | Some rule \<Rightarrow>
          (case (case change_weight change of
                   Some weight \<Rightarrow> if weight = 0 then Inl ZeroWeight else Inr weight
                 | None \<Rightarrow> Inr (policy_weight (rule_policy rule))) of
             Inl err \<Rightarrow> Inl err
           | Inr weight \<Rightarrow>
               (let policy = \<lparr>policy_min = (case change_min change of Some m \<Rightarrow> m | None \<Rightarrow> policy_min (rule_policy rule)),
                              policy_max = (case change_max change of Some m \<Rightarrow> m | None \<Rightarrow> policy_max (rule_policy rule)),
                              policy_weight = weight\<rparr>
                in if policy_min policy > policy_max policy
                   then Inl (MinAboveMax (policy_min policy) (policy_max policy))
                   else let changed = p\<lparr>policies_rules :=
                              bt_insert tenant (rule\<lparr>rule_policy := policy\<rparr>) (policies_rules p)\<rparr>
                        in check_budgets changed budget (rule_instances rule))))"

definition WILDCARD :: string where
  "WILDCARD = ''*''"

definition Policies_resolve :: "Policies \<Rightarrow> TenantId \<Rightarrow> TenantRule option" where
  "Policies_resolve p tenant =
     (case bt_get (policies_rules p) (TenantId_display tenant) of
        Some rule \<Rightarrow> Some rule
      | None \<Rightarrow>
          (case bt_get (policies_rules p) (TenantId_user tenant) of
             Some rule \<Rightarrow> Some rule
           | None \<Rightarrow> bt_get (policies_rules p) WILDCARD))"

definition Policies_policy :: "Policies \<Rightarrow> InstanceId \<Rightarrow> TenantId \<Rightarrow> TenantPolicy option" where
  "Policies_policy p i tenant =
     (case Policies_resolve p tenant of
        None \<Rightarrow> None
      | Some rule \<Rightarrow> if i \<in> set (rule_instances rule) then Some (rule_policy rule) else None)"

definition instance_weight :: "Policies \<Rightarrow> InstanceId \<Rightarrow> nat" where
  "instance_weight p i = bt_get_or 1 (policies_weights p) i"

fun route_loop :: "(InstanceId \<Rightarrow> nat) \<Rightarrow> InstanceId list \<Rightarrow> nat \<Rightarrow> InstanceId option" where
  "route_loop weight [] left = None"
| "route_loop weight (i # instances) left =
     (if left < weight i then Some i else route_loop weight instances (left - weight i))"

text \<open>The sum of the weights is a \<open>u32\<close> and wraps.\<close>

definition Policies_route :: "Policies \<Rightarrow> TenantId \<Rightarrow> (nat \<Rightarrow> nat) \<Rightarrow> InstanceId option" where
  "Policies_route p tenant roll =
     (case Policies_resolve p tenant of
        None \<Rightarrow> None
      | Some rule \<Rightarrow>
          (let tot = (\<Sum>i \<leftarrow> rule_instances rule. instance_weight p i) mod (u32_max + 1)
           in if tot = 0 then None
              else route_loop (instance_weight p) (rule_instances rule) (roll tot mod tot)))"

section \<open>Settings\<close>

lemma minimums_on_sum:
  "Policies_minimums_on p i
     = clamp32 (\<Sum>rule \<leftarrow> filter (\<lambda>rule. i \<in> set (rule_instances rule)) (map snd (policies_rules p)).
         policy_min (rule_policy rule))"
  unfolding Policies_minimums_on_def by (rule fold_sat_add32_0)

lemma check_budgets_Inr:
  "check_budgets changed budget is = Inr p' \<longleftrightarrow>
     p' = changed \<and> (\<forall>i \<in> set is. \<forall>b. budget i = Some b \<longrightarrow> Policies_minimums_on changed i \<le> b)"
  by (induction changed budget "is" rule: check_budgets.induct)
    (auto simp: Let_def not_less split: option.splits)

lemma check_budgets_Inl:
  "check_budgets changed budget is = Inl err \<Longrightarrow>
     \<exists>i b. i \<in> set is \<and> budget i = Some b \<and> b < Policies_minimums_on changed i
       \<and> err = AboveBudget i (Policies_minimums_on changed i) b"
  by (induction "is") (auto simp: Let_def split: option.splits if_splits)

text \<open>The policy a change asks for: what it leaves out keeps its value.\<close>

definition changed_policy :: "PolicyChange \<Rightarrow> TenantPolicy \<Rightarrow> TenantPolicy" where
  "changed_policy change policy =
     \<lparr>policy_min = (case change_min change of Some m \<Rightarrow> m | None \<Rightarrow> policy_min policy),
      policy_max = (case change_max change of Some m \<Rightarrow> m | None \<Rightarrow> policy_max policy),
      policy_weight = (case change_weight change of Some w \<Rightarrow> w | None \<Rightarrow> policy_weight policy)\<rparr>"

lemma change_tenant_cases:
  "Policies_change_tenant p tenant change budget =
     (case Policies_rule p tenant of
        None \<Rightarrow> Inl (NoSuchTenant tenant)
      | Some rule \<Rightarrow>
          let policy = changed_policy change (rule_policy rule)
          in if change_weight change = Some 0 then Inl ZeroWeight
             else if policy_min policy > policy_max policy
             then Inl (MinAboveMax (policy_min policy) (policy_max policy))
             else check_budgets
               (p\<lparr>policies_rules := bt_insert tenant (rule\<lparr>rule_policy := policy\<rparr>) (policies_rules p)\<rparr>)
               budget (rule_instances rule))"
  by (auto simp: Policies_change_tenant_def changed_policy_def Let_def split: option.splits)

section \<open>Routing\<close>

lemma route_loop_Some: "left < (\<Sum>i \<leftarrow> is. weight i) \<Longrightarrow> \<exists>i \<in> set is. route_loop weight is left = Some i"
  by (induction weight "is" left rule: route_loop.induct) auto

lemma route_loop_mem: "route_loop weight is left = Some i \<Longrightarrow> i \<in> set is"
  by (induction weight "is" left rule: route_loop.induct) (auto split: if_splits)

lemma route_loop_card:
  assumes "distinct is" "i \<in> set is"
  shows "card {r. r < (\<Sum>i \<leftarrow> is. weight i) \<and> route_loop weight is r = Some i} = weight i"
  using assms
proof (induction "is")
  case (Cons j js)
  let ?S = "\<lambda>is. {r. r < (\<Sum>i \<leftarrow> is. weight i) \<and> route_loop weight is r = Some i}"
  show ?case
  proof (cases "i = j")
    case True
    with Cons.prems have "i \<notin> set js" by simp
    then have "?S (j # js) = {..<weight i}"
      by (auto simp: True dest: route_loop_mem split: if_splits)
    then show ?thesis by simp
  next
    case False
    have "?S (j # js) = (\<lambda>r. r + weight j) ` ?S js"
      using False
      by (auto simp: image_iff not_less split: if_splits)
        (metis add.commute le_add_diff_inverse nat_add_left_cancel_less)
    then show ?thesis using Cons False by (simp add: card_image)
  qed
qed simp

section \<open>Properties\<close>

text \<open>The minimums the rules on an instance reserve, before saturation.\<close>

definition reserved_on :: "Policies \<Rightarrow> InstanceId \<Rightarrow> nat" where
  "reserved_on p i = (\<Sum>rule \<leftarrow> filter (\<lambda>rule. i \<in> set (rule_instances rule)) (map snd (policies_rules p)).
     policy_min (rule_policy rule))"

text \<open>
  An accepted setting changes the named rule only, as asked and with its other parts kept, and
  leaves it sound: the minimum is at most the maximum, the weight is not set to zero, and on every
  instance of the rule with a derived budget the minimums of all rules together fit that budget.
\<close>

theorem change_tenant_accepted:
  assumes "Policies_change_tenant p tenant change budget = Inr p'"
  shows "\<exists>rule. Policies_rule p tenant = Some rule
     \<and> Policies_rule p' = (Policies_rule p)(tenant \<mapsto> rule\<lparr>rule_policy := changed_policy change (rule_policy rule)\<rparr>)
     \<and> policies_weights p' = policies_weights p
     \<and> policy_min (changed_policy change (rule_policy rule)) \<le> policy_max (changed_policy change (rule_policy rule))
     \<and> change_weight change \<noteq> Some 0
     \<and> (\<forall>i b. i \<in> set (rule_instances rule) \<longrightarrow> budget i = Some b \<longrightarrow> b < u32_max \<longrightarrow> reserved_on p' i \<le> b)"
proof -
  obtain rule where rule: "Policies_rule p tenant = Some rule"
    using assms by (auto simp: change_tenant_cases split: option.splits)
  let ?pol = "changed_policy change (rule_policy rule)"
  let ?p = "p\<lparr>policies_rules := bt_insert tenant (rule\<lparr>rule_policy := ?pol\<rparr>) (policies_rules p)\<rparr>"
  from assms rule have ok: "change_weight change \<noteq> Some 0" "policy_min ?pol \<le> policy_max ?pol"
    and check: "check_budgets ?p budget (rule_instances rule) = Inr p'"
    by (auto simp: change_tenant_cases Let_def split: if_splits)
  from check have p': "p' = ?p"
    and fits: "\<And>i b. i \<in> set (rule_instances rule) \<Longrightarrow> budget i = Some b \<Longrightarrow> Policies_minimums_on p' i \<le> b"
    by (auto simp: check_budgets_Inr)
  have "reserved_on p' i \<le> b"
    if "i \<in> set (rule_instances rule)" "budget i = Some b" "b < u32_max" for i b
    using fits [OF that(1,2)] that(3)
    by (simp add: minimums_on_sum reserved_on_def clamp32_def min_def split: if_splits)
  with rule ok show ?thesis
    by (auto simp: p' Policies_rule_def fun_eq_iff)
qed

theorem change_tenant_accepted_witness:
  "let p = Policies_tenant Policies_new ''app''
         \<lparr>rule_instances = [InstanceId ''db1''], rule_policy = \<lparr>policy_min = 1, policy_max = 5, policy_weight = 1\<rparr>\<rparr>;
       p' = projr (Policies_change_tenant p ''app'' \<lparr>change_min = Some 4, change_max = None, change_weight = None\<rparr>
              (\<lambda>_. Some 10))
   in reserved_on p' (InstanceId ''db1'') \<le> 10"
proof -
  let ?rule = "\<lparr>rule_instances = [InstanceId ''db1''], rule_policy = \<lparr>policy_min = 1, policy_max = 5, policy_weight = 1\<rparr>\<rparr>"
  let ?p = "Policies_tenant Policies_new ''app'' ?rule"
  let ?c = "Policies_change_tenant ?p ''app'' \<lparr>change_min = Some 4, change_max = None, change_weight = None\<rparr> (\<lambda>_. Some 10)"
  have "isl ?c = False" by code_simp
  then have "?c = Inr (projr ?c)" by (cases ?c) auto
  from change_tenant_accepted [OF this] have "\<forall>i b. i \<in> set (rule_instances ?rule) \<longrightarrow> Some 10 = Some b
      \<longrightarrow> b < u32_max \<longrightarrow> reserved_on (projr ?c) i \<le> b"
    by (auto simp: Policies_rule_def Policies_tenant_def Policies_new_def bt_get_Cons)
  then show ?thesis by (simp add: u32_max_def)
qed

text \<open>
  A rejected setting says why: the rule does not exist, the weight asked for is zero, the minimum
  asked for is above the maximum, or, with the setting written, the minimums on an instance of the
  rule exceed that instance's derived budget. No other error is answered.
\<close>

theorem change_tenant_rejected:
  assumes "Policies_change_tenant p tenant change budget = Inl err"
  shows "case err of
     NoSuchTenant name \<Rightarrow> name = tenant \<and> Policies_rule p tenant = None
   | NoSuchInstance _ \<Rightarrow> False
   | ZeroWeight \<Rightarrow> change_weight change = Some 0
   | MinAboveMax low high \<Rightarrow> high < low \<and> (\<exists>rule. Policies_rule p tenant = Some rule
        \<and> low = policy_min (changed_policy change (rule_policy rule))
        \<and> high = policy_max (changed_policy change (rule_policy rule)))
   | AboveBudget i minimums b \<Rightarrow> b < minimums \<and> budget i = Some b
        \<and> (\<exists>rule. Policies_rule p tenant = Some rule \<and> i \<in> set (rule_instances rule))"
  using assms
  by (auto simp: change_tenant_cases Let_def split: option.splits if_splits dest!: check_budgets_Inl)

theorem change_tenant_rejected_witness:
  "Policies_change_tenant Policies_new ''app'' \<lparr>change_min = None, change_max = None, change_weight = None\<rparr>
     (\<lambda>_. None) = Inl (NoSuchTenant ''app'')
   \<and> Policies_rule Policies_new ''app'' = None"
proof -
  let ?c = "\<lparr>change_min = None, change_max = None, change_weight = None\<rparr>"
  have "Policies_change_tenant Policies_new ''app'' ?c (\<lambda>_. None) = Inl (NoSuchTenant ''app'')"
    by (simp add: Policies_change_tenant_def Policies_rule_def Policies_new_def)
  with change_tenant_rejected [OF this] show ?thesis by simp
qed

text \<open>
  Routing follows the weights. When a tenant's rule lists distinct instances whose weights do not
  sum past 32 bits, every roll picks an instance of the rule, and among the rolls below the sum each
  instance is picked by exactly as many as its weight.
\<close>

theorem route_proportional:
  assumes "Policies_resolve p tenant = Some rule" "distinct (rule_instances rule)"
    and "0 < (\<Sum>i \<leftarrow> rule_instances rule. instance_weight p i)"
    and "(\<Sum>i \<leftarrow> rule_instances rule. instance_weight p i) \<le> u32_max"
    and "i \<in> set (rule_instances rule)"
  shows "(\<exists>j \<in> set (rule_instances rule). Policies_route p tenant roll = Some j)
     \<and> card {r. r < (\<Sum>i \<leftarrow> rule_instances rule. instance_weight p i) \<and> Policies_route p tenant (\<lambda>_. r) = Some i}
         = instance_weight p i"
proof -
  let ?tot = "\<Sum>i \<leftarrow> rule_instances rule. instance_weight p i"
  have route: "Policies_route p tenant r = route_loop (instance_weight p) (rule_instances rule) (r ?tot mod ?tot)" for r
  proof -
    have "?tot mod (u32_max + 1) = ?tot" "?tot \<noteq> 0" using assms(3,4) by (simp_all only: less_Suc_eq_le Suc_eq_plus1 [symmetric] mod_less neq0_conv)
    then show ?thesis unfolding Policies_route_def assms(1) Let_def option.case by (simp only: if_False)
  qed
  have "roll ?tot mod ?tot < ?tot" using assms(3) by simp
  from route_loop_Some [OF this] have "\<exists>j \<in> set (rule_instances rule). Policies_route p tenant roll = Some j"
    by (simp add: route)
  moreover have "{r. r < ?tot \<and> Policies_route p tenant (\<lambda>_. r) = Some i}
      = {r. r < ?tot \<and> route_loop (instance_weight p) (rule_instances rule) r = Some i}"
    by (auto simp: route)
  ultimately show ?thesis using route_loop_card [OF assms(2,5)] by simp
qed

theorem route_proportional_witness:
  "let p = Policies_instance (Policies_tenant Policies_new ''*''
         \<lparr>rule_instances = [InstanceId ''a'', InstanceId ''b''],
          rule_policy = \<lparr>policy_min = 1, policy_max = 5, policy_weight = 1\<rparr>\<rparr>) (InstanceId ''b'') 3
   in card {r. r < 4 \<and> Policies_route p (TenantId ''u'' ''d'') (\<lambda>_. r) = Some (InstanceId ''b'')} = 3"
proof -
  let ?rule = "\<lparr>rule_instances = [InstanceId ''a'', InstanceId ''b''],
          rule_policy = \<lparr>policy_min = 1, policy_max = 5, policy_weight = 1\<rparr>\<rparr>"
  let ?p = "Policies_instance (Policies_tenant Policies_new ''*'' ?rule) (InstanceId ''b'') 3"
  have res: "Policies_resolve ?p (TenantId ''u'' ''d'') = Some ?rule" by code_simp
  have w: "(\<Sum>i \<leftarrow> rule_instances ?rule. instance_weight ?p i) = 4" "instance_weight ?p (InstanceId ''b'') = 3"
    by code_simp+
  show ?thesis
    unfolding Let_def
    using route_proportional [OF res, unfolded w(1), of "InstanceId ''b''", THEN conjunct2] w(2)
    by (simp add: u32_max_def)
qed

text \<open>
  The sum of the weights is computed in 32 bits and wraps: a tenant whose two instances weigh
  \<open>2^31\<close> each is routed nowhere, whatever the roll.
\<close>

theorem route_weight_overflow:
  "Policies_route
     (Policies_instance (Policies_instance (Policies_tenant Policies_new ''*''
        \<lparr>rule_instances = [InstanceId ''a'', InstanceId ''b''],
         rule_policy = \<lparr>policy_min = 0, policy_max = 5, policy_weight = 1\<rparr>\<rparr>)
        (InstanceId ''a'') 2147483648) (InstanceId ''b'') 2147483648)
     (TenantId ''u'' ''d'') roll = None"
  by code_simp

end
