(* ===== verification/Grant.thy ===== *)
theory Grant
  imports Fair Split Allocation Budget Policy
begin

text \<open>
  The coordinator of \<^verbatim>\<open>crates/core/src/grant.rs\<close>: it turns the proxies' reports into a desired state,
  writes it through the allocation table and publishes what changed. The allocator is an argument
  of the operations; the lemmas use only the contract of the allocator interface. A \<open>watch\<close> channel
  is its current value, and the mutex makes every operation one step on the state.
\<close>

section \<open>Reports and grants\<close>

type_synonym Slot = "InstanceId \<times> TenantId"

type_synonym allocator = "nat \<Rightarrow> TenantId Claim list \<Rightarrow> TenantId Grants"

record Usage =
  usage_demand :: nat
  usage_actual :: nat

definition Usage_default :: Usage where
  "Usage_default = \<lparr>usage_demand = 0, usage_actual = 0\<rparr>"

record Report =
  report_generation :: nat
  report_usage :: "(Slot, Usage) btree_map"

definition Report_new :: "nat \<Rightarrow> Report" where
  "Report_new gen = \<lparr>report_generation = gen, report_usage = []\<rparr>"

definition Report_usage :: "Report \<Rightarrow> InstanceId \<Rightarrow> TenantId \<Rightarrow> Usage \<Rightarrow> Report" where
  "Report_usage r i tenant usage = r\<lparr>report_usage := bt_insert (i, tenant) usage (report_usage r)\<rparr>"

definition Report_get :: "Report \<Rightarrow> InstanceId \<Rightarrow> TenantId \<Rightarrow> Usage" where
  "Report_get r i tenant = bt_get_or Usage_default (report_usage r) (i, tenant)"

record GrantSet =
  gs_generation :: nat
  gs_grants :: "(Slot, nat) btree_map"

definition GrantSet_default :: GrantSet where
  "GrantSet_default = \<lparr>gs_generation = 0, gs_grants = []\<rparr>"

definition GrantSet_get :: "GrantSet \<Rightarrow> InstanceId \<Rightarrow> TenantId \<Rightarrow> nat" where
  "GrantSet_get g i tenant = bt_get_or 0 (gs_grants g) (i, tenant)"

definition GrantSet_iter :: "GrantSet \<Rightarrow> (InstanceId \<times> TenantId \<times> nat) list" where
  "GrantSet_iter g = map (\<lambda>((i, tenant), slots). (i, tenant, slots)) (gs_grants g)"

section \<open>The coordinator's state\<close>

record Held =
  held_changed_at :: nat
  held_occupied :: nat

definition Held_default :: Held where
  "Held_default = \<lparr>held_changed_at = 0, held_occupied = 0\<rparr>"

record ProxyState =
  ps_grants :: GrantSet
  ps_demand :: "(Slot, nat) btree_map"
  ps_held :: "(Slot, Held) btree_map"
  ps_departed :: bool
  ps_idle_since :: "(Slot, nat) btree_map"

definition ProxyState_new :: ProxyState where
  "ProxyState_new = \<lparr>ps_grants = GrantSet_default, ps_demand = [], ps_held = [],
     ps_departed = False, ps_idle_since = []\<rparr>"

definition ProxyState_occupied :: "ProxyState \<Rightarrow> Slot \<Rightarrow> nat" where
  "ProxyState_occupied ps slot = (case bt_get (ps_held ps) slot of None \<Rightarrow> 0 | Some h \<Rightarrow> held_occupied h)"

record State =
  st_table :: AllocationTable
  st_budgets :: "(InstanceId, InstanceBudget) btree_map"
  st_policies :: Policies
  st_generation :: nat
  st_now :: "nat option"
  st_proxies :: "(ProxyId, ProxyState) btree_map"

definition State_default :: State where
  "State_default = \<lparr>st_table = AllocationTable_new, st_budgets = [], st_policies = Policies_new,
     st_generation = 0, st_now = None, st_proxies = []\<rparr>"

text \<open>\<open>state.proxies[proxy]\<close>; every proxy the operations look up is a key of the map.\<close>

definition proxy_at :: "State \<Rightarrow> ProxyId \<Rightarrow> ProxyState" where
  "proxy_at st proxy = bt_get_or ProxyState_new (st_proxies st) proxy"

definition published :: "AllocationTable \<Rightarrow> ProxyId \<Rightarrow> (Slot, nat) btree_map" where
  "published t proxy =
     bt_collect (map (\<lambda>(i, tenant, slots). ((i, tenant), slots)) (AllocationTable_grants_for t proxy))"

definition published_by_proxy :: "State \<Rightarrow> (ProxyId, (Slot, nat) btree_map) btree_map" where
  "published_by_proxy st =
     bt_collect (map (\<lambda>proxy. (proxy, published (st_table st) proxy)) (bt_keys (st_proxies st)))"

definition State_track_idle :: "State \<Rightarrow> State" where
  "State_track_idle st =
     (case st_now st of
        None \<Rightarrow> st
      | Some now \<Rightarrow>
          st\<lparr>st_proxies := bt_map (\<lambda>proxy ps.
            let idle = set_collect (map fst (filter (\<lambda>(slot, granted). bt_get_or 0 (ps_demand ps) slot < granted)
                         (published (st_table st) proxy)));
                idle_since = bt_retain (\<lambda>slot _. slot \<in> set idle) (ps_idle_since ps);
                idle_since = fold (\<lambda>slot m. if bt_contains m slot then m else bt_insert slot now m) idle idle_since
            in ps\<lparr>ps_idle_since := idle_since\<rparr>) (st_proxies st)\<rparr>)"

definition State_occupied_on :: "State \<Rightarrow> InstanceId \<Rightarrow> nat" where
  "State_occupied_on st i =
     fold (\<lambda>x acc. sat_add32 acc x)
       (map (\<lambda>(_, held). held_occupied held)
         (filter (\<lambda>((instance_of, _), _). instance_of = i)
           (concat (map (\<lambda>(_, ps). ps_held ps) (st_proxies st))))) 0"

definition tenants_on :: "ProxyState \<Rightarrow> InstanceId \<Rightarrow> TenantId list" where
  "tenants_on ps i =
     set_collect (map snd (filter (\<lambda>(instance_of, _). instance_of = i) (bt_keys (ps_demand ps) @ bt_keys (ps_held ps))))"

definition holders_on :: "State \<Rightarrow> InstanceId \<Rightarrow> (TenantId, ProxyId list) btree_map" where
  "holders_on st i =
     fold (\<lambda>(proxy, ps) holders.
        if ps_departed ps then holders
        else fold (\<lambda>tenant holders. bt_insert tenant (bt_get_or [] holders tenant @ [proxy]) holders)
               (tenants_on ps i) holders)
       (st_proxies st) []"

section \<open>The desired state\<close>

definition may_release :: "nat \<Rightarrow> State \<Rightarrow> ProxyState \<Rightarrow> Slot \<Rightarrow> bool" where
  "may_release release_delay st ps slot =
     (case (st_now st, bt_get (ps_idle_since ps) slot) of
        (Some now, Some since) \<Rightarrow> now - since \<ge> release_delay
      | _ \<Rightarrow> True)"

definition claim_of :: "nat \<Rightarrow> State \<Rightarrow> InstanceId \<Rightarrow> TenantId \<times> ProxyId list \<Rightarrow> TenantId Claim option" where
  "claim_of release_delay st i = (\<lambda>(tenant, proxies).
     (case Policies_policy (st_policies st) i tenant of
        None \<Rightarrow> None
      | Some policy \<Rightarrow>
          (let slot = (i, tenant);
               (demand, current, releasable) =
                 fold (\<lambda>proxy (demand, current, releasable).
                   let ps = proxy_at st proxy;
                       wanted = bt_get_or 0 (ps_demand ps) slot;
                       granted = AllocationTable_granted (st_table st) i (Holder tenant proxy)
                   in (sat_add32 demand wanted, sat_add32 current granted,
                       if granted > wanted \<and> \<not> may_release release_delay st ps slot then False else releasable))
                 proxies (0, 0, True)
           in Some \<lparr>claim_key = tenant, claim_min = policy_min policy, claim_max = policy_max policy,
                    claim_weight = policy_weight policy, claim_demand = demand, claim_current = current,
                    claim_may_release = releasable\<rparr>)))"

definition claims :: "nat \<Rightarrow> State \<Rightarrow> InstanceId \<Rightarrow> (TenantId, ProxyId list) btree_map \<Rightarrow> TenantId Claim list" where
  "claims release_delay st i holders = List.map_filter (claim_of release_delay st i) holders"

definition share_of :: "State \<Rightarrow> InstanceId \<Rightarrow> TenantId \<Rightarrow> ProxyId \<Rightarrow> ProxyId Share" where
  "share_of st i tenant proxy =
     \<lparr>share_key = proxy,
      share_demand = bt_get_or 0 (ps_demand (proxy_at st proxy)) (i, tenant),
      share_current = AllocationTable_granted (st_table st) i (Holder tenant proxy),
      share_may_release = False\<rparr>"

definition grant_share ::
    "State \<Rightarrow> Slot \<Rightarrow> (ProxyId, nat) btree_map \<Rightarrow> ProxyId Share \<Rightarrow> nat \<times> Desired \<Rightarrow> nat \<times> Desired" where
  "grant_share st slot parts share = (\<lambda>(available, desired).
     (let target = bt_get_or 0 parts (share_key share)
      in if target \<le> share_current share
         then (available, Desired_grant desired (Holder (snd slot) (share_key share)) target)
         else let occupied = ProxyState_occupied (proxy_at st (share_key share)) slot;
                  granted = min target (occupied + available);
                  available = available - (granted - occupied)
              in (available, Desired_grant desired (Holder (snd slot) (share_key share)) granted)))"

definition grant_tenant ::
    "State \<Rightarrow> InstanceId \<Rightarrow> (TenantId, ProxyId list) btree_map \<Rightarrow> TenantId Grants \<Rightarrow> TenantId
      \<Rightarrow> nat \<times> Desired \<Rightarrow> nat \<times> Desired" where
  "grant_tenant st i holders targets tenant acc =
     (let shares = map (share_of st i tenant) (bt_get_or [] holders tenant);
          parts = split (Grants_get targets tenant) shares
      in fold (grant_share st (i, tenant) parts) shares acc)"

definition desired_on :: "allocator \<Rightarrow> nat \<Rightarrow> State \<Rightarrow> InstanceId \<Rightarrow> InstanceBudget \<Rightarrow> Desired" where
  "desired_on alloc release_delay st i derived =
     (let budget = tb_total (ib_budget derived);
          holders = holders_on st i;
          tenants = set_collect (bt_keys holders);
          targets = alloc budget (claims release_delay st i holders);
          available = budget - State_occupied_on st i
      in snd (fold (grant_tenant st i holders targets) tenants (available, Desired_new budget)))"

definition desired_state :: "allocator \<Rightarrow> nat \<Rightarrow> State \<Rightarrow> Entry" where
  "desired_state alloc release_delay st =
     fold (\<lambda>(i, derived) entry. Entry_instance entry i (desired_on alloc release_delay st i derived))
       (st_budgets st) Entry_new"

section \<open>Reconciling\<close>

definition mark_changed ::
    "nat \<Rightarrow> (Slot, nat) btree_map \<Rightarrow> (Slot, nat) btree_map \<Rightarrow> Slot \<Rightarrow> (Slot, Held) btree_map \<Rightarrow> (Slot, Held) btree_map" where
  "mark_changed gen before after slot held =
     (let was = bt_get_or 0 before slot;
          now = bt_get_or 0 after slot
      in if was \<noteq> now
         then let h = bt_get_or Held_default held slot
              in bt_insert slot \<lparr>held_changed_at = gen, held_occupied = max (held_occupied h) now\<rparr> held
         else held)"

definition publish_proxy ::
    "nat \<Rightarrow> (Slot, nat) btree_map \<Rightarrow> (Slot, nat) btree_map \<Rightarrow> ProxyState \<Rightarrow> ProxyState" where
  "publish_proxy gen before after ps =
     (if before = after then ps
      else let held = fold (mark_changed gen before after) (bt_keys before @ bt_keys after) (ps_held ps);
               held = bt_retain (\<lambda>slot h. held_occupied h > 0 \<or> bt_contains after slot) held
           in ps\<lparr>ps_held := held, ps_grants := \<lparr>gs_generation = gen, gs_grants = after\<rparr>\<rparr>)"

definition reconcile :: "allocator \<Rightarrow> nat \<Rightarrow> State \<Rightarrow> State \<times> (PreconditionError + unit)" where
  "reconcile alloc release_delay st0 =
     (let st = State_track_idle st0;
          entry = desired_state alloc release_delay st;
          previous = published_by_proxy st;
          (table', res) = AllocationTable_apply (st_table st) entry;
          st = st\<lparr>st_table := table'\<rparr>
      in case res of
           Inl err \<Rightarrow> (st, Inl err)
         | Inr _ \<Rightarrow>
             (let nxt = published_by_proxy st
              in if nxt = previous then (st, Inr ())
                 else let gen = st_generation st + 1
                      in (st\<lparr>st_generation := gen,
                             st_proxies := bt_map (\<lambda>proxy ps.
                               publish_proxy gen (bt_get_or [] previous proxy) (bt_get_or [] nxt proxy) ps)
                               (st_proxies st)\<rparr>, Inr ())))"

definition reconcile_at :: "allocator \<Rightarrow> nat \<Rightarrow> nat \<Rightarrow> State \<Rightarrow> State \<times> (PreconditionError + unit)" where
  "reconcile_at alloc release_delay now st = reconcile alloc release_delay (st\<lparr>st_now := Some now\<rparr>)"

section \<open>The other operations\<close>

definition report_for :: "ProxyId \<Rightarrow> Report \<Rightarrow> State \<Rightarrow> State" where
  "report_for proxy report st =
     (let granted = published (st_table st) proxy
      in case bt_get (st_proxies st) proxy of
           None \<Rightarrow> st
         | Some ps \<Rightarrow>
             (let held = bt_map (\<lambda>slot h.
                    if report_generation report \<ge> held_changed_at h
                    then h\<lparr>held_occupied := max (bt_get_or 0 granted slot)
                             (usage_actual (Report_get report (fst slot) (snd slot)))\<rparr>
                    else h) (ps_held ps);
                  held = bt_retain (\<lambda>slot h. held_occupied h > 0 \<or> bt_contains granted slot) held
              in st\<lparr>st_proxies := bt_insert proxy
                   (ps\<lparr>ps_demand := bt_map (\<lambda>_ usage. usage_demand usage) (report_usage report),
                       ps_held := held\<rparr>) (st_proxies st)\<rparr>))"

definition add_instance :: "InstanceId \<Rightarrow> InstanceBudget \<Rightarrow> State \<Rightarrow> State" where
  "add_instance i budget st = st\<lparr>st_budgets := bt_insert i budget (st_budgets st)\<rparr>"

definition observe_instance :: "InstanceId \<Rightarrow> nat \<Rightarrow> nat \<Rightarrow> State \<Rightarrow> State \<times> BudgetChange option" where
  "observe_instance i at foreign_connections st =
     (case bt_get (st_budgets st) i of
        None \<Rightarrow> (st, None)
      | Some b \<Rightarrow>
          (let (b', change) = InstanceBudget_observe b at foreign_connections
           in (st\<lparr>st_budgets := bt_insert i b' (st_budgets st)\<rparr>, Some change)))"

definition instances :: "State \<Rightarrow> (InstanceId \<times> TotalBudget) list" where
  "instances st = map (\<lambda>(i, b). (i, ib_budget b)) (st_budgets st)"

definition set_policies :: "Policies \<Rightarrow> State \<Rightarrow> State" where
  "set_policies policies st = st\<lparr>st_policies := policies\<rparr>"

definition budget_total :: "State \<Rightarrow> InstanceId \<Rightarrow> nat option" where
  "budget_total st i = map_option (\<lambda>b. tb_total (ib_budget b)) (bt_get (st_budgets st) i)"

definition set_tenant :: "allocator \<Rightarrow> nat \<Rightarrow> string \<Rightarrow> PolicyChange \<Rightarrow> State \<Rightarrow> State \<times> (SettingError + unit)" where
  "set_tenant alloc release_delay tenant change st =
     (case Policies_change_tenant (st_policies st) tenant change (budget_total st) of
        Inl err \<Rightarrow> (st, Inl err)
      | Inr changed \<Rightarrow> (fst (reconcile alloc release_delay (st\<lparr>st_policies := changed\<rparr>)), Inr ()))"

text \<open>
  \<open>set_margin\<close> up to its wait: the flag of an accepted setting says whether the answer waits for
  the instance to be within its budget.
\<close>

definition set_margin :: "allocator \<Rightarrow> nat \<Rightarrow> InstanceId \<Rightarrow> nat \<Rightarrow> State \<Rightarrow> State \<times> (SettingError + bool)" where
  "set_margin alloc release_delay i margin st =
     (case bt_get (st_budgets st) i of
        None \<Rightarrow> (st, Inl (NoSuchInstance i))
      | Some budget \<Rightarrow>
          (let derived = tb_total (InstanceBudget_with_margin budget margin);
               minimums = Policies_minimums_on (st_policies st) i
           in if minimums > derived then (st, Inl (AboveBudget i minimums derived))
              else let (budget', change) = InstanceBudget_set_margin budget margin;
                       st = st\<lparr>st_budgets := bt_insert i budget' (st_budgets st)\<rparr>
                   in (fst (reconcile alloc release_delay st),
                       Inr (case change of Shrank _ _ \<Rightarrow> True | _ \<Rightarrow> False))))"

definition within_budget :: "State \<Rightarrow> InstanceId \<Rightarrow> bool" where
  "within_budget st i \<longleftrightarrow>
     State_occupied_on st i \<le> (case budget_total st i of None \<Rightarrow> 0 | Some b \<Rightarrow> b)"

text \<open>The wait of \<open>set_margin\<close> over the states it looks at, one after each report.\<close>

fun converged :: "InstanceId \<Rightarrow> State list \<Rightarrow> State option" where
  "converged i [] = None"
| "converged i (st # later) = (if within_budget st i then Some st else converged i later)"

text \<open>\<open>withdraw_proxy\<close> releases the lock between marking the proxy and reconciling.\<close>

definition mark_departed :: "ProxyId \<Rightarrow> State \<Rightarrow> State" where
  "mark_departed proxy st =
     (case bt_get (st_proxies st) proxy of
        None \<Rightarrow> st
      | Some ps \<Rightarrow>
          st\<lparr>st_proxies := bt_insert proxy (ps\<lparr>ps_departed := True, ps_demand := [], ps_held := []\<rparr>) (st_proxies st)\<rparr>)"

definition withdraw_proxy :: "allocator \<Rightarrow> nat \<Rightarrow> ProxyId \<Rightarrow> State \<Rightarrow> State" where
  "withdraw_proxy alloc release_delay proxy st = fst (reconcile alloc release_delay (mark_departed proxy st))"

definition channel :: "ProxyId \<Rightarrow> State \<Rightarrow> State" where
  "channel proxy st =
     (if bt_contains (st_proxies st) proxy then st
      else st\<lparr>st_proxies := bt_insert proxy ProxyState_new (st_proxies st)\<rparr>)"

definition InProcessCoordinator_new :: "ProxyId \<Rightarrow> State" where
  "InProcessCoordinator_new proxy =
     State_default\<lparr>st_proxies := bt_insert proxy ProxyState_new (st_proxies State_default)\<rparr>"

definition subscribe :: "ProxyId \<Rightarrow> State \<Rightarrow> GrantSet" where
  "subscribe proxy st =
     (case bt_get (st_proxies st) proxy of None \<Rightarrow> GrantSet_default | Some ps \<Rightarrow> ps_grants ps)"

section \<open>What is published\<close>

abbreviation gr :: "State \<Rightarrow> ProxyId \<Rightarrow> Slot \<Rightarrow> nat" where
  "gr st proxy slot \<equiv> AllocationTable_granted (st_table st) (fst slot) (Holder (snd slot) proxy)"

abbreviation occ :: "State \<Rightarrow> ProxyId \<Rightarrow> Slot \<Rightarrow> nat" where
  "occ st proxy slot \<equiv> ProxyState_occupied (proxy_at st proxy) slot"

lemma published_wf [simp, bt_intros]: "bt_wf (published t proxy)"
  by (simp add: published_def)

lemma published_get:
  assumes "table_ok t"
  shows "bt_get (published t proxy) slot =
     (let n = AllocationTable_granted t (fst slot) (Holder (snd slot) proxy) in if n = 0 then None else Some n)"
proof -
  obtain i tenant where slot: "slot = (i, tenant)" by fastforce
  let ?xs = "map (\<lambda>(i, tenant, slots). ((i, tenant), slots)) (AllocationTable_grants_for t proxy)"
  have mem: "((i, tenant), n) \<in> set ?xs \<longleftrightarrow> 0 < n \<and> AllocationTable_granted t i (Holder tenant proxy) = n" for n
    using grants_for_mem [OF assms, of i tenant n proxy] by force
  show ?thesis
  proof (cases "AllocationTable_granted t i (Holder tenant proxy) = 0")
    case True
    then have "(i, tenant) \<notin> fst ` set ?xs" using mem by force
    then have "bt_get (bt_collect ?xs) (i, tenant) = None"
      by (simp only: bt_get_None_iff keys_bt_collect) simp
    then show ?thesis using True by (simp add: published_def slot)
  next
    case False
    then have "bt_get (bt_collect ?xs) (i, tenant) = Some (AllocationTable_granted t i (Holder tenant proxy))"
      by (intro bt_get_collect_unique) (simp_all only: mem, simp)
    then show ?thesis using False by (simp add: published_def slot)
  qed
qed

lemma published_get_or [simp]:
  "table_ok t \<Longrightarrow> bt_get_or 0 (published t proxy) slot = AllocationTable_granted t (fst slot) (Holder (snd slot) proxy)"
  by (simp add: bt_get_or_def published_get Let_def)

lemma published_by_proxy_get:
  "bt_wf (st_proxies st) \<Longrightarrow> bt_get (published_by_proxy st) proxy
     = (if bt_contains (st_proxies st) proxy then Some (published (st_table st) proxy) else None)"
  by (auto simp: published_by_proxy_def bt_get_collect_distinct comp_def bt_wf_distinct bt_get_None_iff
      map_of_map_keys map_of_eq_None_iff image_iff intro!: map_of_is_SomeI)

lemma published_by_proxy_eq:
  assumes "bt_wf (st_proxies st)" "bt_keys (st_proxies st') = bt_keys (st_proxies st)"
    and "published_by_proxy st' = published_by_proxy st" "bt_contains (st_proxies st) proxy"
  shows "published (st_table st') proxy = published (st_table st) proxy"
proof -
  have wf: "bt_wf (st_proxies st')" and con: "bt_contains (st_proxies st') proxy"
    using assms(1,2,4) by (simp_all add: bt_wf_def bt_get_None_iff) (metis list.set_map)
  from arg_cong [OF assms(3), of "\<lambda>m. bt_get m proxy"] show ?thesis
    using assms(4) con by (simp add: published_by_proxy_get [OF assms(1)] published_by_proxy_get [OF wf])
qed

section \<open>The holders on an instance\<close>

lemma fold_push_get:
  assumes "distinct ts"
  shows "bt_get_or [] (fold (\<lambda>t m. bt_insert t (bt_get_or [] m t @ [p]) m) ts m) u
     = (if u \<in> set ts then bt_get_or [] m u @ [p] else bt_get_or [] m u)"
  using assms by (induction ts arbitrary: m) auto

lemma fold_push_wf: "bt_wf m \<Longrightarrow> bt_wf (fold (\<lambda>t m. bt_insert t (bt_get_or [] m t @ [p]) m) ts m)"
  by (induction ts arbitrary: m) auto

definition holds_on :: "InstanceId \<Rightarrow> TenantId \<Rightarrow> ProxyState \<Rightarrow> bool" where
  "holds_on i tenant ps \<longleftrightarrow> \<not> ps_departed ps \<and> tenant \<in> set (tenants_on ps i)"

lemma holders_on_fold:
  assumes "bt_wf m"
  shows "bt_wf (fold (\<lambda>(proxy, ps) holders. if ps_departed ps then holders
            else fold (\<lambda>tenant holders. bt_insert tenant (bt_get_or [] holders tenant @ [proxy]) holders)
                   (tenants_on ps i) holders) xs m)
     \<and> bt_get_or [] (fold (\<lambda>(proxy, ps) holders. if ps_departed ps then holders
            else fold (\<lambda>tenant holders. bt_insert tenant (bt_get_or [] holders tenant @ [proxy]) holders)
                   (tenants_on ps i) holders) xs m) tenant
       = bt_get_or [] m tenant @ map fst (filter (\<lambda>(_, ps). holds_on i tenant ps) xs)"
  using assms
proof (induction xs arbitrary: m)
  case (Cons x xs)
  obtain p ps where x: "x = (p, ps)" by fastforce
  show ?case
  proof (cases "ps_departed ps")
    case True
    with Cons show ?thesis by (simp add: x holds_on_def)
  next
    case False
    with Cons.IH [OF fold_push_wf [OF Cons.prems], of p "tenants_on ps i"]
    show ?thesis by (simp add: x fold_push_get tenants_on_def holds_on_def)
  qed
qed simp

lemma holders_on_wf [simp, bt_intros]: "bt_wf (holders_on st i)"
  unfolding holders_on_def using holders_on_fold [OF bt_wf_Nil] by blast

lemma holders_on_get:
  "bt_get_or [] (holders_on st i) tenant = map fst (filter (\<lambda>(_, ps). holds_on i tenant ps) (st_proxies st))"
  unfolding holders_on_def by (subst holders_on_fold [OF bt_wf_Nil, THEN conjunct2]) simp

lemma holders_on_mem:
  assumes "bt_wf (st_proxies st)"
  shows "proxy \<in> set (bt_get_or [] (holders_on st i) tenant)
     \<longleftrightarrow> (\<exists>ps. bt_get (st_proxies st) proxy = Some ps \<and> holds_on i tenant ps)"
  unfolding holders_on_get by (auto simp: bt_get_mem [OF assms] image_iff)

lemma holders_on_distinct:
  "bt_wf (st_proxies st) \<Longrightarrow> distinct (bt_get_or [] (holders_on st i) tenant)"
  unfolding holders_on_get by (rule distinct_map_filter [OF bt_wf_distinct])

lemma claims_Cons:
  "claims release_delay st i (x # hs) = (case claim_of release_delay st i x of
     None \<Rightarrow> claims release_delay st i hs | Some c \<Rightarrow> c # claims release_delay st i hs)"
  by (simp add: claims_def List.map_filter_def split: option.splits)

lemma claims_distinct:
  "bt_wf holders \<Longrightarrow> distinct (map claim_key (claims release_delay st i holders))"
proof -
  assume wf: "bt_wf holders"
  have key: "claim_of release_delay st i x = Some c \<Longrightarrow> claim_key c = fst x" for x c
    by (auto simp: claim_of_def Let_def split: option.splits prod.splits)
  have "set (map claim_key (claims release_delay st i hs)) \<subseteq> set (map fst hs)
      \<and> (distinct (map fst hs) \<longrightarrow> distinct (map claim_key (claims release_delay st i hs)))" for hs
  proof (induction hs)
    case (Cons x hs)
    then show ?case
      by (cases "claim_of release_delay st i x") (auto simp: claims_Cons image_subset_iff dest!: key, metis)
  qed (simp add: claims_def List.map_filter_def)
  with bt_wf_distinct [OF wf] show ?thesis by blast
qed

section \<open>Granting out of what is available\<close>

text \<open>
  The two nested loops of \<open>desired_state\<close> as one fold over its visits: one visit for each tenant and
  each proxy that serves it, with the part of the tenant's target that was split to the proxy.
\<close>

type_synonym visit = "TenantId \<times> (ProxyId, nat) btree_map \<times> ProxyId Share"

definition visit_target :: "visit \<Rightarrow> nat" where
  "visit_target = (\<lambda>(tenant, parts, share). bt_get_or 0 parts (share_key share))"

definition visit_holder :: "visit \<Rightarrow> Holder" where
  "visit_holder = (\<lambda>(tenant, parts, share). Holder tenant (share_key share))"

definition visit_step :: "State \<Rightarrow> InstanceId \<Rightarrow> visit \<Rightarrow> nat \<times> Desired \<Rightarrow> nat \<times> Desired" where
  "visit_step st i = (\<lambda>(tenant, parts, share). grant_share st (i, tenant) parts share)"

definition visit_occ :: "State \<Rightarrow> InstanceId \<Rightarrow> Holder \<Rightarrow> nat" where
  "visit_occ st i h = occ st (Holder_proxy h) (i, Holder_tenant h)"

definition visit_ok :: "State \<Rightarrow> InstanceId \<Rightarrow> visit \<Rightarrow> bool" where
  "visit_ok st i v \<longleftrightarrow> (case v of (tenant, parts, share) \<Rightarrow> share_current share \<le> visit_occ st i (visit_holder v))"

lemma visit_step_cases:
  assumes "visit_ok st i v"
  obtains g where "g \<le> visit_target v" "g - visit_occ st i (visit_holder v) \<le> available"
    "visit_step st i v (available, d)
       = (available - (g - visit_occ st i (visit_holder v)), Desired_grant d (visit_holder v) g)"
proof -
  obtain tenant parts share where v: "v = (tenant, parts, share)" by (cases v) auto
  let ?h = "visit_holder v" and ?t = "visit_target v"
  have cur: "share_current share \<le> visit_occ st i ?h" using assms by (simp add: visit_ok_def v)
  have occ: "occ st (share_key share) (i, tenant) = visit_occ st i ?h"
    by (simp add: visit_occ_def visit_holder_def v)
  show thesis
  proof (cases "?t \<le> share_current share")
    case True
    with cur occ show thesis
      by (intro that [of ?t])
        (simp_all add: visit_step_def grant_share_def v visit_target_def visit_holder_def Let_def)
  next
    case False
    with occ show thesis
      by (intro that [of "min ?t (visit_occ st i ?h + available)"])
        (simp_all add: visit_step_def grant_share_def v visit_target_def visit_holder_def Let_def)
  qed
qed

lemma fold_visits:
  assumes "distinct (map visit_holder vs)" "\<forall>v \<in> set vs. visit_ok st i v" "desired_wf d"
    and "fold (visit_step st i) vs (available, d) = (rest, d')"
  shows "desired_wf d' \<and> desired_budget d' = desired_budget d
     \<and> (\<forall>h. h \<notin> visit_holder ` set vs \<longrightarrow> Desired_granted d' h = Desired_granted d h)
     \<and> (\<forall>v \<in> set vs. Desired_granted d' (visit_holder v) \<le> visit_target v)
     \<and> rest + (\<Sum>v \<leftarrow> vs. Desired_granted d' (visit_holder v) - visit_occ st i (visit_holder v)) = available
     \<and> desired_total d' \<le> desired_total d + (\<Sum>v \<leftarrow> vs. visit_target v)"
  using assms
proof (induction vs arbitrary: available d)
  case (Cons v vs)
  obtain g where g: "g \<le> visit_target v" "g - visit_occ st i (visit_holder v) \<le> available"
    and step: "visit_step st i v (available, d)
       = (available - (g - visit_occ st i (visit_holder v)), Desired_grant d (visit_holder v) g)"
    by (rule visit_step_cases [of st i v available d]) (use Cons.prems in auto)
  have wf: "desired_wf (Desired_grant d (visit_holder v) g)" using Cons.prems(3) by (rule desired_wf_grant)
  have run: "fold (visit_step st i) vs
      (available - (g - visit_occ st i (visit_holder v)), Desired_grant d (visit_holder v) g) = (rest, d')"
    using Cons.prems(4) step by simp
  from Cons.prems have "distinct (map visit_holder vs)" "\<forall>v \<in> set vs. visit_ok st i v"
    and new: "visit_holder v \<notin> visit_holder ` set vs" by auto
  note IH = Cons.IH [OF this(1,2) wf run]
  from IH new have got: "Desired_granted d' (visit_holder v) = g" by simp
  have tot: "desired_total (Desired_grant d (visit_holder v) g) \<le> desired_total d + g"
    using Desired_total_grant [OF Cons.prems(3), of "visit_holder v" g] by linarith
  show ?case using IH got g tot by auto
qed simp

section \<open>The desired state of one instance\<close>

definition visits :: "State \<Rightarrow> InstanceId \<Rightarrow> TenantId Grants \<Rightarrow> visit list" where
  "visits st i targets = concat (map (\<lambda>tenant.
     let shares = map (share_of st i tenant) (bt_get_or [] (holders_on st i) tenant)
     in map (\<lambda>share. (tenant, split (Grants_get targets tenant) shares, share)) shares)
     (set_collect (bt_keys (holders_on st i))))"

lemma grant_tenant_visits:
  "grant_tenant st i (holders_on st i) targets tenant acc = fold (visit_step st i)
     (let shares = map (share_of st i tenant) (bt_get_or [] (holders_on st i) tenant)
      in map (\<lambda>share. (tenant, split (Grants_get targets tenant) shares, share)) shares) acc"
  by (simp add: grant_tenant_def visit_step_def Let_def fold_map comp_def)

lemma fold_fold_concat: "fold (\<lambda>x. fold f (g x)) xs acc = fold f (concat (map g xs)) acc"
  by (induction xs arbitrary: acc) auto

lemma desired_on_visits:
  "desired_on alloc release_delay st i derived =
     snd (fold (visit_step st i)
       (visits st i (alloc (tb_total (ib_budget derived)) (claims release_delay st i (holders_on st i))))
       (tb_total (ib_budget derived) - State_occupied_on st i, Desired_new (tb_total (ib_budget derived))))"
  unfolding desired_on_def visits_def Let_def
  by (subst fold_fold_concat [symmetric]) (simp only: grant_tenant_visits [unfolded Let_def, abs_def])

lemma share_key_share_of [simp]: "share_key (share_of st i tenant proxy) = proxy"
  by (simp add: share_of_def)

lemma visits_holders:
  assumes "bt_wf (st_proxies st)"
  shows "distinct (map visit_holder (visits st i targets))"
    and "h \<in> visit_holder ` set (visits st i targets)
       \<longleftrightarrow> (\<exists>ps. bt_get (st_proxies st) (Holder_proxy h) = Some ps \<and> holds_on i (Holder_tenant h) ps)"
proof -
  let ?hs = "\<lambda>tenant. map (Holder tenant) (bt_get_or [] (holders_on st i) tenant)"
  have hs: "map visit_holder (visits st i targets) = concat (map ?hs (set_collect (bt_keys (holders_on st i))))"
    by (simp add: visits_def map_concat comp_def visit_holder_def Let_def)
  have "distinct (concat (map ?hs ts))" if "distinct ts" for ts
    using that
  proof (induction ts)
    case (Cons t ts)
    then show ?case using holders_on_distinct [OF assms] by (auto simp: distinct_map inj_on_def)
  qed simp
  then show "distinct (map visit_holder (visits st i targets))" unfolding hs by simp
  have key: "tenant \<in> fst ` set (holders_on st i)" if "proxy \<in> set (bt_get_or [] (holders_on st i) tenant)"
    for proxy tenant
    using that bt_get_None_iff [of "holders_on st i" tenant] by (auto simp: bt_get_or_def)
  define ts where "ts = set_collect (bt_keys (holders_on st i))"
  have ts: "tenant \<in> set ts" if "proxy \<in> set (bt_get_or [] (holders_on st i) tenant)" for proxy tenant
    using key [OF that] by (simp add: ts_def)
  have "h \<in> set (map visit_holder (visits st i targets))
      \<longleftrightarrow> Holder_proxy h \<in> set (bt_get_or [] (holders_on st i) (Holder_tenant h))"
    unfolding hs ts_def [symmetric] using ts by (cases h) auto
  then show "h \<in> visit_holder ` set (visits st i targets)
       \<longleftrightarrow> (\<exists>ps. bt_get (st_proxies st) (Holder_proxy h) = Some ps \<and> holds_on i (Holder_tenant h) ps)"
    by (simp add: holders_on_mem [OF assms])
qed

lemma visits_target_le:
  assumes "bt_wf (st_proxies st)" and "\<And>ks. distinct ks \<Longrightarrow> (\<Sum>k \<leftarrow> ks. Grants_get targets k) \<le> budget"
  shows "(\<Sum>v \<leftarrow> visits st i targets. visit_target v) \<le> budget"
proof -
  let ?shares = "\<lambda>tenant. map (share_of st i tenant) (bt_get_or [] (holders_on st i) tenant)"
  have part: "(\<Sum>s \<leftarrow> ?shares t. bt_get_or 0 (split (Grants_get targets t) (?shares t)) (share_key s))
      \<le> Grants_get targets t" for t
  proof -
    have "distinct (map share_key (?shares t))" using holders_on_distinct [OF assms(1)] by (simp add: comp_def)
    from split_get_sum [OF this, of "Grants_get targets t"] show ?thesis by simp
  qed
  have "(\<Sum>v \<leftarrow> visits st i targets. visit_target v)
      = (\<Sum>t \<leftarrow> set_collect (bt_keys (holders_on st i)).
           \<Sum>s \<leftarrow> ?shares t. bt_get_or 0 (split (Grants_get targets t) (?shares t)) (share_key s))"
    by (simp add: visits_def visit_target_def map_concat sum_list_concat_map comp_def Let_def)
  also have "\<dots> \<le> (\<Sum>t \<leftarrow> set_collect (bt_keys (holders_on st i)). Grants_get targets t)"
    by (rule sum_list_map_mono) (rule part)
  also have "\<dots> \<le> budget" by (rule assms(2)) simp
  finally show ?thesis .
qed

section \<open>What may be occupied\<close>

text \<open>The sum \<open>occupied_on\<close> saturates, exactly.\<close>

definition occupied_total :: "State \<Rightarrow> InstanceId \<Rightarrow> nat" where
  "occupied_total st i = (\<Sum>(proxy, ps) \<leftarrow> st_proxies st.
     \<Sum>((instance_of, _), held) \<leftarrow> ps_held ps. if instance_of = i then held_occupied held else 0)"

lemma occupied_on_total: "State_occupied_on st i = clamp32 (occupied_total st i)"
proof -
  have filter: "(\<Sum>(_, held) \<leftarrow> filter (\<lambda>((instance_of, _), _). instance_of = i) xs. held_occupied held)
      = (\<Sum>((instance_of, _), held) \<leftarrow> xs. if instance_of = i then held_occupied held else 0)"
    for xs :: "(Slot \<times> Held) list"
    by (induction xs) auto
  have "sum_list (map (\<lambda>(_, held). held_occupied held)
         (filter (\<lambda>((instance_of, _), _). instance_of = i) (concat (map (\<lambda>(_, ps). ps_held ps) ps))))
      = (\<Sum>(proxy, ps) \<leftarrow> ps. \<Sum>((instance_of, _), held) \<leftarrow> ps_held ps. if instance_of = i then held_occupied held else 0)"
    for ps :: "(ProxyId, ProxyState) btree_map"
    by (induction ps) (auto simp: filter)
  then show ?thesis
    unfolding State_occupied_on_def fold_sat_add32_0 occupied_total_def by simp
qed

definition proxies_wf :: "State \<Rightarrow> bool" where
  "proxies_wf st \<longleftrightarrow> bt_wf (st_proxies st) \<and> (\<forall>(proxy, ps) \<in> set (st_proxies st). bt_wf (ps_held ps))"

lemma proxy_at_get: "bt_get (st_proxies st) proxy = Some ps \<Longrightarrow> proxy_at st proxy = ps"
  by (simp add: proxy_at_def bt_get_or_def)

lemma proxy_at_none: "bt_get (st_proxies st) proxy = None \<Longrightarrow> proxy_at st proxy = ProxyState_new"
  by (simp add: proxy_at_def bt_get_or_def)

lemma occ_none [simp]: "ProxyState_occupied ProxyState_new slot = 0"
  by (simp add: ProxyState_occupied_def ProxyState_new_def)

text \<open>Every tenant an instance is occupied by, for sums over a finite set of holders.\<close>

definition held_tenants :: "State \<Rightarrow> TenantId set" where
  "held_tenants st = {tenant. \<exists>(proxy, ps) \<in> set (st_proxies st). \<exists>i. (i, tenant) \<in> fst ` set (ps_held ps)}"

lemma finite_held_tenants [simp]: "finite (held_tenants st)"
proof -
  have "held_tenants st = (\<Union>(proxy, ps) \<in> set (st_proxies st). snd ` fst ` set (ps_held ps))"
    by (force simp: held_tenants_def)
  then show ?thesis by auto
qed

lemma held_sum_tenants:
  assumes "bt_wf m" "finite T" "\<And>tenant. (i, tenant) \<in> fst ` set m \<Longrightarrow> tenant \<in> T"
  shows "(\<Sum>((instance_of, _), held) \<leftarrow> m. if instance_of = i then held_occupied held else 0)
     = (\<Sum>tenant \<in> T. case bt_get m (i, tenant) of None \<Rightarrow> 0 | Some h \<Rightarrow> held_occupied h)"
proof -
  let ?xs = "map (\<lambda>((instance_of, tenant), held). (tenant, held_occupied held)) (filter (\<lambda>((instance_of, _), _). instance_of = i) m)"
  have "distinct (map fst ?xs)"
    using bt_wf_distinct [OF assms(1)] by (induction m) (auto simp: image_iff)
  moreover have "fst ` set ?xs \<subseteq> T" using assms(3) by (force simp: image_iff)
  ultimately have "(\<Sum>(k, v) \<leftarrow> ?xs. v) = (\<Sum>k \<in> T. case map_of ?xs k of None \<Rightarrow> 0 | Some v \<Rightarrow> v)"
    by (intro sum_list_assoc assms(2))
  moreover have "(\<Sum>(k, v) \<leftarrow> ?xs. v) = (\<Sum>((instance_of, _), held) \<leftarrow> m. if instance_of = i then held_occupied held else 0)"
    by (induction m) auto
  moreover have "(case map_of ?xs tenant of None \<Rightarrow> 0 | Some v \<Rightarrow> v)
      = (case bt_get m (i, tenant) of None \<Rightarrow> 0 | Some h \<Rightarrow> held_occupied h)" for tenant
    by (induction m) (auto simp: bt_get_Cons)
  ultimately show ?thesis by (simp only:)
qed

lemma occupied_total_sum:
  assumes "proxies_wf st" "finite P" "fst ` set (st_proxies st) \<subseteq> P" "finite T" "held_tenants st \<subseteq> T"
  shows "occupied_total st i = (\<Sum>proxy \<in> P. \<Sum>tenant \<in> T. occ st proxy (i, tenant))"
proof -
  let ?f = "\<lambda>ps. \<Sum>((instance_of, _), held) \<leftarrow> ps_held ps. if instance_of = i then held_occupied held else 0"
  have each: "?f ps = (\<Sum>tenant \<in> T. ProxyState_occupied ps (i, tenant))" if "(proxy, ps) \<in> set (st_proxies st)" for proxy ps
  proof -
    have "tenant \<in> T" if "(i, tenant) \<in> fst ` set (ps_held ps)" for tenant
      using assms(5) \<open>(proxy, ps) \<in> set (st_proxies st)\<close> that unfolding held_tenants_def by blast
    moreover have "bt_wf (ps_held ps)" using assms(1) that by (auto simp: proxies_wf_def)
    ultimately show ?thesis unfolding ProxyState_occupied_def using assms(4) by (intro held_sum_tenants)
  qed
  have wf: "bt_wf (st_proxies st)" using assms(1) by (simp add: proxies_wf_def)
  let ?xs = "map (\<lambda>(proxy, ps). (proxy, ?f ps)) (st_proxies st)"
  have "occupied_total st i = (\<Sum>(k, v) \<leftarrow> ?xs. v)"
    by (simp add: occupied_total_def comp_def case_prod_unfold)
  also have "\<dots> = (\<Sum>k \<in> P. case map_of ?xs k of None \<Rightarrow> 0 | Some v \<Rightarrow> v)"
    using assms(2,3) bt_wf_distinct [OF wf]
    by (intro sum_list_assoc) (auto simp: comp_def case_prod_unfold)
  also have "\<dots> = (\<Sum>proxy \<in> P. \<Sum>tenant \<in> T. occ st proxy (i, tenant))"
  proof (rule sum.cong [OF refl])
    fix proxy
    have "map_of ?xs proxy = map_option ?f (bt_get (st_proxies st) proxy)"
      unfolding bt_get_def by (simp add: map_of_map)
    then show "(case map_of ?xs proxy of None \<Rightarrow> 0 | Some v \<Rightarrow> v) = (\<Sum>tenant \<in> T. occ st proxy (i, tenant))"
      using each bt_get_SomeD [of "st_proxies st" proxy]
      by (cases "bt_get (st_proxies st) proxy") (simp_all add: proxy_at_get proxy_at_none)
  qed
  finally show ?thesis .
qed

section \<open>The coordinator's invariant\<close>

text \<open>
  Every grant of the table is to a known proxy on an instance with a budget, counts as occupied for
  as long as the proxy has not departed, and a departed proxy occupies nothing.
\<close>

definition coord_inv :: "State \<Rightarrow> bool" where
  "coord_inv st \<longleftrightarrow> table_ok (st_table st) \<and> proxies_wf st \<and> bt_wf (st_budgets st)
     \<and> (\<forall>(i, b) \<in> set (st_budgets st). tb_total (ib_budget b) \<le> u32_max)
     \<and> set (AllocationTable_instances (st_table st)) \<subseteq> fst ` set (st_budgets st)
     \<and> (\<forall>proxy slot. 0 < gr st proxy slot \<longrightarrow> bt_contains (st_proxies st) proxy)
     \<and> (\<forall>proxy slot. \<not> ps_departed (proxy_at st proxy) \<longrightarrow> gr st proxy slot \<le> occ st proxy slot)
     \<and> (\<forall>proxy. ps_departed (proxy_at st proxy) \<longrightarrow> ps_held (proxy_at st proxy) = [])"

lemma coord_invD:
  assumes "coord_inv st"
  shows "table_ok (st_table st)" "proxies_wf st" "bt_wf (st_proxies st)" "bt_wf (st_budgets st)"
    "\<And>i b. bt_get (st_budgets st) i = Some b \<Longrightarrow> tb_total (ib_budget b) \<le> u32_max"
    "set (AllocationTable_instances (st_table st)) \<subseteq> fst ` set (st_budgets st)"
    "\<And>proxy slot. 0 < gr st proxy slot \<Longrightarrow> bt_contains (st_proxies st) proxy"
    "\<And>proxy slot. \<not> ps_departed (proxy_at st proxy) \<Longrightarrow> gr st proxy slot \<le> occ st proxy slot"
    "\<And>proxy. ps_departed (proxy_at st proxy) \<Longrightarrow> ps_held (proxy_at st proxy) = []"
  using assms unfolding coord_inv_def proxies_wf_def by (blast dest: bt_get_SomeD)+

lemma occ_departed: "coord_inv st \<Longrightarrow> ps_departed (proxy_at st proxy) \<Longrightarrow> occ st proxy slot = 0"
  using coord_invD(9) by (simp add: ProxyState_occupied_def)

lemma gr_holds:
  assumes inv: "coord_inv st" and pos: "0 < gr st proxy (i, tenant)" and "\<not> ps_departed (proxy_at st proxy)"
  shows "\<exists>ps. bt_get (st_proxies st) proxy = Some ps \<and> holds_on i tenant ps"
proof -
  obtain ps where ps: "bt_get (st_proxies st) proxy = Some ps" using coord_invD(7) [OF inv pos] by blast
  have "0 < ProxyState_occupied ps (i, tenant)"
    using coord_invD(8) [OF inv assms(3), of "(i, tenant)"] pos ps by (simp add: proxy_at_get)
  then have "(i, tenant) \<in> fst ` set (ps_held ps)"
    using bt_get_None_iff [of "ps_held ps" "(i, tenant)"] by (auto simp: ProxyState_occupied_def split: option.splits)
  then have "tenant \<in> set (tenants_on ps i)"
    by (simp add: tenants_on_def) (metis (mono_tags, lifting) Un_iff case_prod_conv image_Un image_eqI mem_Collect_eq snd_conv)
  with ps assms(3) show ?thesis by (auto simp: holds_on_def proxy_at_get)
qed

section \<open>The desired state fits\<close>

text \<open>The visits of a state and the grants they end with, against what the holders occupy.\<close>

lemma visits_ok:
  assumes inv: "coord_inv st" and v: "v \<in> set (visits st i targets)"
  shows "visit_ok st i v"
proof -
  obtain tenant parts proxy where vv: "v = (tenant, parts, share_of st i tenant proxy)"
    using v by (auto simp: visits_def Let_def)
  have "visit_holder v \<in> visit_holder ` set (visits st i targets)" using v by simp
  then obtain ps where "bt_get (st_proxies st) proxy = Some ps" "holds_on i tenant ps"
    using visits_holders(2) [OF coord_invD(3) [OF inv]] by (auto simp: vv visit_holder_def)
  then have "\<not> ps_departed (proxy_at st proxy)" by (simp add: holds_on_def proxy_at_get)
  from coord_invD(8) [OF inv this, of "(i, tenant)"] show ?thesis
    by (simp add: vv visit_ok_def visit_occ_def visit_holder_def share_of_def)
qed

definition served :: "State \<Rightarrow> InstanceId \<Rightarrow> Holder set" where
  "served st i = {h. \<exists>ps. bt_get (st_proxies st) (Holder_proxy h) = Some ps \<and> holds_on i (Holder_tenant h) ps}"

lemma visits_served:
  "bt_wf (st_proxies st) \<Longrightarrow> visit_holder ` set (visits st i targets) = served st i"
  by (rule set_eqI) (simp only: served_def mem_Collect_eq visits_holders(2))

lemma finite_served: "bt_wf (st_proxies st) \<Longrightarrow> finite (served st i)"
  using visits_served [of st i undefined] by (metis List.finite_set finite_imageI)

section \<open>Publishing a change\<close>

lemma mark_changed_get:
  "bt_get (mark_changed gen before after k held) slot =
     (if k = slot \<and> bt_get_or 0 before slot \<noteq> bt_get_or 0 after slot
      then Some \<lparr>held_changed_at = gen,
             held_occupied = max (held_occupied (bt_get_or Held_default held slot)) (bt_get_or 0 after slot)\<rparr>
      else bt_get held slot)"
  by (auto simp: mark_changed_def Let_def)

lemma mark_changed_fold_get:
  assumes "\<And>s. bt_get_or 0 before s \<noteq> bt_get_or 0 after s \<Longrightarrow> s = slot \<Longrightarrow> slot \<in> set ks"
  shows "bt_get (fold (mark_changed gen before after) ks held) slot =
     (if bt_get_or 0 before slot \<noteq> bt_get_or 0 after slot
      then Some \<lparr>held_changed_at = gen,
             held_occupied = max (held_occupied (bt_get_or Held_default held slot)) (bt_get_or 0 after slot)\<rparr>
      else bt_get held slot)"
proof (cases "bt_get_or 0 before slot = bt_get_or 0 after slot")
  case True
  have "bt_get (fold (mark_changed gen before after) ks held) slot = bt_get held slot"
  proof (induction ks arbitrary: held)
    case (Cons k ks)
    then show ?case using True by (simp add: mark_changed_get)
  qed simp
  with True show ?thesis by simp
next
  case False
  let ?n = "bt_get_or 0 after slot"
  have again: "bt_get (fold (mark_changed gen before after) ks held) slot = Some \<lparr>held_changed_at = gen, held_occupied = m\<rparr>"
    if "bt_get held slot = Some \<lparr>held_changed_at = gen, held_occupied = m\<rparr>" "?n \<le> m" for held ks m
    using that
  proof (induction ks arbitrary: held)
    case (Cons k ks)
    have "bt_get (mark_changed gen before after k held) slot = Some \<lparr>held_changed_at = gen, held_occupied = m\<rparr>"
      using Cons.prems by (auto simp: mark_changed_get max_absorb1 bt_get_or_def [of Held_default])
    with Cons.IH Cons.prems(2) show ?case by simp
  qed simp
  have "slot \<in> set ks \<Longrightarrow> bt_get (fold (mark_changed gen before after) ks held) slot =
      Some \<lparr>held_changed_at = gen, held_occupied = max (held_occupied (bt_get_or Held_default held slot)) ?n\<rparr>" for held
  proof (induction ks arbitrary: held)
    case (Cons k ks)
    show ?case
    proof (cases "k = slot")
      case True
      then show ?thesis using False by (simp add: mark_changed_get again)
    next
      case other: False
      have "bt_get_or Held_default (mark_changed gen before after k held) slot = bt_get_or Held_default held slot"
        using other by (simp add: bt_get_or_def mark_changed_get)
      with Cons other show ?thesis by simp
    qed
  qed simp
  with assms False show ?thesis by auto
qed

lemma mark_changed_fold_wf: "bt_wf held \<Longrightarrow> bt_wf (fold (mark_changed gen before after) ks held)"
  by (induction ks arbitrary: held) (auto simp: mark_changed_def Let_def)

lemma publish_proxy_frame [simp]:
  "ps_demand (publish_proxy gen before after ps) = ps_demand ps"
  "ps_departed (publish_proxy gen before after ps) = ps_departed ps"
  "ps_idle_since (publish_proxy gen before after ps) = ps_idle_since ps"
  by (simp_all add: publish_proxy_def Let_def)

lemma publish_proxy_wf: "bt_wf (ps_held ps) \<Longrightarrow> bt_wf (ps_held (publish_proxy gen before after ps))"
  by (simp add: publish_proxy_def Let_def mark_changed_fold_wf)

lemma publish_proxy_held:
  assumes "bt_wf (ps_held ps)" "before \<noteq> after"
  shows "bt_get (ps_held (publish_proxy gen before after ps)) slot =
     (case (if bt_get_or 0 before slot \<noteq> bt_get_or 0 after slot
            then Some \<lparr>held_changed_at = gen,
                   held_occupied = max (ProxyState_occupied ps slot) (bt_get_or 0 after slot)\<rparr>
            else bt_get (ps_held ps) slot) of
        None \<Rightarrow> None
      | Some h \<Rightarrow> if held_occupied h > 0 \<or> bt_contains after slot then Some h else None)"
proof -
  have key: "slot \<in> set (bt_keys before @ bt_keys after)" if "bt_get_or 0 before slot \<noteq> bt_get_or 0 after slot"
    using that bt_get_None_iff [of before slot] bt_get_None_iff [of after slot]
    by (auto simp: bt_get_or_def split: option.splits)
  have occ: "held_occupied (bt_get_or Held_default (ps_held ps) slot) = ProxyState_occupied ps slot"
    by (simp add: bt_get_or_def ProxyState_occupied_def Held_default_def split: option.splits)
  show ?thesis
    using assms mark_changed_fold_get [of before after slot "bt_keys before @ bt_keys after" gen "ps_held ps"] key
    by (auto simp: publish_proxy_def Let_def bt_get_retain mark_changed_fold_wf occ split: option.splits)
qed

lemma publish_proxy_occ:
  assumes "bt_wf (ps_held ps)"
  shows "ProxyState_occupied (publish_proxy gen before after ps) slot =
     (if bt_get_or 0 before slot \<noteq> bt_get_or 0 after slot
      then max (ProxyState_occupied ps slot) (bt_get_or 0 after slot) else ProxyState_occupied ps slot)"
proof (cases "before = after")
  case True
  then show ?thesis by (simp add: publish_proxy_def)
next
  case False
  show ?thesis
    unfolding ProxyState_occupied_def [of "publish_proxy gen before after ps"] publish_proxy_held [OF assms False]
    by (auto simp: ProxyState_occupied_def bt_get_or_def split: option.splits)
qed

section \<open>Changes that keep what is held\<close>

lemma track_idle_frame [simp]:
  "st_table (State_track_idle st) = st_table st" "st_budgets (State_track_idle st) = st_budgets st"
  "st_policies (State_track_idle st) = st_policies st" "st_generation (State_track_idle st) = st_generation st"
  "st_now (State_track_idle st) = st_now st" "bt_keys (st_proxies (State_track_idle st)) = bt_keys (st_proxies st)"
  by (simp_all add: State_track_idle_def split: option.splits)

lemma track_idle_proxy [simp]:
  "ps_held (proxy_at (State_track_idle st) proxy) = ps_held (proxy_at st proxy)"
  "ps_departed (proxy_at (State_track_idle st) proxy) = ps_departed (proxy_at st proxy)"
  "ps_grants (proxy_at (State_track_idle st) proxy) = ps_grants (proxy_at st proxy)"
  "ps_demand (proxy_at (State_track_idle st) proxy) = ps_demand (proxy_at st proxy)"
  by (auto simp: State_track_idle_def proxy_at_def bt_get_or_def Let_def split: option.splits)

lemma proxies_wf_iff:
  "proxies_wf st \<longleftrightarrow> bt_wf (st_proxies st) \<and> (\<forall>proxy. bt_wf (ps_held (proxy_at st proxy)))"
proof (cases "bt_wf (st_proxies st)")
  case True
  have "(\<forall>(proxy, ps) \<in> set (st_proxies st). bt_wf (ps_held ps)) \<longleftrightarrow> (\<forall>proxy. bt_wf (ps_held (proxy_at st proxy)))"
    by (force simp: bt_get_mem [OF True, symmetric] proxy_at_def bt_get_or_def ProxyState_new_def split: option.splits)
  with True show ?thesis by (simp add: proxies_wf_def)
qed (simp add: proxies_wf_def)

lemma bt_wf_keys: "bt_keys m = bt_keys n \<Longrightarrow> bt_wf m = bt_wf n"
  by (simp add: bt_wf_def)

lemma contains_keys: "bt_keys m = bt_keys n \<Longrightarrow> bt_contains m k = bt_contains n k"
  using bt_get_None_iff [of m k] bt_get_None_iff [of n k] by (metis list.set_map)

lemma occ_held_cong:
  "ps_held (proxy_at st' proxy) = ps_held (proxy_at st proxy) \<Longrightarrow> occ st' proxy slot = occ st proxy slot"
  by (simp add: ProxyState_occupied_def)

lemma occupied_totals:
  assumes "proxies_wf st" "proxies_wf st'"
  obtains P T where "finite P" "finite T"
    "occupied_total st i = (\<Sum>proxy \<in> P. \<Sum>tenant \<in> T. occ st proxy (i, tenant))"
    "occupied_total st' i = (\<Sum>proxy \<in> P. \<Sum>tenant \<in> T. occ st' proxy (i, tenant))"
proof
  let ?P = "fst ` set (st_proxies st) \<union> fst ` set (st_proxies st')"
  let ?T = "held_tenants st \<union> held_tenants st'"
  show "finite ?P" "finite ?T" by simp_all
  show "occupied_total st i = (\<Sum>proxy \<in> ?P. \<Sum>tenant \<in> ?T. occ st proxy (i, tenant))"
    by (rule occupied_total_sum [OF assms(1)]) simp_all
  show "occupied_total st' i = (\<Sum>proxy \<in> ?P. \<Sum>tenant \<in> ?T. occ st' proxy (i, tenant))"
    by (rule occupied_total_sum [OF assms(2)]) simp_all
qed

lemma occupied_total_cong:
  assumes "proxies_wf st" "proxies_wf st'" "\<And>proxy slot. occ st' proxy slot = occ st proxy slot"
  shows "occupied_total st' i = occupied_total st i"
  by (rule occupied_totals [OF assms(1,2), of i]) (simp add: assms(3))

lemma coord_inv_frame:
  assumes inv: "coord_inv st"
    and "st_table st' = st_table st" "st_budgets st' = st_budgets st"
    and "bt_keys (st_proxies st') = bt_keys (st_proxies st)"
    and "\<And>proxy. ps_held (proxy_at st' proxy) = ps_held (proxy_at st proxy)"
    and "\<And>proxy. ps_departed (proxy_at st' proxy) = ps_departed (proxy_at st proxy)"
  shows "coord_inv st'"
  using inv unfolding coord_inv_def proxies_wf_iff bt_wf_keys [OF assms(4)] contains_keys [OF assms(4)]
    occ_held_cong [OF assms(5)] assms(2,3,5,6) .

lemma coord_inv_track_idle: "coord_inv st \<Longrightarrow> coord_inv (State_track_idle st)"
  by (rule coord_inv_frame) simp_all

lemma proxies_wf_track_idle [simp]: "proxies_wf (State_track_idle st) = proxies_wf st"
  by (simp add: proxies_wf_iff bt_wf_keys [OF track_idle_frame(6)])

lemma occ_track_idle [simp]: "occ (State_track_idle st) proxy slot = occ st proxy slot"
  by (rule occ_held_cong) simp

lemma occupied_total_track_idle [simp]:
  "proxies_wf st \<Longrightarrow> occupied_total (State_track_idle st) i = occupied_total st i"
  by (rule occupied_total_cong) simp_all

lemma served_departed:
  "ps_departed (proxy_at st proxy) \<Longrightarrow> Holder tenant proxy \<notin> served (State_track_idle st) i"
  unfolding track_idle_proxy(2) [of st proxy, symmetric]
  by (auto simp: served_def holds_on_def dest: proxy_at_get)

text \<open>What a round leaves: the table it wrote, and every proxy's state through the change it was told.\<close>

definition round_table :: "allocator \<Rightarrow> nat \<Rightarrow> State \<Rightarrow> AllocationTable" where
  "round_table alloc release_delay st = fst (AllocationTable_apply (st_table st)
     (desired_state alloc release_delay (State_track_idle st)))"

locale coordinator = slot_allocator alloc for alloc :: allocator
begin

lemma desired_on_spec:
  assumes inv: "coord_inv st" and b: "tb_total (ib_budget b) \<le> u32_max"
  shows "desired_ok (desired_on alloc release_delay st i b)"
    and "desired_budget (desired_on alloc release_delay st i b) = tb_total (ib_budget b)"
    and "desired_total (desired_on alloc release_delay st i b) \<le> tb_total (ib_budget b)"
    and "\<And>h. h \<notin> served st i \<Longrightarrow> Desired_granted (desired_on alloc release_delay st i b) h = 0"
    and "(\<Sum>h \<in> served st i. Desired_granted (desired_on alloc release_delay st i b) h - visit_occ st i h)
           \<le> tb_total (ib_budget b) - State_occupied_on st i"
proof -
  let ?B = "tb_total (ib_budget b)"
  let ?targets = "alloc ?B (claims release_delay st i (holders_on st i))"
  let ?vs = "visits st i ?targets"
  obtain rest d where run: "fold (visit_step st i) ?vs (?B - State_occupied_on st i, Desired_new ?B) = (rest, d)"
    by fastforce
  have D: "desired_on alloc release_delay st i b = d" by (simp add: desired_on_visits run)
  note wf = coord_invD(3) [OF inv]
  have "\<forall>v \<in> set ?vs. visit_ok st i v" using visits_ok [OF inv] by blast
  note spec = fold_visits [OF visits_holders(1) [OF wf] this desired_wf_new run]
  have new: "desired_budget (Desired_new ?B) = ?B" "desired_total (Desired_new ?B) = 0"
    "Desired_granted (Desired_new ?B) h = 0" for h
    by (simp_all add: Desired_new_def Desired_granted_def)
  show "desired_ok (desired_on alloc release_delay st i b)"
    using spec b by (simp add: D desired_ok_def new)
  show "desired_budget (desired_on alloc release_delay st i b) = ?B" using spec by (simp add: D new)
  have "(\<Sum>v \<leftarrow> ?vs. visit_target v) \<le> ?B"
    using claims_distinct [OF holders_on_wf] by (intro visits_target_le [OF wf] alloc_sum_keys)
  then show "desired_total (desired_on alloc release_delay st i b) \<le> ?B"
    using spec by (simp add: D new)
  show "Desired_granted (desired_on alloc release_delay st i b) h = 0" if "h \<notin> served st i" for h
    using spec that by (simp add: D new visits_served [OF wf])
  have "(\<Sum>h \<in> served st i. Desired_granted d h - visit_occ st i h)
      = (\<Sum>v \<leftarrow> ?vs. Desired_granted d (visit_holder v) - visit_occ st i (visit_holder v))"
    using sum_list_distinct_conv_sum_set [OF visits_holders(1) [OF wf],
        of "\<lambda>h. Desired_granted d h - visit_occ st i h" i ?targets]
    by (simp add: visits_served [OF wf] comp_def)
  then show "(\<Sum>h \<in> served st i. Desired_granted (desired_on alloc release_delay st i b) h - visit_occ st i h)
           \<le> ?B - State_occupied_on st i"
    using spec by (simp add: D)
qed

lemma desired_state_get:
  assumes "coord_inv st"
  shows "entry_instances (desired_state alloc release_delay st)
     = bt_map (\<lambda>i b. desired_on alloc release_delay st i b) (st_budgets st)"
proof -
  have fold: "entry_instances (fold (\<lambda>(i, b) e. Entry_instance e i (f i b)) xs e)
      = fold (\<lambda>(k, v) m. bt_insert k v m) (map (\<lambda>(i, b). (i, f i b)) xs) (entry_instances e)"
    for f :: "InstanceId \<Rightarrow> InstanceBudget \<Rightarrow> Desired" and xs e
    by (induction xs arbitrary: e) (auto simp: Entry_instance_def)
  have "entry_instances (desired_state alloc release_delay st)
      = bt_collect (bt_map (\<lambda>i b. desired_on alloc release_delay st i b) (st_budgets st))"
    by (simp add: desired_state_def fold bt_collect_def bt_map_def Entry_new_def)
  then show ?thesis using coord_invD(4) [OF assms] by (simp add: bt_collect_wf_id)
qed

text \<open>The table accepts every desired state the coordinator computes.\<close>

lemma apply_desired:
  fixes st :: State and release_delay :: nat
  assumes inv: "coord_inv st"
  defines "res \<equiv> AllocationTable_apply (st_table st) (desired_state alloc release_delay st)"
  shows "snd res = Inr ()" and "table_ok (fst res)"
    and "AllocationTable_instances (fst res) = bt_keys (st_budgets st)"
    and "AllocationTable_granted (fst res) i h = (case bt_get (st_budgets st) i of
            None \<Rightarrow> 0 | Some b \<Rightarrow> Desired_granted (desired_on alloc release_delay st i b) h)"
    and "bt_get (table_instances (fst res)) i
       = map_option (desired_on alloc release_delay st i) (bt_get (st_budgets st) i)"
proof -
  let ?es = "entry_instances (desired_state alloc release_delay st)"
  have wf: "bt_wf ?es" using coord_invD(4) [OF inv] by (simp add: desired_state_get [OF inv])
  have each: "desired_ok d \<and> desired_total d \<le> desired_budget d" if "(i, d) \<in> set ?es" for i d
  proof -
    from that obtain b where "(i, b) \<in> set (st_budgets st)" "d = desired_on alloc release_delay st i b"
      by (auto simp: desired_state_get [OF inv] bt_map_def)
    with desired_on_spec [OF inv, of b] coord_invD(4,5) [OF inv] show ?thesis
      by (auto simp: bt_get_mem [symmetric])
  qed
  then have ok: "first_over_budget ?es = None" by (auto simp: first_over_budget_None)
  then show "snd res = Inr ()" by (simp add: res_def AllocationTable_apply_def)
  show "table_ok (fst res)"
    unfolding res_def using each by (intro table_ok_apply coord_invD(1) [OF inv]) auto
  have get: "bt_get (table_instances (fst res)) i
      = (case bt_get ?es i of None \<Rightarrow> bt_get (table_instances (st_table st)) i | Some d \<Rightarrow> Some d)" for i
  proof -
    have "map_of (rev ?es) i = bt_get ?es i" using wf by (simp add: map_of_rev bt_wf_distinct bt_get_def)
    then show ?thesis by (simp add: res_def AllocationTable_apply_def ok fold_bt_insert_get)
  qed
  have old: "bt_get (table_instances (st_table st)) i = None" if "bt_get (st_budgets st) i = None" for i
    using coord_invD(6) [OF inv] that by (auto simp: AllocationTable_instances_def bt_get_None_iff)
  show "bt_get (table_instances (fst res)) i
      = map_option (desired_on alloc release_delay st i) (bt_get (st_budgets st) i)"
    using old [of i] by (cases "bt_get (st_budgets st) i") (simp_all add: get desired_state_get [OF inv])
  have new: "bt_get (table_instances (fst res)) i
      = map_option (desired_on alloc release_delay st i) (bt_get (st_budgets st) i)" for i
    using old [of i] by (cases "bt_get (st_budgets st) i") (simp_all add: get desired_state_get [OF inv])
  have "table_instances (fst res) = bt_map (\<lambda>i b. desired_on alloc release_delay st i b) (st_budgets st)"
    using \<open>table_ok (fst res)\<close> coord_invD(4) [OF inv] by (intro bt_ext) (simp_all add: table_ok_def new)
  then show "AllocationTable_instances (fst res) = bt_keys (st_budgets st)"
    by (simp add: AllocationTable_instances_def)
  show "AllocationTable_granted (fst res) i h = (case bt_get (st_budgets st) i of
            None \<Rightarrow> 0 | Some b \<Rightarrow> Desired_granted (desired_on alloc release_delay st i b) h)"
    by (simp add: AllocationTable_granted_def new split: option.splits)
qed

lemma reconcile_cases:
  fixes st0 :: State and release_delay :: nat
  assumes inv: "coord_inv st0"
  defines "st \<equiv> State_track_idle st0"
  defines "st1 \<equiv> st\<lparr>st_table := round_table alloc release_delay st0\<rparr>"
  shows "snd (reconcile alloc release_delay st0) = Inr ()"
    and "fst (reconcile alloc release_delay st0) =
       (if published_by_proxy st1 = published_by_proxy st then st1
        else st1\<lparr>st_generation := st_generation st0 + 1,
                 st_proxies := bt_map (\<lambda>proxy ps. publish_proxy (st_generation st0 + 1)
                   (published (st_table st0) proxy) (published (round_table alloc release_delay st0) proxy) ps) (st_proxies st)\<rparr>)"
proof -
  have inv1: "coord_inv st" unfolding st_def by (rule coord_inv_track_idle [OF inv])
  have tab: "st_table st = st_table st0" by (simp add: st_def)
  obtain t' where app: "AllocationTable_apply (st_table st) (desired_state alloc release_delay st) = (t', Inr ())"
    using apply_desired(1) [OF inv1] by (metis prod.collapse)
  then have t': "round_table alloc release_delay st0 = t'" by (simp add: round_table_def st_def)
  have wf: "bt_wf (st_proxies st)" "bt_wf (st_proxies st1)"
    using coord_invD(3) [OF inv1] by (simp_all add: st1_def)
  have same: "st_proxies st1 = st_proxies st" "st_generation st1 = st_generation st0"
    "st_table st1 = round_table alloc release_delay st0"
    by (simp_all add: st1_def st_def)
  have told: "bt_get_or [] (published_by_proxy st) proxy = published (st_table st) proxy"
    "bt_get_or [] (published_by_proxy st1) proxy = published (st_table st1) proxy"
    if "(proxy, ps) \<in> set (st_proxies st)" for proxy ps
  proof -
    have "bt_get (st_proxies st) proxy = Some ps" "bt_get (st_proxies st1) proxy = Some ps"
      using that by (simp_all add: bt_get_mem [OF wf(1)] st1_def)
    then show "bt_get_or [] (published_by_proxy st) proxy = published (st_table st) proxy"
      "bt_get_or [] (published_by_proxy st1) proxy = published (st_table st1) proxy"
      by (simp_all add: bt_get_or_def published_by_proxy_get [OF wf(1)] published_by_proxy_get [OF wf(2)])
  qed
  have map: "bt_map (\<lambda>proxy ps. publish_proxy g (bt_get_or [] (published_by_proxy st) proxy)
        (bt_get_or [] (published_by_proxy st1) proxy) ps) (st_proxies st)
      = bt_map (\<lambda>proxy ps. publish_proxy g (published (st_table st) proxy) (published (st_table st1) proxy) ps) (st_proxies st)" for g
    unfolding bt_map_def by (rule map_cong [OF refl]) (auto simp: told)
  show "snd (reconcile alloc release_delay st0) = Inr ()"
    unfolding reconcile_def st_def [symmetric] Let_def app by simp
  show "fst (reconcile alloc release_delay st0) =
       (if published_by_proxy st1 = published_by_proxy st then st1
        else st1\<lparr>st_generation := st_generation st0 + 1,
                 st_proxies := bt_map (\<lambda>proxy ps. publish_proxy (st_generation st0 + 1)
                   (published (st_table st0) proxy) (published (round_table alloc release_delay st0) proxy) ps) (st_proxies st)\<rparr>)"
    unfolding reconcile_def st_def [symmetric] Let_def app
    unfolding prod.case sum.case t' [symmetric] st1_def [symmetric] same map
    unfolding same tab by simp
qed

lemma reconcile_frame:
  fixes st :: State and release_delay :: nat
  assumes inv: "coord_inv st"
  defines "st' \<equiv> fst (reconcile alloc release_delay st)"
  shows "st_table st' = round_table alloc release_delay st"
    and "st_budgets st' = st_budgets st" and "st_policies st' = st_policies st"
    and "bt_keys (st_proxies st') = bt_keys (st_proxies st)"
    and "ps_departed (proxy_at st' proxy) = ps_departed (proxy_at st proxy)"
    and "ps_demand (proxy_at st' proxy) = ps_demand (proxy_at st proxy)"
    and "proxies_wf st'"
proof -
  note r = reconcile_cases(2) [OF inv, of release_delay, folded st'_def]
  show "st_table st' = round_table alloc release_delay st" "st_budgets st' = st_budgets st"
    "st_policies st' = st_policies st" by (simp_all add: r)
  show "bt_keys (st_proxies st') = bt_keys (st_proxies st)" by (simp add: r)
  have at: "proxy_at (s\<lparr>st_generation := g, st_proxies := bt_map f ps\<rparr>) p
      = (case bt_get ps p of None \<Rightarrow> ProxyState_new | Some x \<Rightarrow> f p x)" for s g f ps p
    by (simp add: proxy_at_def bt_get_or_def split: option.splits)
  have at': "proxy_at (s\<lparr>st_table := x\<rparr>) p = proxy_at s p" for s x p
    by (simp add: proxy_at_def)
  have get: "bt_get (st_proxies s) p = Some x \<Longrightarrow> proxy_at s p = x" "bt_get (st_proxies s) p = None \<Longrightarrow> proxy_at s p = ProxyState_new"
    for s p x by (simp_all add: proxy_at_get proxy_at_none)
  show "ps_departed (proxy_at st' proxy) = ps_departed (proxy_at st proxy)"
    using track_idle_proxy(2) [of st proxy] get
    by (cases "bt_get (st_proxies (State_track_idle st)) proxy") (auto simp: r at at')
  show "ps_demand (proxy_at st' proxy) = ps_demand (proxy_at st proxy)"
    using track_idle_proxy(4) [of st proxy] get
    by (cases "bt_get (st_proxies (State_track_idle st)) proxy") (auto simp: r at at')
  have wf: "proxies_wf (State_track_idle st)" using coord_invD(2) [OF inv] by simp
  have "bt_wf (ps_held (proxy_at st' p))" for p
    using wf get [of "State_track_idle st" p]
    by (cases "bt_get (st_proxies (State_track_idle st)) p")
      (auto simp: r at at' proxies_wf_iff ProxyState_new_def intro!: publish_proxy_wf)
  moreover have "bt_wf (st_proxies st')"
    using wf by (simp add: r proxies_wf_def)
  ultimately show "proxies_wf st'" by (simp add: proxies_wf_iff)
qed

lemma reconcile_table:
  assumes inv: "coord_inv st"
  shows "table_ok (round_table alloc release_delay st)"
    and "AllocationTable_instances (round_table alloc release_delay st) = bt_keys (st_budgets st)"
    and "AllocationTable_granted (round_table alloc release_delay st) i h = (case bt_get (st_budgets st) i of
            None \<Rightarrow> 0 | Some b \<Rightarrow> Desired_granted (desired_on alloc release_delay (State_track_idle st) i b) h)"
  using apply_desired [OF coord_inv_track_idle [OF inv], of release_delay]
  by (simp_all add: round_table_def)

lemma reconcile_unserved:
  assumes inv: "coord_inv st" and no: "Holder tenant proxy \<notin> served (State_track_idle st) i"
  shows "AllocationTable_granted (round_table alloc release_delay st) i (Holder tenant proxy) = 0"
  using desired_on_spec(4) [OF coord_inv_track_idle [OF inv] _ no] coord_invD(5) [OF inv]
  by (auto simp: reconcile_table(3) [OF inv] split: option.splits)

text \<open>The heart of the bookkeeping: a round counts every grant as occupied and frees nothing.\<close>

lemma reconcile_gr_kept:
  fixes st :: State and release_delay :: nat
  assumes inv: "coord_inv st"
  defines "st' \<equiv> fst (reconcile alloc release_delay st)"
  assumes eq: "gr st' proxy slot = gr st proxy slot"
  shows "gr st' proxy slot \<le> occ st proxy slot"
proof (cases "ps_departed (proxy_at st proxy)")
  case True
  have "st_table st' = round_table alloc release_delay st" using reconcile_frame(1) [OF inv] by (simp add: st'_def)
  with reconcile_unserved [OF inv served_departed [OF True]] show ?thesis by simp
next
  case False
  with coord_invD(8) [OF inv] eq show ?thesis by simp
qed

lemma reconcile_occ:
  fixes st :: State and release_delay :: nat
  assumes inv: "coord_inv st"
  defines "st' \<equiv> fst (reconcile alloc release_delay st)"
  shows "occ st' proxy slot = max (occ st proxy slot) (gr st' proxy slot)"
proof -
  let ?st = "State_track_idle st"
  have inv1: "coord_inv ?st" by (rule coord_inv_track_idle [OF inv])
  have tab: "st_table st' = round_table alloc release_delay st"
    using reconcile_frame(1) [OF inv] by (simp add: st'_def)
  have ok: "table_ok (st_table st)" "table_ok (round_table alloc release_delay st)"
    using coord_invD(1) [OF inv] reconcile_table(1) [OF inv] by simp_all
  note same = reconcile_gr_kept [OF inv, where release_delay = release_delay and proxy = proxy and slot = slot, folded st'_def]
  show ?thesis
  proof (cases "bt_get (st_proxies ?st) proxy")
    case None
    then have "bt_get (st_proxies st) proxy = None" "bt_get (st_proxies st') proxy = None"
      using contains_keys [OF track_idle_frame(6), of st proxy] contains_keys [OF reconcile_frame(4) [OF inv], of release_delay proxy]
      by (auto simp: st'_def)
    moreover have "gr st' proxy slot = 0"
      unfolding tab using None by (intro reconcile_unserved [OF inv]) (simp add: served_def)
    ultimately show ?thesis by (simp add: proxy_at_none)
  next
    case (Some ps)
    have ps: "ProxyState_occupied ps slot = occ st proxy slot"
      using occ_track_idle [of st proxy slot] by (simp add: proxy_at_get [OF Some])
    have wf: "bt_wf (ps_held ps)"
      using coord_invD(2) [OF inv1] proxy_at_get [OF Some] by (auto simp: proxies_wf_iff)
    show ?thesis
    proof (cases "published_by_proxy (?st\<lparr>st_table := round_table alloc release_delay st\<rparr>) = published_by_proxy ?st")
      case True
      have "published (round_table alloc release_delay st) proxy = published (st_table st) proxy"
        using published_by_proxy_eq [OF coord_invD(3) [OF inv1] _ True, of proxy] Some by simp
      then have "gr st' proxy slot = gr st proxy slot"
        using published_get_or [OF ok(1), of proxy slot] published_get_or [OF ok(2), of proxy slot] by (simp add: tab)
      moreover have "occ st' proxy slot = occ st proxy slot"
        using True by (simp add: st'_def reconcile_cases(2) [OF inv] proxy_at_def occ_track_idle [unfolded proxy_at_def])
      ultimately show ?thesis using same by simp
    next
      case False
      have "proxy_at st' proxy = publish_proxy (st_generation st + 1) (published (st_table st) proxy)
          (published (round_table alloc release_delay st) proxy) ps"
        using False Some by (simp add: st'_def reconcile_cases(2) [OF inv] proxy_at_def bt_get_or_def)
      then have "occ st' proxy slot = (if gr st proxy slot \<noteq> gr st' proxy slot
          then max (occ st proxy slot) (gr st' proxy slot) else occ st proxy slot)"
        using publish_proxy_occ [OF wf] ok by (simp add: ps tab)
      with same show ?thesis by auto
    qed
  qed
qed

lemma reconcile_departed:
  fixes st :: State and release_delay :: nat
  assumes inv: "coord_inv st" and dep: "ps_departed (proxy_at st proxy)"
  defines "st' \<equiv> fst (reconcile alloc release_delay st)"
  assumes zero: "\<And>slot. gr st' proxy slot = 0"
  shows "ps_held (proxy_at st' proxy) = []"
proof -
  let ?st = "State_track_idle st"
  have held: "ps_held (proxy_at ?st proxy) = []" using coord_invD(9) [OF inv dep] by simp
  have ok: "table_ok (round_table alloc release_delay st)" by (rule reconcile_table(1) [OF inv])
  have after: "bt_get (published (round_table alloc release_delay st) proxy) slot = None" for slot
    using zero [of slot] by (simp add: published_get [OF ok] st'_def reconcile_frame(1) [OF inv])
  show ?thesis
  proof (cases "bt_get (st_proxies ?st) proxy")
    case None
    then have "bt_get (st_proxies st') proxy = None"
      using contains_keys [OF track_idle_frame(6), of st proxy] contains_keys [OF reconcile_frame(4) [OF inv], of release_delay proxy]
      by (auto simp: st'_def)
    then show ?thesis by (simp add: proxy_at_none ProxyState_new_def)
  next
    case (Some ps)
    have none: "ps_held ps = []" using held by (simp add: proxy_at_get [OF Some])
    let ?before = "published (st_table st) proxy" and ?after = "published (round_table alloc release_delay st) proxy"
    let ?ps' = "publish_proxy (st_generation st + 1) ?before ?after ps"
    have "ps_held ?ps' = []"
    proof (cases "?before = ?after")
      case False
      have "bt_get (ps_held ?ps') slot = None" for slot
        using publish_proxy_held [of ps, OF _ False] none after [of slot]
        by (simp add: bt_get_or_def ProxyState_occupied_def)
      then show ?thesis by (intro bt_ext) (simp_all add: publish_proxy_wf none)
    qed (simp add: publish_proxy_def none)
    then show ?thesis
      using Some none
      by (auto simp: st'_def reconcile_cases(2) [OF inv] proxy_at_def bt_get_or_def)
  qed
qed

lemma reconcile_inv:
  assumes inv: "coord_inv st"
  shows "coord_inv (fst (reconcile alloc release_delay st))"
proof -
  let ?st = "State_track_idle st" and ?st' = "fst (reconcile alloc release_delay st)"
  note frame = reconcile_frame [OF inv, of release_delay]
  have contains: "bt_contains (st_proxies ?st') proxy" if "0 < gr ?st' proxy slot" for proxy slot
  proof -
    have "Holder (snd slot) proxy \<in> served ?st (fst slot)"
      using reconcile_unserved [OF inv, of "snd slot" proxy "fst slot" release_delay] that by (auto simp: frame(1))
    then have "bt_contains (st_proxies ?st) proxy" by (auto simp: served_def)
    then show ?thesis
      using contains_keys [OF frame(4)] contains_keys [OF track_idle_frame(6)] by blast
  qed
  have covered: "gr ?st' proxy slot \<le> occ ?st' proxy slot" for proxy slot
    unfolding reconcile_occ [OF inv] by simp
  have departed: "ps_held (proxy_at ?st' proxy) = []" if dep: "ps_departed (proxy_at ?st' proxy)" for proxy
  proof -
    from dep have "ps_departed (proxy_at st proxy)" by (simp add: frame(5))
    then have "gr ?st' proxy slot = 0" for slot
      using reconcile_unserved [OF inv served_departed] by (simp add: frame(1))
    then show ?thesis by (rule reconcile_departed [OF inv \<open>ps_departed (proxy_at st proxy)\<close>])
  qed
  show ?thesis
    unfolding coord_inv_def frame(2)
    using frame(7) reconcile_table(1,2) [OF inv] coord_invD(4) [OF inv] contains covered departed
      inv [unfolded coord_inv_def]
    by (auto simp: frame(1))
qed

lemma reconcile_total:
  assumes inv: "coord_inv st"
  shows "occupied_total (fst (reconcile alloc release_delay st)) i
     \<le> (case budget_total st i of None \<Rightarrow> occupied_total st i | Some budget \<Rightarrow> max budget (occupied_total st i))"
proof -
  let ?st = "State_track_idle st" and ?st' = "fst (reconcile alloc release_delay st)"
  let ?P = "fst ` set (st_proxies st) \<union> fst ` set (st_proxies ?st') \<union> Holder_proxy ` served ?st i"
  let ?T = "held_tenants st \<union> held_tenants ?st' \<union> Holder_tenant ` served ?st i"
  have fin: "finite (served ?st i)"
    using coord_invD(3) [OF coord_inv_track_idle [OF inv]] by (rule finite_served)
  have old: "occupied_total st i = (\<Sum>p \<in> ?P. \<Sum>t \<in> ?T. occ st p (i, t))"
    using fin by (intro occupied_total_sum coord_invD(2) [OF inv]) auto
  have new: "occupied_total ?st' i = (\<Sum>p \<in> ?P. \<Sum>t \<in> ?T. occ ?st' p (i, t))"
    using fin by (intro occupied_total_sum reconcile_frame(7) [OF inv]) auto
  let ?extra = "\<lambda>h. AllocationTable_granted (round_table alloc release_delay st) i h - visit_occ st i h"
  have step: "occ ?st' p (i, t) = occ st p (i, t) + ?extra (Holder t p)" for p t
    unfolding reconcile_occ [OF inv] by (simp add: visit_occ_def reconcile_frame(1) [OF inv])
  have "(\<Sum>p \<in> ?P. \<Sum>t \<in> ?T. ?extra (Holder t p)) = (\<Sum>h \<in> (\<lambda>(p, t). Holder t p) ` (?P \<times> ?T). ?extra h)"
    unfolding sum.cartesian_product by (subst sum.reindex) (auto simp: inj_on_def intro: sum.cong)
  also have "\<dots> = (\<Sum>h \<in> served ?st i. ?extra h)"
  proof (rule sum.mono_neutral_right)
    show "finite ((\<lambda>(p, t). Holder t p) ` (?P \<times> ?T))" using fin by simp
    show "served ?st i \<subseteq> (\<lambda>(p, t). Holder t p) ` (?P \<times> ?T)"
    proof
      fix h assume "h \<in> served ?st i"
      then show "h \<in> (\<lambda>(p, t). Holder t p) ` (?P \<times> ?T)"
        by (intro image_eqI [of _ _ "(Holder_proxy h, Holder_tenant h)"]) auto
    qed
    show "\<forall>h \<in> (\<lambda>(p, t). Holder t p) ` (?P \<times> ?T) - served ?st i. ?extra h = 0"
      using reconcile_unserved [OF inv] by auto
  qed
  finally have total: "occupied_total ?st' i = occupied_total st i + (\<Sum>h \<in> served ?st i. ?extra h)"
    unfolding new step old by (simp add: sum.distrib)
  show ?thesis
  proof (cases "bt_get (st_budgets st) i")
    case None
    then show ?thesis by (simp add: total reconcile_table(3) [OF inv] budget_total_def)
  next
    case (Some b)
    let ?B = "tb_total (ib_budget b)"
    have B: "?B \<le> u32_max" using coord_invD(5) [OF inv Some] .
    have "(\<Sum>h \<in> served ?st i. ?extra h) \<le> ?B - State_occupied_on ?st i"
      using desired_on_spec(5) [OF coord_inv_track_idle [OF inv] B, of release_delay i]
      by (simp add: reconcile_table(3) [OF inv] Some visit_occ_def)
    moreover have "State_occupied_on ?st i = clamp32 (occupied_total st i)"
      using coord_invD(2) [OF inv] by (simp add: occupied_on_total)
    ultimately show ?thesis using B by (auto simp: total budget_total_def Some clamp32_def min_def split: if_splits)
  qed
qed

end

end
