(* ===== verification/Coordinator.thy ===== *)
theory Coordinator
  imports Grant
begin

text \<open>
  The coordinator as a transition system: every operation of \<^verbatim>\<open>crates/core/src/grant.rs\<close> that takes
  the state lock is a step. The invariant of the bookkeeping is shown for each operation, and the
  properties hold in every state the steps reach, with the allocator the node runs: the allocation
  table never rejects a desired state, a round never lets more be occupied than the budget or what
  was occupied already, and a margin that shrinks a budget is answered once the instance is within it.
\<close>

section \<open>Operations keep the invariant\<close>

lemma proxy_at_insert [simp]:
  "proxy_at (st\<lparr>st_proxies := bt_insert proxy ps m\<rparr>) p
     = (if p = proxy then ps else bt_get_or ProxyState_new m p)"
  by (simp add: proxy_at_def)

lemma proxy_at_other [simp]:
  "proxy_at (st\<lparr>st_budgets := b\<rparr>) p = proxy_at st p"
  "proxy_at (st\<lparr>st_policies := c\<rparr>) p = proxy_at st p"
  "proxy_at (st\<lparr>st_now := n\<rparr>) p = proxy_at st p"
  by (simp_all add: proxy_at_def)

text \<open>Replacing the state of one proxy.\<close>

lemma coord_inv_update:
  assumes inv: "coord_inv st" and "bt_wf (ps_held ps)"
    and "\<And>slot. \<not> ps_departed ps \<Longrightarrow> gr st proxy slot \<le> ProxyState_occupied ps slot"
    and "ps_departed ps \<Longrightarrow> ps_held ps = []"
  shows "coord_inv (st\<lparr>st_proxies := bt_insert proxy ps (st_proxies st)\<rparr>)"
proof -
  let ?st = "st\<lparr>st_proxies := bt_insert proxy ps (st_proxies st)\<rparr>"
  have at: "proxy_at ?st p = (if p = proxy then ps else proxy_at st p)" for p
    by (simp add: proxy_at_def)
  have wf: "proxies_wf ?st"
    using coord_invD(2) [OF inv] assms(2) unfolding proxies_wf_iff at by simp
  have known: "\<forall>p slot. 0 < gr ?st p slot \<longrightarrow> bt_contains (st_proxies ?st) p"
    using coord_invD(7) [OF inv] by fastforce
  have covered: "\<forall>p slot. \<not> ps_departed (proxy_at ?st p) \<longrightarrow> gr ?st p slot \<le> occ ?st p slot"
  proof (intro allI impI)
    fix p slot assume "\<not> ps_departed (proxy_at ?st p)"
    then show "gr ?st p slot \<le> occ ?st p slot"
      unfolding at by (cases "p = proxy") (simp_all add: assms(3) coord_invD(8) [OF inv])
  qed
  have departed: "\<forall>p. ps_departed (proxy_at ?st p) \<longrightarrow> ps_held (proxy_at ?st p) = []"
    unfolding at using coord_invD(9) [OF inv] assms(4) by simp
  show ?thesis
    unfolding coord_inv_def
    by (intro conjI wf known covered departed) (use inv in \<open>simp_all add: coord_inv_def\<close>)
qed

lemma coord_inv_budget:
  assumes inv: "coord_inv st" and b: "tb_total (ib_budget b) \<le> u32_max"
  shows "coord_inv (st\<lparr>st_budgets := bt_insert i b (st_budgets st)\<rparr>)"
proof -
  let ?st = "st\<lparr>st_budgets := bt_insert i b (st_budgets st)\<rparr>"
  have wf: "bt_wf (st_budgets st)" by (rule coord_invD(4) [OF inv])
  have "\<forall>(j, c) \<in> set (st_budgets ?st). tb_total (ib_budget c) \<le> u32_max"
    using inv b by (auto simp: coord_inv_def set_bt_insert [OF wf])
  moreover have "proxies_wf ?st = proxies_wf st" by (simp add: proxies_wf_def)
  ultimately show ?thesis
    using inv unfolding coord_inv_def by (simp add: subset_insertI2)
qed

lemma coord_inv_set_policies: "coord_inv st \<Longrightarrow> coord_inv (st\<lparr>st_policies := c\<rparr>)"
  by (rule coord_inv_frame) simp_all

lemma coord_inv_set_now: "coord_inv st \<Longrightarrow> coord_inv (st\<lparr>st_now := n\<rparr>)"
  by (rule coord_inv_frame) simp_all

lemma derive_total_bound: "tb_total (TotalBudget_derive i) \<le> u32_max"
  by (simp add: TotalBudget_derive_def Let_def)

lemma with_margin_bound [simp]: "tb_total (InstanceBudget_with_margin b margin) \<le> u32_max"
  by (simp add: InstanceBudget_with_margin_def derive_total_bound)

lemma derived_total_bound: "tb_total (ib_budget (fst (InstanceBudget_derive b))) \<le> u32_max"
  by (simp add: InstanceBudget_with_margin_def derive_total_bound)

text \<open>A report: what it says of a slot counts once it was measured against the slot's last change.\<close>

lemma report_for_eq:
  assumes "bt_get (st_proxies st) proxy = Some ps"
  shows "report_for proxy r st = st\<lparr>st_proxies := bt_insert proxy (proxy_at (report_for proxy r st) proxy) (st_proxies st)\<rparr>"
  using assms by (simp add: report_for_def Let_def)

lemma report_for_held:
  assumes "table_ok (st_table st)" "bt_get (st_proxies st) proxy = Some ps" "bt_wf (ps_held ps)"
  shows "bt_get (ps_held (proxy_at (report_for proxy r st) proxy)) slot =
     (case bt_get (ps_held ps) slot of
        None \<Rightarrow> None
      | Some h \<Rightarrow>
          let h' = (if report_generation r \<ge> held_changed_at h
                    then h\<lparr>held_occupied := max (gr st proxy slot) (usage_actual (Report_get r (fst slot) (snd slot)))\<rparr>
                    else h)
          in if held_occupied h' > 0 \<or> gr st proxy slot > 0 then Some h' else None)"
  using assms
  by (auto simp: report_for_def Let_def bt_get_retain published_get split: option.splits)

lemma report_for_proxy:
  assumes "bt_get (st_proxies st) proxy = Some ps"
  shows "ps_departed (proxy_at (report_for proxy r st) proxy) = ps_departed ps"
    and "ps_grants (proxy_at (report_for proxy r st) proxy) = ps_grants ps"
    and "bt_wf (ps_held ps) \<Longrightarrow> bt_wf (ps_held (proxy_at (report_for proxy r st) proxy))"
    and "ps_held ps = [] \<Longrightarrow> ps_held (proxy_at (report_for proxy r st) proxy) = []"
  using assms by (simp_all add: report_for_def Let_def) (simp add: bt_map_def bt_retain_def)

lemma coord_inv_report: 
  assumes inv: "coord_inv st"
  shows "coord_inv (report_for proxy r st)"
proof (cases "bt_get (st_proxies st) proxy")
  case None
  then show ?thesis using inv by (simp add: report_for_def Let_def)
next
  case (Some ps)
  let ?ps = "proxy_at (report_for proxy r st) proxy"
  have at: "proxy_at st proxy = ps" using Some by (rule proxy_at_get)
  have wf: "bt_wf (ps_held ps)" using coord_invD(2) [OF inv] at by (auto simp: proxies_wf_iff)
  have "gr st proxy slot \<le> ProxyState_occupied ?ps slot" if "\<not> ps_departed ps" for slot
    using coord_invD(8) [OF inv, where proxy = proxy and slot = slot] that at
    by (auto simp: ProxyState_occupied_def report_for_held [OF coord_invD(1) [OF inv] Some wf] Let_def
        split: option.splits)
  moreover have "ps_departed ps \<Longrightarrow> ps_held ps = []" using coord_invD(9) [OF inv] at by metis
  ultimately show ?thesis
    by (subst report_for_eq [OF Some], intro coord_inv_update [OF inv]) (simp_all add: report_for_proxy [OF Some] wf)
qed

lemma coord_inv_mark_departed: "coord_inv st \<Longrightarrow> coord_inv (mark_departed proxy st)"
  unfolding mark_departed_def by (auto intro!: coord_inv_update split: option.splits)

lemma coord_inv_channel:
  assumes "coord_inv st"
  shows "coord_inv (channel proxy st)"
proof (cases "bt_contains (st_proxies st) proxy")
  case False
  then have "gr st proxy slot = 0" for slot using coord_invD(7) [OF assms, where proxy = proxy and slot = slot] by auto
  with False assms show ?thesis
    unfolding channel_def by (auto intro!: coord_inv_update simp: ProxyState_new_def)
qed (simp add: channel_def assms)

lemma coord_inv_default: "coord_inv State_default"
  by (simp add: coord_inv_def proxies_wf_def State_default_def table_ok_def AllocationTable_new_def
      AllocationTable_instances_def AllocationTable_granted_def ProxyState_new_def proxy_at_def)

lemma coord_inv_new: "coord_inv (InProcessCoordinator_new proxy)"
  using coord_inv_channel [OF coord_inv_default, of proxy]
  by (simp add: InProcessCoordinator_new_def channel_def) (simp add: State_default_def)

lemma coord_inv_observe: "coord_inv st \<Longrightarrow> coord_inv (fst (observe_instance i at n st))"
  unfolding observe_instance_def InstanceBudget_observe_def
  by (auto simp: case_prod_unfold Let_def derived_total_bound intro!: coord_inv_budget split: option.splits)

section \<open>Steps\<close>

inductive coord_step :: "allocator \<Rightarrow> nat \<Rightarrow> State \<Rightarrow> State \<Rightarrow> bool" for alloc release_delay where
  step_reconcile: "coord_step alloc release_delay st (fst (reconcile alloc release_delay st))"
| step_reconcile_at: "coord_step alloc release_delay st (fst (reconcile_at alloc release_delay now st))"
| step_report: "coord_step alloc release_delay st (report_for proxy r st)"
| step_add_instance:
    "tb_total (ib_budget b) \<le> u32_max \<Longrightarrow> coord_step alloc release_delay st (add_instance i b st)"
| step_observe: "coord_step alloc release_delay st (fst (observe_instance i at n st))"
| step_set_policies: "coord_step alloc release_delay st (set_policies policies st)"
| step_set_tenant: "coord_step alloc release_delay st (fst (set_tenant alloc release_delay tenant change st))"
| step_set_margin: "coord_step alloc release_delay st (fst (set_margin alloc release_delay i margin st))"
| step_mark_departed: "coord_step alloc release_delay st (mark_departed proxy st)"
| step_channel: "coord_step alloc release_delay st (channel proxy st)"

inductive coord_reachable :: "allocator \<Rightarrow> nat \<Rightarrow> State \<Rightarrow> bool" for alloc release_delay where
  coord_start: "coord_reachable alloc release_delay (InProcessCoordinator_new proxy)"
| coord_next: "coord_reachable alloc release_delay st \<Longrightarrow> coord_step alloc release_delay st st' \<Longrightarrow>
    coord_reachable alloc release_delay st'"

interpretation coord: transition_system "\<lambda>st. \<exists>proxy. st = InProcessCoordinator_new proxy"
    "coord_step alloc release_delay" "coord_reachable alloc release_delay" for alloc release_delay
proof
  fix s P
  assume "coord_reachable alloc release_delay s"
    and init: "\<And>t. \<exists>proxy. t = InProcessCoordinator_new proxy \<Longrightarrow> P t"
    and step: "\<And>t u. coord_reachable alloc release_delay t \<Longrightarrow> P t \<Longrightarrow> coord_step alloc release_delay t u \<Longrightarrow> P u"
  from this(1) show "P s"
    by (induction rule: coord_reachable.induct) (rule init, blast, rule step)
qed

context coordinator
begin

lemma reconcile_total_granted:
  assumes inv: "coord_inv st"
  shows "AllocationTable_granted_total (round_table alloc release_delay st) i
     \<le> (case budget_total st i of None \<Rightarrow> 0 | Some budget \<Rightarrow> budget)"
proof -
  note get = apply_desired(5) [OF coord_inv_track_idle [OF inv], of release_delay i]
  show ?thesis
  proof (cases "bt_get (st_budgets st) i")
    case None
    then show ?thesis
      using get by (simp add: AllocationTable_granted_total_def round_table_def clamp32_def)
  next
    case (Some b)
    note spec = desired_on_spec(3) [OF coord_inv_track_idle [OF inv] coord_invD(5) [OF inv Some], of release_delay i]
    then have "clamp32 (desired_total (desired_on alloc release_delay (State_track_idle st) i b)) \<le> tb_total (ib_budget b)"
      by (simp add: clamp32_def)
    then show ?thesis
      using get Some by (simp add: AllocationTable_granted_total_def round_table_def budget_total_def)
  qed
qed

lemma coord_inv_set_tenant:
  "coord_inv st \<Longrightarrow> coord_inv (fst (set_tenant alloc release_delay tenant change st))"
  unfolding set_tenant_def by (auto intro!: reconcile_inv coord_inv_set_policies split: sum.splits)

lemma coord_inv_set_margin:
  "coord_inv st \<Longrightarrow> coord_inv (fst (set_margin alloc release_delay i margin st))"
  unfolding set_margin_def InstanceBudget_set_margin_def
  by (auto simp: Let_def case_prod_unfold intro!: reconcile_inv coord_inv_budget split: option.splits)

lemma coord_inv_step:
  assumes "coord_inv st" "coord_step alloc release_delay st st'"
  shows "coord_inv st'"
  using assms(2,1)
proof cases
  case step_reconcile
  with assms(1) show ?thesis by (simp add: reconcile_inv)
next
  case (step_reconcile_at now)
  with assms(1) show ?thesis by (simp add: reconcile_at_def reconcile_inv coord_inv_set_now)
next
  case (step_set_policies policies)
  with assms(1) show ?thesis by (simp add: set_policies_def coord_inv_set_policies)
qed (simp_all add: assms(1) coord_inv_report add_instance_def coord_inv_budget coord_inv_observe
    coord_inv_set_tenant coord_inv_set_margin coord_inv_mark_departed coord_inv_channel)

lemma coord_inv_reachable: "coord_reachable alloc release_delay st \<Longrightarrow> coord_inv st"
  by (rule coord.invariant [of alloc release_delay]) (auto intro: coord_inv_new coord_inv_step)

end

text \<open>The node runs the weighted max-min fair allocator.\<close>

interpretation node: coordinator "allocate release" for release
  by unfold_locales

section \<open>Consequences\<close>

lemma occ_le_total:
  assumes "proxies_wf st"
  shows "occ st proxy (i, tenant) \<le> occupied_total st i"
proof (cases "bt_get (st_proxies st) proxy")
  case None
  then show ?thesis by (simp add: proxy_at_none)
next
  case (Some ps)
  let ?P = "fst ` set (st_proxies st)" and ?T = "insert tenant (held_tenants st)"
  have "occ st proxy (i, tenant) \<le> (\<Sum>t \<in> ?T. occ st proxy (i, t))"
    by (rule member_le_sum) auto
  also have "\<dots> \<le> (\<Sum>p \<in> ?P. \<Sum>t \<in> ?T. occ st p (i, t))"
    by (rule member_le_sum) (use bt_get_SomeD [OF Some] in force)+
  also have "\<dots> = occupied_total st i"
    by (rule occupied_total_sum [OF assms, symmetric]) auto
  finally show ?thesis .
qed

lemma within_budget_total:
  assumes "within_budget st i" "budget_total st i = Some budget" "budget < u32_max"
  shows "occupied_total st i \<le> budget"
  using assms by (simp add: within_budget_def occupied_on_total clamp32_def min_def split: if_splits)

lemma converged_within: "converged i seen = Some st \<Longrightarrow> st \<in> set seen \<and> within_budget st i"
  by (induction i seen rule: converged.induct) (auto split: if_splits)

section \<open>Properties\<close>

text \<open>A reachable state used by the witnesses: one instance of ten connections, one demanding proxy.\<close>

definition demo_limits :: ServerLimits where
  "demo_limits = \<lparr>max_connections = 10, superuser_reserved_connections = 3, reserved_connections = 0\<rparr>"

definition demo_policies :: Policies where
  "demo_policies = Policies_tenant Policies_new ''*''
     \<lparr>rule_instances = [InstanceId ''db''], rule_policy = \<lparr>policy_min = 1, policy_max = 9, policy_weight = 1\<rparr>\<rparr>"

definition demo_report :: Report where
  "demo_report = Report_usage (Report_new 0) (InstanceId ''db'') (TenantId ''u'' ''d'')
     \<lparr>usage_demand = 4, usage_actual = 0\<rparr>"

definition demo_state :: State where
  "demo_state = report_for (ProxyId ''p'') demo_report (set_policies demo_policies
     (add_instance (InstanceId ''db'') (InstanceBudget_new demo_limits 1 60)
       (InProcessCoordinator_new (ProxyId ''p''))))"

lemma demo_reachable: "coord_reachable alloc release_delay demo_state"
  unfolding demo_state_def
  by (intro coord_next [OF _ step_report] coord_next [OF _ step_set_policies]
      coord_next [OF _ step_add_instance] coord_start)
    (simp add: InstanceBudget_new_def Let_def derive_total_bound)

lemma demo_budget: "budget_total demo_state (InstanceId ''db'') = Some 6"
  by code_simp

text \<open>
  C26: The allocation table never rejects what the coordinator computes: in every reachable state a
  round succeeds, and after it the slots granted on each instance are within its budget.
\<close>

theorem reconcile_never_rejected:
  assumes "coord_reachable (allocate release) release_delay st"
  shows "snd (reconcile (allocate release) release_delay st) = Inr ()
     \<and> (\<forall>i. AllocationTable_granted_total (st_table (fst (reconcile (allocate release) release_delay st))) i
          \<le> (case budget_total st i of None \<Rightarrow> 0 | Some budget \<Rightarrow> budget))"
proof -
  note inv = node.coord_inv_reachable [OF assms]
  let ?t = "round_table (allocate release) release_delay st"
  have "AllocationTable_granted_total ?t i \<le> (case budget_total st i of None \<Rightarrow> 0 | Some budget \<Rightarrow> budget)" for i
    using node.reconcile_total_granted [OF inv] by simp
  with node.reconcile_cases(1) [OF inv] node.reconcile_frame(1) [OF inv] show ?thesis by simp
qed

theorem reconcile_never_rejected_witness:
  "snd (reconcile (allocate 1) 30 demo_state) = Inr ()"
  using reconcile_never_rejected [OF demo_reachable] by blast

text \<open>
  C25: A round never overcommits an instance. What may be held on it afterwards, every grant counted in
  full, is at most the budget or what might have been held before, whichever is more; every grant is
  covered by what its holder is counted with; and a round frees nothing of what was counted.
\<close>

theorem reconcile_never_overcommits:
  assumes "coord_reachable (allocate release) release_delay st" "budget_total st i = Some budget"
    and "st' = fst (reconcile (allocate release) release_delay st)"
  shows "occupied_total st' i \<le> max budget (occupied_total st i)
     \<and> (\<forall>proxy tenant. ProxyState_occupied (proxy_at st' proxy) (i, tenant)
          = max (ProxyState_occupied (proxy_at st proxy) (i, tenant))
                (AllocationTable_granted (st_table st') i (Holder tenant proxy)))"
proof -
  note inv = node.coord_inv_reachable [OF assms(1)]
  have "occupied_total st' i \<le> max budget (occupied_total st i)"
    using node.reconcile_total [OF inv, where release_delay = release_delay and i = i] assms(2,3) by simp
  moreover have "ProxyState_occupied (proxy_at st' proxy) (i, tenant)
      = max (ProxyState_occupied (proxy_at st proxy) (i, tenant))
            (AllocationTable_granted (st_table st') i (Holder tenant proxy))" for proxy tenant
    unfolding assms(3) by (subst node.reconcile_occ [OF inv]) simp
  ultimately show ?thesis by blast
qed

theorem reconcile_never_overcommits_witness:
  "occupied_total (fst (reconcile (allocate 1) 30 demo_state)) (InstanceId ''db'')
     \<le> max 6 (occupied_total demo_state (InstanceId ''db''))"
  using reconcile_never_overcommits [OF demo_reachable demo_budget refl] by blast

text \<open>
  A report is believed exactly as far as it was measured. For a proxy that has not departed, a slot
  whose last change is not later than the report's generation is counted with the grant or the
  reported connections, whichever is more; a slot changed later keeps the count it had.
\<close>

theorem report_settles:
  assumes "coord_reachable (allocate release) release_delay st"
    and "bt_get (st_proxies st) proxy = Some ps" "bt_get (ps_held ps) slot = Some h"
  shows "ProxyState_occupied (proxy_at (report_for proxy r st) proxy) slot =
     (if held_changed_at h \<le> report_generation r
      then max (AllocationTable_granted (st_table st) (fst slot) (Holder (snd slot) proxy))
               (usage_actual (Report_get r (fst slot) (snd slot)))
      else held_occupied h)"
proof -
  note inv = node.coord_inv_reachable [OF assms(1)]
  have "bt_wf (ps_held ps)"
    using coord_invD(2) [OF inv] proxy_at_get [OF assms(2)] by (auto simp: proxies_wf_iff)
  from report_for_held [OF coord_invD(1) [OF inv] assms(2) this, of r slot] assms(3) show ?thesis
    by (auto simp: ProxyState_occupied_def Let_def)
qed

theorem report_settles_witness:
  "let st = fst (reconcile (allocate 1) 30 demo_state);
       r = Report_usage (Report_new 1) (InstanceId ''db'') (TenantId ''u'' ''d'') \<lparr>usage_demand = 0, usage_actual = 5\<rparr>
   in ProxyState_occupied (proxy_at (report_for (ProxyId ''p'') r st) (ProxyId ''p''))
        (InstanceId ''db'', TenantId ''u'' ''d'') = 5"
proof -
  let ?st = "fst (reconcile (allocate 1) 30 demo_state)"
  let ?slot = "(InstanceId ''db'', TenantId ''u'' ''d'')"
  let ?r = "Report_usage (Report_new 1) (InstanceId ''db'') (TenantId ''u'' ''d'') \<lparr>usage_demand = 0, usage_actual = 5\<rparr>"
  have reach: "coord_reachable (allocate 1) 30 ?st" by (intro coord_next [OF demo_reachable] step_reconcile)
  have held: "map_option ps_held (bt_get (st_proxies ?st) (ProxyId ''p''))
      = Some [(?slot, \<lparr>held_changed_at = 1, held_occupied = 4\<rparr>)]" by code_simp
  then obtain ps where ps: "bt_get (st_proxies ?st) (ProxyId ''p'') = Some ps"
    and h: "bt_get (ps_held ps) ?slot = Some \<lparr>held_changed_at = 1, held_occupied = 4\<rparr>"
    by (auto simp: bt_get_Cons)
  have gr: "AllocationTable_granted (st_table ?st) (fst ?slot) (Holder (snd ?slot) (ProxyId ''p'')) = 4" by code_simp
  have r: "report_generation ?r = 1" "usage_actual (Report_get ?r (fst ?slot) (snd ?slot)) = 5" by code_simp+
  show ?thesis
    unfolding Let_def report_settles [OF reach ps h] gr r by simp
qed

text \<open>
  A margin is answered truthfully. A refused margin leaves the state as it was. An accepted one is
  in force: the minimums fit the new budget, and the answer waits exactly when the budget shrank.
\<close>

theorem set_margin_answers:
  assumes "coord_reachable (allocate release) release_delay st"
    and "set_margin (allocate release) release_delay i margin st = (st', answer)"
  shows "case answer of
     Inl err \<Rightarrow> st' = st \<and> (err = NoSuchInstance i \<and> budget_total st i = None
       \<or> (\<exists>minimums budget. err = AboveBudget i minimums budget \<and> budget < minimums))
   | Inr waits \<Rightarrow> (\<exists>old new. budget_total st i = Some old \<and> budget_total st' i = Some new
       \<and> Policies_minimums_on (st_policies st') i \<le> new \<and> (waits \<longleftrightarrow> new < old))"
proof (cases "bt_get (st_budgets st) i")
  case None
  with assms(2) show ?thesis by (auto simp: set_margin_def budget_total_def)
next
  case (Some b)
  note inv = node.coord_inv_reachable [OF assms(1)]
  let ?new = "InstanceBudget_with_margin b margin"
  show ?thesis
  proof (cases "Policies_minimums_on (st_policies st) i > tb_total ?new")
    case True
    with assms(2) Some show ?thesis by (auto simp: set_margin_def Let_def)
  next
    case False
    obtain b' change where set: "InstanceBudget_set_margin b margin = (b', change)" by fastforce
    let ?st = "st\<lparr>st_budgets := bt_insert i b' (st_budgets st)\<rparr>"
    have b': "ib_budget b' = ?new"
      using set by (auto simp: InstanceBudget_set_margin_def InstanceBudget_derive_def
          InstanceBudget_with_margin_def Let_def)
    have change: "(case change of Shrank _ _ \<Rightarrow> True | _ \<Rightarrow> False) \<longleftrightarrow> tb_total ?new < tb_total (ib_budget b)"
      using set by (auto simp: InstanceBudget_set_margin_def InstanceBudget_derive_def
          InstanceBudget_with_margin_def Let_def cmp_def split: if_splits)
    have inv': "coord_inv ?st" using inv by (rule coord_inv_budget) (simp add: b')
    from assms(2) Some False set have st': "st' = fst (reconcile (allocate release) release_delay ?st)"
      and answer: "answer = Inr (case change of Shrank _ _ \<Rightarrow> True | _ \<Rightarrow> False)"
      by (auto simp: set_margin_def Let_def)
    show ?thesis
      using False unfolding answer change
      by (simp add: st' budget_total_def Some node.reconcile_frame(2,3) [OF inv'] b')
  qed
qed

theorem set_margin_answers_witness:
  "case snd (set_margin (allocate 1) 30 (InstanceId ''db'') 3 demo_state) of
     Inl err \<Rightarrow> False
   | Inr waits \<Rightarrow> (\<exists>old new. budget_total demo_state (InstanceId ''db'') = Some old
       \<and> budget_total (fst (set_margin (allocate 1) 30 (InstanceId ''db'') 3 demo_state)) (InstanceId ''db'') = Some new
       \<and> (waits \<longleftrightarrow> new < old))"
proof -
  have "\<not> isl (snd (set_margin (allocate 1) 30 (InstanceId ''db'') 3 demo_state))" by code_simp
  with set_margin_answers [OF demo_reachable prod.collapse [symmetric],
      where release = 1 and release_delay = 30 and i = "InstanceId ''db''" and margin = 3]
  show ?thesis by (auto split: sum.splits)
qed

text \<open>
  The wait of a shrinking margin ends in safety: the state it returns with is one it looked at, and
  there all connections that may be held on the instance together fit the budget.
\<close>

theorem converged_is_within_budget:
  assumes "converged i seen = Some st" "budget_total st i = Some budget" "budget < u32_max"
  shows "st \<in> set seen \<and> occupied_total st i \<le> budget"
  using converged_within [OF assms(1)] within_budget_total assms(2,3) by blast

theorem converged_is_within_budget_witness:
  "occupied_total demo_state (InstanceId ''db'') \<le> 6"
proof -
  have "converged (InstanceId ''db'') [demo_state] = Some demo_state" by code_simp
  from converged_is_within_budget [OF this demo_budget] show ?thesis by (simp add: u32_max_def)
qed

text \<open>
  The 32-bit sum the coordinator takes of a holder's occupied connections and what is available
  cannot overflow: in every reachable state it is at most the budget or the holder's own count.
\<close>

theorem available_no_overflow:
  assumes "coord_reachable (allocate release) release_delay st" "budget_total st i = Some budget"
    and "ProxyState_occupied (proxy_at st proxy) (i, tenant) \<le> u32_max"
  shows "ProxyState_occupied (proxy_at st proxy) (i, tenant) + (budget - State_occupied_on st i) \<le> u32_max"
proof -
  note inv = node.coord_inv_reachable [OF assms(1)]
  have "budget \<le> u32_max" using coord_invD(5) [OF inv] assms(2) by (auto simp: budget_total_def)
  with occ_le_total [OF coord_invD(2) [OF inv], of proxy i tenant] assms(3) show ?thesis
    unfolding occupied_on_total clamp32_def min_def by (simp split: if_split) arith
qed

theorem available_no_overflow_witness:
  "ProxyState_occupied (proxy_at demo_state (ProxyId ''p'')) (InstanceId ''db'', TenantId ''u'' ''d'')
     + (6 - State_occupied_on demo_state (InstanceId ''db'')) \<le> u32_max"
proof -
  have "ProxyState_occupied (proxy_at demo_state (ProxyId ''p'')) (InstanceId ''db'', TenantId ''u'' ''d'') \<le> u32_max"
    by code_simp
  then show ?thesis by (rule available_no_overflow [OF demo_reachable demo_budget])
qed

end
