(* ===== verification/Pool.thy ===== *)
theory Pool
  imports Prelude
begin

text \<open>
  The connection pool of one instance and tenant (\<^verbatim>\<open>crates/core/src/pool.rs\<close>). Its state is the record
  behind the pool's lock. A waiter is its ticket; whether the receiving end of a waiter's channel is
  still there when something is sent to it is an argument of the operations that send. The handles
  that stand for a count in the state (assignments, reservations, connections on their way out) are
  kept beside it, and the properties show that the counts are exact, that nothing is opened above
  the grant, that no client waits while a slot is free and that waiters are served in order.
\<close>

section \<open>Definitions\<close>

record PoolStats =
  stats_slots :: nat
  stats_idle :: nat
  stats_in_use :: nat
  stats_opening :: nat
  stats_closing :: nat
  stats_waiting :: nat
  stats_opened :: nat

definition PoolStats_actual :: "PoolStats \<Rightarrow> nat" where
  "PoolStats_actual s = stats_idle s + stats_in_use s + stats_closing s"

definition PoolStats_occupied :: "PoolStats \<Rightarrow> nat" where
  "PoolStats_occupied s = PoolStats_actual s + stats_opening s"

definition PoolStats_demand :: "PoolStats \<Rightarrow> nat" where
  "PoolStats_demand s = stats_waiting s + stats_in_use s + stats_opening s"

definition PoolStats_add :: "PoolStats \<Rightarrow> PoolStats \<Rightarrow> PoolStats" where
  "PoolStats_add a b =
     \<lparr>stats_slots = stats_slots a + stats_slots b, stats_idle = stats_idle a + stats_idle b,
      stats_in_use = stats_in_use a + stats_in_use b, stats_opening = stats_opening a + stats_opening b,
      stats_closing = stats_closing a + stats_closing b, stats_waiting = stats_waiting a + stats_waiting b,
      stats_opened = stats_opened a + stats_opened b\<rparr>"

record 'c Pool =
  pl_slots :: nat
  pl_idle :: "'c list"
  pl_in_use :: nat
  pl_opening :: nat
  pl_closing :: nat
  pl_retiring :: "'c list"
  pl_waiters :: "nat list"
  pl_next_ticket :: nat
  pl_opened :: nat

definition Pool_new :: "nat \<Rightarrow> 'c Pool" where
  "Pool_new slots =
     \<lparr>pl_slots = slots, pl_idle = [], pl_in_use = 0, pl_opening = 0, pl_closing = 0, pl_retiring = [],
      pl_waiters = [], pl_next_ticket = 0, pl_opened = 0\<rparr>"

definition Pool_occupied :: "'c Pool \<Rightarrow> nat" where
  "Pool_occupied p = length (pl_idle p) + pl_in_use p + pl_opening p + pl_closing p"

definition Pool_over_grant :: "'c Pool \<Rightarrow> bool" where
  "Pool_over_grant p \<longleftrightarrow> length (pl_idle p) + pl_in_use p + pl_opening p > pl_slots p"

definition Pool_stats :: "'c Pool \<Rightarrow> PoolStats" where
  "Pool_stats p =
     \<lparr>stats_slots = pl_slots p, stats_idle = length (pl_idle p), stats_in_use = pl_in_use p,
      stats_opening = pl_opening p, stats_closing = pl_closing p, stats_waiting = length (pl_waiters p),
      stats_opened = pl_opened p\<rparr>"

definition vec_pop :: "'a list \<Rightarrow> ('a \<times> 'a list) option" where
  "vec_pop xs = (if xs = [] then None else Some (last xs, butlast xs))"

function retire_loop :: "'c Pool \<Rightarrow> 'c list \<Rightarrow> 'c Pool \<times> 'c list" where
  "retire_loop p retired =
     (if Pool_over_grant p
      then case vec_pop (pl_idle p) of
             None \<Rightarrow> (p, retired)
           | Some (connection, idle) \<Rightarrow>
               retire_loop (p\<lparr>pl_idle := idle, pl_closing := pl_closing p + 1\<rparr>) (retired @ [connection])
      else (p, retired))"
  by pat_completeness auto
termination
  by (relation "measure (\<lambda>(p, _). length (pl_idle p))") (auto simp: vec_pop_def split: if_splits)

definition retire :: "nat \<Rightarrow> 'c Pool \<Rightarrow> 'c Pool \<times> 'c list" where
  "retire grant p = retire_loop (p\<lparr>pl_slots := grant, pl_retiring := []\<rparr>) (pl_retiring p)"

function release :: "(nat \<Rightarrow> bool) \<Rightarrow> 'c Pool \<Rightarrow> 'c \<Rightarrow> 'c Pool \<times> nat option" where
  "release alive p connection =
     (if Pool_over_grant p
      then (p\<lparr>pl_in_use := pl_in_use p - 1, pl_closing := pl_closing p + 1,
              pl_retiring := pl_retiring p @ [connection]\<rparr>, None)
      else case pl_waiters p of
             [] \<Rightarrow> (p\<lparr>pl_in_use := pl_in_use p - 1, pl_idle := pl_idle p @ [connection]\<rparr>, None)
           | waiter # waiters \<Rightarrow>
               if alive waiter then (p\<lparr>pl_waiters := waiters\<rparr>, Some waiter)
               else release alive (p\<lparr>pl_waiters := waiters\<rparr>) connection)"
  by pat_completeness auto
termination
  by (relation "measure (\<lambda>(_, p, _). length (pl_waiters p))") auto

function drop_reservation :: "(nat \<Rightarrow> bool) \<Rightarrow> 'c Pool \<Rightarrow> 'c Pool \<times> nat option" where
  "drop_reservation alive p =
     (if Pool_over_grant p then (p\<lparr>pl_opening := pl_opening p - 1\<rparr>, None)
      else case pl_waiters p of
             [] \<Rightarrow> (p\<lparr>pl_opening := pl_opening p - 1\<rparr>, None)
           | waiter # waiters \<Rightarrow>
               if alive waiter then (p\<lparr>pl_waiters := waiters\<rparr>, Some waiter)
               else drop_reservation alive (p\<lparr>pl_waiters := waiters\<rparr>))"
  by pat_completeness auto
termination
  by (relation "measure (\<lambda>(_, p). length (pl_waiters p))") auto

datatype 'c Handoff = Handoff_connection 'c | Handoff_slot

lemma release_shrinks:
  "release alive p c = (p', res) \<Longrightarrow> pl_waiters p \<noteq> [] \<Longrightarrow>
     length (pl_waiters p') < length (pl_waiters p)
     \<or> pl_waiters p' = pl_waiters p \<and> pl_idle p' = pl_idle p"
proof (induction alive p c rule: release.induct)
  case (1 alive p c)
  show ?case
  proof (cases "Pool_over_grant p")
    case True
    with "1.prems" show ?thesis by (auto simp: release.simps [of alive p c])
  next
    case False
    from "1.prems"(2) obtain w ws where w: "pl_waiters p = w # ws" by (cases "pl_waiters p") auto
    show ?thesis
    proof (cases "alive w")
      case True
      with False w "1.prems" show ?thesis by (auto simp: release.simps [of alive p c])
    next
      case dead: False
      with False w "1.prems" have run: "release alive (p\<lparr>pl_waiters := ws\<rparr>) c = (p', res)"
        by (simp add: release.simps [of alive p c])
      show ?thesis
      proof (cases "ws = []")
        case True
        with run show ?thesis by (auto simp: release.simps [of alive "p\<lparr>pl_waiters := ws\<rparr>" c] w split: if_splits)
      next
        case more: False
        from "1.IH" [OF False w dead run] more show ?thesis by (auto simp: w)
      qed
    qed
  qed
qed

function hand_out :: "(nat \<Rightarrow> bool) \<Rightarrow> 'c Pool \<Rightarrow> 'c Pool \<times> (nat \<times> 'c Handoff) list" where
  "hand_out alive p =
     (case pl_waiters p of
        [] \<Rightarrow> (p, [])
      | waiter # waiters \<Rightarrow>
          (case vec_pop (pl_idle p) of
             Some (connection, idle) \<Rightarrow>
               (let (p', res) = release alive (p\<lparr>pl_idle := idle, pl_in_use := pl_in_use p + 1\<rparr>) connection;
                    (p'', sent) = hand_out alive p'
                in (p'', (case res of Some w \<Rightarrow> [(w, Handoff_connection connection)] | None \<Rightarrow> []) @ sent))
           | None \<Rightarrow>
               if Pool_occupied p \<ge> pl_slots p then (p, [])
               else let p = p\<lparr>pl_opening := pl_opening p + 1, pl_waiters := waiters\<rparr>
                    in if alive waiter
                       then let (p', sent) = hand_out alive p in (p', (waiter, Handoff_slot) # sent)
                       else hand_out alive (p\<lparr>pl_opening := pl_opening p - 1\<rparr>)))"
  by pat_completeness auto
termination
proof (relation "inv_image (less_than <*lex*> less_than)
    (\<lambda>(_, p). (length (pl_waiters p), length (pl_idle p)))")
  fix alive p w ws x c idle rel p' res
  assume w: "pl_waiters p = w # ws" and pop: "vec_pop (pl_idle p) = Some x" "(c, idle) = x"
    and "rel = release alive (p\<lparr>pl_idle := idle, pl_in_use := pl_in_use p + 1\<rparr>) c" "(p', res) = rel"
  then have run: "release alive (p\<lparr>pl_idle := idle, pl_in_use := pl_in_use p + 1\<rparr>) c = (p', res)" by simp
  from pop have "idle = butlast (pl_idle p)" "pl_idle p \<noteq> []" by (auto simp: vec_pop_def split: if_splits)
  with release_shrinks [OF run] w show "((alive, p'), alive, p) \<in> inv_image (less_than <*lex*> less_than)
    (\<lambda>(_, p). (length (pl_waiters p), length (pl_idle p)))" by auto
qed auto

definition closed :: "(nat \<Rightarrow> bool) \<Rightarrow> nat \<Rightarrow> 'c Pool \<Rightarrow> 'c Pool \<times> (nat \<times> 'c Handoff) list" where
  "closed alive n p = hand_out alive (p\<lparr>pl_closing := pl_closing p - n\<rparr>)"

datatype 'c Request = Request_assigned 'c | Request_reserved | Request_queued nat

definition request :: "'c Pool \<Rightarrow> 'c Pool \<times> 'c Request" where
  "request p =
     (case vec_pop (pl_idle p) of
        Some (connection, idle) \<Rightarrow> (p\<lparr>pl_idle := idle, pl_in_use := pl_in_use p + 1\<rparr>, Request_assigned connection)
      | None \<Rightarrow>
          if Pool_occupied p < pl_slots p
          then (p\<lparr>pl_opening := pl_opening p + 1\<rparr>, Request_reserved)
          else (p\<lparr>pl_next_ticket := pl_next_ticket p + 1, pl_waiters := pl_waiters p @ [pl_next_ticket p]\<rparr>,
                Request_queued (pl_next_ticket p)))"

definition give_up :: "nat \<Rightarrow> 'c Pool \<Rightarrow> 'c Pool \<times> bool" where
  "give_up ticket p =
     (let waiters = filter (\<lambda>w. w \<noteq> ticket) (pl_waiters p)
      in (p\<lparr>pl_waiters := waiters\<rparr>, length waiters \<noteq> length (pl_waiters p)))"

definition fulfil :: "'c Pool \<Rightarrow> 'c Pool" where
  "fulfil p = p\<lparr>pl_opening := pl_opening p - 1, pl_in_use := pl_in_use p + 1, pl_opened := pl_opened p + 1\<rparr>"

definition discard :: "(nat \<Rightarrow> bool) \<Rightarrow> 'c Pool \<Rightarrow> 'c Pool \<times> nat option" where
  "discard alive p = drop_reservation alive (p\<lparr>pl_in_use := pl_in_use p - 1, pl_opening := pl_opening p + 1\<rparr>)"

declare retire_loop.simps [simp del] release.simps [simp del] drop_reservation.simps [simp del] hand_out.simps [simp del]

section \<open>What each operation does\<close>

lemma over_grant_waiters [simp]: "Pool_over_grant (p\<lparr>pl_waiters := ws\<rparr>) = Pool_over_grant p"
  by (simp add: Pool_over_grant_def)

lemma retire_loop_spec:
  assumes "retire_loop p retired = (p', out)"
  shows "\<exists>i k. pl_idle p = i @ k \<and> out = retired @ rev k
     \<and> p' = p\<lparr>pl_idle := i, pl_closing := pl_closing p + length k\<rparr>
     \<and> (\<not> Pool_over_grant p' \<or> i = [])
     \<and> (k \<noteq> [] \<longrightarrow> pl_slots p \<le> length i + pl_in_use p + pl_opening p)"
  using assms
proof (induction p retired rule: retire_loop.induct)
  case (1 p retired)
  show ?case
  proof (cases "Pool_over_grant p \<and> pl_idle p \<noteq> []")
    case True
    then have pop: "vec_pop (pl_idle p) = Some (last (pl_idle p), butlast (pl_idle p))"
      by (simp add: vec_pop_def)
    let ?p = "p\<lparr>pl_idle := butlast (pl_idle p), pl_closing := pl_closing p + 1\<rparr>"
    from "1.prems" True pop have "retire_loop ?p (retired @ [last (pl_idle p)]) = (p', out)"
      by (simp add: retire_loop.simps [of p retired])
    from "1.IH" [OF _ pop refl this] True obtain i k where k: "butlast (pl_idle p) = i @ k"
      "out = (retired @ [last (pl_idle p)]) @ rev k"
      "p' = p\<lparr>pl_idle := i, pl_closing := pl_closing p + 1 + length k\<rparr>" "\<not> Pool_over_grant p' \<or> i = []"
      "k \<noteq> [] \<longrightarrow> pl_slots p \<le> length i + pl_in_use p + pl_opening p" by auto
    have idle: "pl_idle p = i @ (k @ [last (pl_idle p)])"
      using k(1) True by (metis append.assoc append_butlast_last_id)
    have "pl_slots p \<le> length i + pl_in_use p + pl_opening p"
    proof (cases "k = []")
      case empty: True
      have "length (pl_idle p) = length i + 1" by (subst idle) (simp add: empty)
      then show ?thesis using True by (simp add: Pool_over_grant_def)
    qed (use k(5) in simp)
    with k(2-4) idle show ?thesis by (intro exI [of _ i] exI [of _ "k @ [last (pl_idle p)]"]) simp
  next
    case False
    with "1.prems" have "p' = p" "out = retired"
      by (auto simp: retire_loop.simps [of p retired] vec_pop_def split: if_splits)
    with False show ?thesis by (intro exI [of _ "pl_idle p"] exI [of _ "[]"]) auto
  qed
qed

lemma retire_spec:
  assumes "retire grant p = (p', out)"
  obtains i k where "pl_idle p = i @ k" "out = pl_retiring p @ rev k"
    "p' = p\<lparr>pl_slots := grant, pl_retiring := [], pl_idle := i, pl_closing := pl_closing p + length k\<rparr>"
    "\<not> Pool_over_grant p' \<or> i = []"
    "k \<noteq> [] \<longrightarrow> grant \<le> length i + pl_in_use p + pl_opening p"
  using retire_loop_spec [OF assms [unfolded retire_def]] by auto

lemma release_cases:
  assumes "release alive p c = (p', res)"
  obtains (over) "Pool_over_grant p" "res = None"
      "p' = p\<lparr>pl_in_use := pl_in_use p - 1, pl_closing := pl_closing p + 1, pl_retiring := pl_retiring p @ [c]\<rparr>"
    | (handed) dead w rest where "\<not> Pool_over_grant p" "pl_waiters p = dead @ w # rest" "\<forall>d \<in> set dead. \<not> alive d"
      "alive w" "res = Some w" "p' = p\<lparr>pl_waiters := rest\<rparr>"
    | (kept) "\<not> Pool_over_grant p" "\<forall>d \<in> set (pl_waiters p). \<not> alive d" "res = None"
      "p' = p\<lparr>pl_waiters := [], pl_in_use := pl_in_use p - 1, pl_idle := pl_idle p @ [c]\<rparr>"
  using assms
proof (induction alive p c arbitrary: thesis rule: release.induct)
  case (1 alive p c)
  note step = release.simps [of alive p c]
  show ?case
  proof (cases "Pool_over_grant p")
    case True
    with "1.prems"(4) show ?thesis by (intro "1.prems"(1)) (auto simp: step)
  next
    case False
    show ?thesis
    proof (cases "pl_waiters p")
      case Nil
      with False "1.prems"(4) show ?thesis by (intro "1.prems"(3)) (auto simp: step)
    next
      case (Cons w ws)
      show ?thesis
      proof (cases "alive w")
        case True
        with False Cons "1.prems"(4) show ?thesis by (intro "1.prems"(2) [of "[]" w ws]) (auto simp: step)
      next
        case dead: False
        with False Cons "1.prems"(4) have run: "release alive (p\<lparr>pl_waiters := ws\<rparr>) c = (p', res)" by (simp add: step)
        show ?thesis
        proof (rule "1.IH" [OF False Cons dead _ _ _ run])
          show thesis if "\<not> Pool_over_grant (p\<lparr>pl_waiters := ws\<rparr>)" "pl_waiters (p\<lparr>pl_waiters := ws\<rparr>) = d @ v # rest"
            "\<forall>x \<in> set d. \<not> alive x" "alive v" "res = Some v" "p' = p\<lparr>pl_waiters := ws, pl_waiters := rest\<rparr>" for d v rest
            using that dead Cons by (intro "1.prems"(2) [of "w # d" v rest]) auto
          show thesis if "\<not> Pool_over_grant (p\<lparr>pl_waiters := ws\<rparr>)"
            "\<forall>d \<in> set (pl_waiters (p\<lparr>pl_waiters := ws\<rparr>)). \<not> alive d" "res = None"
            "p' = p\<lparr>pl_waiters := ws, pl_waiters := [], pl_in_use := pl_in_use (p\<lparr>pl_waiters := ws\<rparr>) - 1,
              pl_idle := pl_idle (p\<lparr>pl_waiters := ws\<rparr>) @ [c]\<rparr>"
            using that dead Cons by (intro "1.prems"(3)) auto
        qed (use False in auto)
      qed
    qed
  qed
qed

lemma drop_reservation_cases:
  assumes "drop_reservation alive p = (p', res)"
  obtains (over) "Pool_over_grant p" "res = None" "p' = p\<lparr>pl_opening := pl_opening p - 1\<rparr>"
    | (handed) dead w rest where "\<not> Pool_over_grant p" "pl_waiters p = dead @ w # rest" "\<forall>d \<in> set dead. \<not> alive d"
      "alive w" "res = Some w" "p' = p\<lparr>pl_waiters := rest\<rparr>"
    | (freed) "\<not> Pool_over_grant p" "\<forall>d \<in> set (pl_waiters p). \<not> alive d" "res = None"
      "p' = p\<lparr>pl_waiters := [], pl_opening := pl_opening p - 1\<rparr>"
  using assms
proof (induction alive p arbitrary: thesis rule: drop_reservation.induct)
  case (1 alive p)
  note step = drop_reservation.simps [of alive p]
  show ?case
  proof (cases "Pool_over_grant p")
    case True
    with "1.prems"(4) show ?thesis by (intro "1.prems"(1)) (auto simp: step)
  next
    case False
    show ?thesis
    proof (cases "pl_waiters p")
      case Nil
      with False "1.prems"(4) show ?thesis by (intro "1.prems"(3)) (auto simp: step)
    next
      case (Cons w ws)
      show ?thesis
      proof (cases "alive w")
        case True
        with False Cons "1.prems"(4) show ?thesis by (intro "1.prems"(2) [of "[]" w ws]) (auto simp: step)
      next
        case dead: False
        with False Cons "1.prems"(4) have run: "drop_reservation alive (p\<lparr>pl_waiters := ws\<rparr>) = (p', res)" by (simp add: step)
        show ?thesis
        proof (rule "1.IH" [OF False Cons dead _ _ _ run])
          show thesis if "\<not> Pool_over_grant (p\<lparr>pl_waiters := ws\<rparr>)" "pl_waiters (p\<lparr>pl_waiters := ws\<rparr>) = d @ v # rest"
            "\<forall>x \<in> set d. \<not> alive x" "alive v" "res = Some v" "p' = p\<lparr>pl_waiters := ws, pl_waiters := rest\<rparr>" for d v rest
            using that dead Cons by (intro "1.prems"(2) [of "w # d" v rest]) auto
          show thesis if "\<not> Pool_over_grant (p\<lparr>pl_waiters := ws\<rparr>)"
            "\<forall>d \<in> set (pl_waiters (p\<lparr>pl_waiters := ws\<rparr>)). \<not> alive d" "res = None"
            "p' = p\<lparr>pl_waiters := ws, pl_waiters := [], pl_opening := pl_opening (p\<lparr>pl_waiters := ws\<rparr>) - 1\<rparr>"
            using that dead Cons by (intro "1.prems"(3)) auto
        qed (use False in auto)
      qed
    qed
  qed
qed

section \<open>Handing out\<close>

definition sent_conns :: "(nat \<times> 'c Handoff) list \<Rightarrow> 'c list" where
  "sent_conns sent = concat (map (\<lambda>(_, h). case h of Handoff_connection c \<Rightarrow> [c] | Handoff_slot \<Rightarrow> []) sent)"

definition sent_slots :: "(nat \<times> 'c Handoff) list \<Rightarrow> nat" where
  "sent_slots sent = length (filter (\<lambda>(_, h). h = Handoff_slot) sent)"

lemma sent_simps [simp]:
  "sent_conns [] = []" "sent_conns (a @ b) = sent_conns a @ sent_conns b"
  "sent_conns ((w, Handoff_connection c) # s) = c # sent_conns s" "sent_conns ((w, Handoff_slot) # s) = sent_conns s"
  "sent_slots [] = 0" "sent_slots (a @ b) = sent_slots a + sent_slots b"
  "sent_slots ((w, Handoff_connection c) # s) = sent_slots s" "sent_slots ((w, Handoff_slot) # s) = Suc (sent_slots s)"
  by (simp_all add: sent_conns_def sent_slots_def)

text \<open>
  What handing out may do: serve a prefix of the queue in order, leaving out who is gone; pass idle
  connections on or retire them; and reserve slots only below the grant.
\<close>

definition passed :: "(nat \<Rightarrow> bool) \<Rightarrow> 'c Pool \<Rightarrow> 'c Pool \<Rightarrow> (nat \<times> 'c Handoff) list \<Rightarrow> bool" where
  "passed alive p p' sent \<longleftrightarrow>
     (\<exists>pre. pl_waiters p = pre @ pl_waiters p' \<and> map fst sent = filter alive pre)
     \<and> pl_slots p' = pl_slots p \<and> pl_next_ticket p' = pl_next_ticket p \<and> pl_opened p' = pl_opened p
     \<and> pl_in_use p' = pl_in_use p + length (sent_conns sent) \<and> pl_opening p' = pl_opening p + sent_slots sent
     \<and> (\<exists>moved. pl_retiring p' = pl_retiring p @ moved \<and> pl_closing p' = pl_closing p + length moved
          \<and> mset (pl_idle p) = mset (pl_idle p') + mset moved + mset (sent_conns sent))
     \<and> (sent_slots sent = 0 \<or> Pool_occupied p + sent_slots sent \<le> pl_slots p)"

lemma passed_occupied:
  assumes "passed alive p p' sent"
  shows "Pool_occupied p' = Pool_occupied p + sent_slots sent"
proof -
  from assms obtain moved where m: "mset (pl_idle p) = mset (pl_idle p') + mset moved + mset (sent_conns sent)"
    and c: "pl_closing p' = pl_closing p + length moved"
    unfolding passed_def by blast
  from arg_cong [OF m, of size] have "length (pl_idle p) = length (pl_idle p') + length moved + length (sent_conns sent)"
    by simp
  with assms c show ?thesis by (simp add: passed_def Pool_occupied_def)
qed

lemma passed_refl: "passed alive p p []"
  by (auto simp: passed_def)

lemma passed_trans:
  assumes a: "passed alive p p1 s1" and b: "passed alive p1 p2 s2"
  shows "passed alive p p2 (s1 @ s2)"
proof -
  from a obtain pre1 m1 where a1: "pl_waiters p = pre1 @ pl_waiters p1" "map fst s1 = filter alive pre1"
    "pl_retiring p1 = pl_retiring p @ m1" "pl_closing p1 = pl_closing p + length m1"
    "mset (pl_idle p) = mset (pl_idle p1) + mset m1 + mset (sent_conns s1)"
    unfolding passed_def by blast
  from b obtain pre2 m2 where b1: "pl_waiters p1 = pre2 @ pl_waiters p2" "map fst s2 = filter alive pre2"
    "pl_retiring p2 = pl_retiring p1 @ m2" "pl_closing p2 = pl_closing p1 + length m2"
    "mset (pl_idle p1) = mset (pl_idle p2) + mset m2 + mset (sent_conns s2)"
    unfolding passed_def by blast
  have "pl_waiters p = (pre1 @ pre2) @ pl_waiters p2" "map fst (s1 @ s2) = filter alive (pre1 @ pre2)"
    using a1 b1 by simp_all
  moreover have "pl_retiring p2 = pl_retiring p @ (m1 @ m2)" "pl_closing p2 = pl_closing p + length (m1 @ m2)"
    "mset (pl_idle p) = mset (pl_idle p2) + mset (m1 @ m2) + mset (sent_conns (s1 @ s2))"
    using a1 b1 by (simp_all add: ac_simps)
  moreover have "sent_slots (s1 @ s2) = 0 \<or> Pool_occupied p + sent_slots (s1 @ s2) \<le> pl_slots p"
    using a b passed_occupied [OF a] by (auto simp: passed_def)
  moreover have "pl_slots p2 = pl_slots p" "pl_next_ticket p2 = pl_next_ticket p" "pl_opened p2 = pl_opened p"
    "pl_in_use p2 = pl_in_use p + length (sent_conns (s1 @ s2))" "pl_opening p2 = pl_opening p + sent_slots (s1 @ s2)"
    using a b by (simp_all add: passed_def)
  ultimately show ?thesis unfolding passed_def by blast
qed

lemma filter_dead: "\<forall>d \<in> set ds. \<not> alive d \<Longrightarrow> filter alive ds = []"
  by (simp add: filter_empty_conv)

lemma release_idle_passed:
  assumes idle: "pl_idle p = idle @ [c]"
    and run: "release alive (p\<lparr>pl_idle := idle, pl_in_use := pl_in_use p + 1\<rparr>) c = (p', res)"
  shows "passed alive p p' (case res of Some w \<Rightarrow> [(w, Handoff_connection c)] | None \<Rightarrow> [])"
  using run
proof (cases rule: release_cases)
  case over
  then show ?thesis using idle by (auto simp: passed_def)
next
  case (handed dead w rest)
  then show ?thesis using idle by (auto simp: passed_def filter_dead intro!: exI [of _ "dead @ [w]"])
next
  case kept
  then show ?thesis using idle by (auto simp: passed_def filter_dead)
qed

definition no_free_slot :: "'c Pool \<Rightarrow> bool" where
  "no_free_slot p \<longleftrightarrow> pl_waiters p = [] \<or> pl_idle p = [] \<and> pl_slots p \<le> Pool_occupied p"

text \<open>A free slot goes to the first waiter, or to nobody when that waiter has gone.\<close>

lemma slot_passed:
  assumes "pl_waiters p = w # ws" "pl_idle p = []" "\<not> pl_slots p \<le> Pool_occupied p"
  shows "alive w \<Longrightarrow> passed alive p (p\<lparr>pl_opening := pl_opening p + 1, pl_waiters := ws\<rparr>) [(w, Handoff_slot)]"
    and "\<not> alive w \<Longrightarrow> passed alive p (p\<lparr>pl_waiters := ws\<rparr>) []"
  using assms by (auto simp: passed_def Pool_occupied_def intro!: exI [of _ "[w]"])

lemma hand_out_idle:
  assumes "pl_waiters p = w # ws" "pl_idle p \<noteq> []" "hand_out alive p = (p', sent)"
    and IH: "\<And>p1 res p2 s2. release alive (p\<lparr>pl_idle := butlast (pl_idle p), pl_in_use := pl_in_use p + 1\<rparr>) (last (pl_idle p)) = (p1, res) \<Longrightarrow>
      hand_out alive p1 = (p2, s2) \<Longrightarrow> passed alive p1 p2 s2 \<and> no_free_slot p2"
  shows "passed alive p p' sent \<and> no_free_slot p'"
proof -
  have pop: "vec_pop (pl_idle p) = Some (last (pl_idle p), butlast (pl_idle p))" using assms(2) by (simp add: vec_pop_def)
  obtain p1 res where rel: "release alive (p\<lparr>pl_idle := butlast (pl_idle p), pl_in_use := pl_in_use p + 1\<rparr>)
      (last (pl_idle p)) = (p1, res)" by fastforce
  obtain p2 s2 where out: "hand_out alive p1 = (p2, s2)" by fastforce
  have eq: "p' = p2" "sent = (case res of Some w \<Rightarrow> [(w, Handoff_connection (last (pl_idle p)))] | None \<Rightarrow> []) @ s2"
    using assms(3,1) pop rel out by (auto simp: hand_out.simps [of alive p])
  have "passed alive p p1 (case res of Some w \<Rightarrow> [(w, Handoff_connection (last (pl_idle p)))] | None \<Rightarrow> [])"
    using assms(2) by (intro release_idle_passed [OF _ rel]) simp
  with IH [OF rel out] show ?thesis unfolding eq using passed_trans by blast
qed

lemma hand_out_spec:
  assumes "hand_out alive p = (p', sent)"
  shows "passed alive p p' sent \<and> no_free_slot p'"
  using assms
proof (induction alive p arbitrary: p' sent rule: hand_out.induct)
  case (1 alive p)
  note step = hand_out.simps [of alive p]
  show ?case
  proof (cases "pl_waiters p")
    case Nil
    with "1.prems" show ?thesis by (auto simp: step passed_refl no_free_slot_def)
  next
    case (Cons w ws)
    let ?p = "p\<lparr>pl_opening := pl_opening p + 1, pl_waiters := ws\<rparr>"
    consider (idle) "pl_idle p \<noteq> []" | (full) "pl_idle p = []" "Pool_occupied p \<ge> pl_slots p"
      | (free) "pl_idle p = []" "\<not> pl_slots p \<le> Pool_occupied p" by blast
    then show ?thesis
    proof cases
      case idle
      then have pop: "vec_pop (pl_idle p) = Some (last (pl_idle p), butlast (pl_idle p))" by (simp add: vec_pop_def)
      show ?thesis
        by (rule hand_out_idle [OF Cons idle "1.prems"]) (rule "1.IH"(3) [OF Cons pop refl refl], simp_all)
    next
      case full
      with "1.prems" Cons show ?thesis by (auto simp: step vec_pop_def passed_refl no_free_slot_def)
    next
      case free
      then have pop: "vec_pop (pl_idle p) = None" by (simp add: vec_pop_def)
      note pass = slot_passed [OF Cons free]
      show ?thesis
      proof (cases "alive w")
        case True
        obtain p2 s2 where out: "hand_out alive ?p = (p2, s2)" by fastforce
        have eq: "p' = p2" "sent = [(w, Handoff_slot)] @ s2"
          using "1.prems" Cons pop free True out by (auto simp: step)
        from "1.IH"(1) [OF Cons pop free(2) refl True out] pass(1) [of alive] True show ?thesis
          unfolding eq using passed_trans by blast
      next
        case False
        have run: "hand_out alive (?p\<lparr>pl_opening := pl_opening ?p - 1\<rparr>) = (p', sent)"
          using "1.prems" Cons pop free False by (simp add: step Let_def)
        from "1.IH"(2) [OF Cons pop free(2) refl False run] pass(2) [of alive] False show ?thesis
          using passed_trans by fastforce
      qed
    qed
  qed
qed

section \<open>The pool with its handles\<close>

text \<open>
  \<open>sys_assigned\<close> are the connections clients hold (or that lie in a waiter's channel), \<open>sys_reserved\<close>
  counts the reservations, and \<open>sys_batches\<close> are the connections each running convergence is closing.
\<close>

record 'c pool_sys =
  sys_pool :: "'c Pool"
  sys_assigned :: "'c multiset"
  sys_reserved :: nat
  sys_batches :: "'c list multiset"

inductive pool_step :: "'c pool_sys \<Rightarrow> 'c pool_sys \<Rightarrow> bool" where
  req_assigned: "request (sys_pool s) = (p, Request_assigned c) \<Longrightarrow>
    pool_step s (s\<lparr>sys_pool := p, sys_assigned := add_mset c (sys_assigned s)\<rparr>)"
| req_reserved: "request (sys_pool s) = (p, Request_reserved) \<Longrightarrow>
    pool_step s (s\<lparr>sys_pool := p, sys_reserved := sys_reserved s + 1\<rparr>)"
| req_queued: "request (sys_pool s) = (p, Request_queued ticket) \<Longrightarrow> pool_step s (s\<lparr>sys_pool := p\<rparr>)"
| opened: "0 < sys_reserved s \<Longrightarrow>
    pool_step s (s\<lparr>sys_pool := fulfil (sys_pool s), sys_reserved := sys_reserved s - 1,
      sys_assigned := add_mset c (sys_assigned s)\<rparr>)"
| open_failed: "0 < sys_reserved s \<Longrightarrow> drop_reservation alive (sys_pool s) = (p, res) \<Longrightarrow>
    pool_step s (s\<lparr>sys_pool := p, sys_reserved := (if res = None then sys_reserved s - 1 else sys_reserved s)\<rparr>)"
| released: "c \<in># sys_assigned s \<Longrightarrow> release alive (sys_pool s) c = (p, res) \<Longrightarrow>
    pool_step s (s\<lparr>sys_pool := p, sys_assigned := (if res = None then sys_assigned s - {#c#} else sys_assigned s)\<rparr>)"
| discarded: "c \<in># sys_assigned s \<Longrightarrow> discard alive (sys_pool s) = (p, res) \<Longrightarrow>
    pool_step s (s\<lparr>sys_pool := p, sys_assigned := sys_assigned s - {#c#},
      sys_reserved := (if res = None then sys_reserved s else sys_reserved s + 1)\<rparr>)"
| gave_up: "pool_step s (s\<lparr>sys_pool := fst (give_up ticket (sys_pool s))\<rparr>)"
| converging: "retire grant (sys_pool s) = (p, out) \<Longrightarrow>
    pool_step s (s\<lparr>sys_pool := p, sys_batches := add_mset out (sys_batches s)\<rparr>)"
| converged_pool: "out \<in># sys_batches s \<Longrightarrow> closed alive (length out) (sys_pool s) = (p, sent) \<Longrightarrow>
    pool_step s (s\<lparr>sys_pool := p, sys_batches := sys_batches s - {#out#},
      sys_assigned := sys_assigned s + mset (sent_conns sent), sys_reserved := sys_reserved s + sent_slots sent\<rparr>)"

definition pool_start :: "nat \<Rightarrow> 'c pool_sys" where
  "pool_start slots = \<lparr>sys_pool = Pool_new slots, sys_assigned = {#}, sys_reserved = 0, sys_batches = {#}\<rparr>"

inductive pool_reachable :: "'c pool_sys \<Rightarrow> bool" where
  pool_init: "pool_reachable (pool_start slots)"
| pool_next: "pool_reachable s \<Longrightarrow> pool_step s s' \<Longrightarrow> pool_reachable s'"

interpretation pool: transition_system "\<lambda>s. \<exists>slots. s = pool_start slots" pool_step pool_reachable
proof
  fix s :: "'b pool_sys" and P :: "'b pool_sys \<Rightarrow> bool"
  assume "pool_reachable s" and init: "\<And>t. \<exists>slots. t = pool_start slots \<Longrightarrow> P t"
    and step: "\<And>t u. pool_reachable t \<Longrightarrow> P t \<Longrightarrow> pool_step t u \<Longrightarrow> P u"
  from this(1) show "P s"
    by (induction rule: pool_reachable.induct) (rule init, blast, rule step)
qed

definition counts_exact :: "'c pool_sys \<Rightarrow> bool" where
  "counts_exact s \<longleftrightarrow> pl_in_use (sys_pool s) = size (sys_assigned s) \<and> pl_opening (sys_pool s) = sys_reserved s
     \<and> pl_closing (sys_pool s) = length (pl_retiring (sys_pool s)) + (\<Sum>out \<in># sys_batches s. length out)"

definition queue_ordered :: "'c Pool \<Rightarrow> bool" where
  "queue_ordered p \<longleftrightarrow> sorted_wrt (<) (pl_waiters p) \<and> (\<forall>w \<in> set (pl_waiters p). w < pl_next_ticket p)"

definition pool_inv :: "'c pool_sys \<Rightarrow> bool" where
  "pool_inv s \<longleftrightarrow> counts_exact s \<and> queue_ordered (sys_pool s)
     \<and> (sys_batches s = {#} \<longrightarrow> no_free_slot (sys_pool s))"

lemma pool_inv_start: "pool_inv (pool_start slots)"
  by (simp add: pool_inv_def pool_start_def counts_exact_def queue_ordered_def no_free_slot_def Pool_new_def)

lemma size_remove1: "c \<in># M \<Longrightarrow> size (M - {#c#}) = size M - 1"
  by (simp add: size_Diff_singleton)

lemma size_pos: "c \<in># M \<Longrightarrow> 0 < size M"
  by (metis empty_iff gr0I set_mset_empty size_eq_0_iff_empty)

lemma sum_mset_pick: "out \<in># B \<Longrightarrow> (\<Sum>x \<in># B. f x) = f out + (\<Sum>x \<in># B - {#out#}. (f x :: nat))"
  by (metis insert_DiffM image_mset_add_mset sum_mset.add_mset)

lemmas pool_inv_defs = pool_inv_def counts_exact_def queue_ordered_def no_free_slot_def Pool_occupied_def Pool_over_grant_def

lemma pool_inv_step:
  assumes inv: "pool_inv s" and step: "pool_step s s'"
  shows "pool_inv s'"
  using step
proof cases
  case (req_assigned p c)
  then show ?thesis
    using inv by (auto simp: pool_inv_defs request_def vec_pop_def split: if_splits)
next
  case (req_reserved p)
  then show ?thesis
    using inv by (auto simp: pool_inv_defs request_def vec_pop_def split: if_splits)
next
  case (req_queued p ticket)
  then show ?thesis
    using inv by (auto simp: pool_inv_defs request_def vec_pop_def sorted_wrt_append less_SucI split: if_splits)
next
  case (opened c)
  then show ?thesis using inv by (auto simp: pool_inv_defs fulfil_def)
next
  case (open_failed alive p res)
  from open_failed(3) show ?thesis
    using inv open_failed(1,2) by (cases rule: drop_reservation_cases) (auto simp: pool_inv_defs sorted_wrt_append)
next
  case (released c alive p res)
  note c = size_pos [OF released(2)] size_remove1 [OF released(2)]
  from released(3) show ?thesis
    using inv released(1) c by (cases rule: release_cases) (auto simp: pool_inv_defs sorted_wrt_append)
next
  case (discarded c alive p res)
  note c = size_pos [OF discarded(2)] size_remove1 [OF discarded(2)]
  from discarded(3) [unfolded discard_def] show ?thesis
    using inv discarded(1) c by (cases rule: drop_reservation_cases) (auto simp: pool_inv_defs sorted_wrt_append)
next
  case (gave_up ticket)
  then show ?thesis
    using inv by (auto simp: pool_inv_defs give_up_def Let_def sorted_wrt_filter)
next
  case (converging grant p out)
  from converging(2) obtain i k where "out = pl_retiring (sys_pool s) @ rev k"
    "p = (sys_pool s)\<lparr>pl_slots := grant, pl_retiring := [], pl_idle := i,
        pl_closing := pl_closing (sys_pool s) + length k\<rparr>"
    by (rule retire_spec)
  then show ?thesis using inv converging(1) by (simp add: pool_inv_def counts_exact_def queue_ordered_def)
next
  case (converged_pool out alive p sent)
  let ?p = "(sys_pool s)\<lparr>pl_closing := pl_closing (sys_pool s) - length out\<rparr>"
  have out: "passed alive ?p p sent" "no_free_slot p"
    using hand_out_spec [OF converged_pool(3) [unfolded closed_def]] by simp_all
  from out(1) obtain pre moved where p: "pl_waiters ?p = pre @ pl_waiters p"
    "pl_retiring p = pl_retiring ?p @ moved" "pl_closing p = pl_closing ?p + length moved"
    "pl_in_use p = pl_in_use ?p + length (sent_conns sent)" "pl_opening p = pl_opening ?p + sent_slots sent"
    "pl_next_ticket p = pl_next_ticket ?p"
    unfolding passed_def by blast
  show ?thesis
    using inv converged_pool(1) p out(2) sum_mset_pick [OF converged_pool(2), of length]
    by (auto simp: pool_inv_def counts_exact_def queue_ordered_def sorted_wrt_append)
qed

lemma pool_reachable_inv: "pool_reachable s \<Longrightarrow> pool_inv s"
  by (rule pool.invariant) (auto intro: pool_inv_start pool_inv_step)

lemma pool_occupied_step:
  assumes "pool_step s s'" "pool_inv s"
  shows "Pool_occupied (sys_pool s') \<le> max (pl_slots (sys_pool s')) (Pool_occupied (sys_pool s))"
  using assms(1)
proof cases
  case (req_assigned p c)
  then show ?thesis by (cases "pl_idle (sys_pool s)") (auto simp: request_def vec_pop_def Pool_occupied_def split: if_splits)
next
  case (req_reserved p)
  then show ?thesis by (auto simp: request_def vec_pop_def Pool_occupied_def split: if_splits)
next
  case (req_queued p ticket)
  then show ?thesis by (auto simp: request_def vec_pop_def Pool_occupied_def split: if_splits)
next
  case (opened c)
  with assms(2) show ?thesis
    by (auto simp: fulfil_def Pool_occupied_def pool_inv_def counts_exact_def)
next
  case (open_failed alive p res)
  from open_failed(3) show ?thesis
    using open_failed(1) by (cases rule: drop_reservation_cases) (auto simp: Pool_occupied_def)
next
  case (released c alive p res)
  have "0 < pl_in_use (sys_pool s)"
    using assms(2) size_pos [OF released(2)] by (simp add: pool_inv_def counts_exact_def)
  with released(3) show ?thesis
    using released(1) by (cases rule: release_cases) (auto simp: Pool_occupied_def)
next
  case (discarded c alive p res)
  have "0 < pl_in_use (sys_pool s)"
    using assms(2) size_pos [OF discarded(2)] by (simp add: pool_inv_def counts_exact_def)
  with discarded(3) [unfolded discard_def] show ?thesis
    using discarded(1) by (cases rule: drop_reservation_cases) (auto simp: Pool_occupied_def)
next
  case (gave_up ticket)
  then show ?thesis by (simp add: give_up_def Let_def Pool_occupied_def)
next
  case (converging grant p out)
  from converging(2) obtain i k where k: "pl_idle (sys_pool s) = i @ k"
    "p = (sys_pool s)\<lparr>pl_slots := grant, pl_retiring := [], pl_idle := i,
        pl_closing := pl_closing (sys_pool s) + length k\<rparr>"
    by (rule retire_spec)
  then have "Pool_occupied p = Pool_occupied (sys_pool s)" by (simp add: Pool_occupied_def)
  then show ?thesis using converging(1) by simp
next
  case (converged_pool out alive p sent)
  let ?p = "(sys_pool s)\<lparr>pl_closing := pl_closing (sys_pool s) - length out\<rparr>"
  have pass: "passed alive ?p p sent"
    using hand_out_spec [OF converged_pool(3) [unfolded closed_def]] by simp
  from passed_occupied [OF pass] pass converged_pool(1) show ?thesis
    by (auto simp: passed_def Pool_occupied_def)
qed

section \<open>Properties\<close>

text \<open>
  C33: The pool's counters are exact in every reachable state: as many connections in use as there are
  assignments, as many opening as reservations, and as many closing as lie in the retiring list or
  with a running convergence. So no counter is ever decremented below zero.
\<close>

theorem pool_counts_exact:
  assumes "pool_reachable s"
  shows "pl_in_use (sys_pool s) = size (sys_assigned s) \<and> pl_opening (sys_pool s) = sys_reserved s
     \<and> pl_closing (sys_pool s) = length (pl_retiring (sys_pool s)) + (\<Sum>out \<in># sys_batches s. length out)"
  using pool_reachable_inv [OF assms] by (simp add: pool_inv_def counts_exact_def)

lemma demo_pool_step:
  "pool_reachable ((pool_start 1)\<lparr>sys_pool := (Pool_new 1)\<lparr>pl_opening := 1\<rparr>, sys_reserved := 1\<rparr> :: nat pool_sys)"
proof -
  have "request (sys_pool (pool_start 1 :: nat pool_sys)) = ((Pool_new 1)\<lparr>pl_opening := 1\<rparr>, Request_reserved)"
    by (simp add: request_def pool_start_def Pool_new_def vec_pop_def Pool_occupied_def)
  from pool_next [OF pool_init req_reserved [OF this]] show ?thesis by (simp add: pool_start_def)
qed

theorem pool_counts_exact_witness:
  "pl_opening (sys_pool ((pool_start 1)\<lparr>sys_pool := (Pool_new 1)\<lparr>pl_opening := 1\<rparr>, sys_reserved := 1\<rparr> :: nat pool_sys)) = 1"
  using pool_counts_exact [OF demo_pool_step] by simp

text \<open>
  A pool never opens above its grant. Whatever step is taken, what the pool occupies afterwards,
  counting connections still opening or closing, is at most its slots or what it occupied before.
\<close>

theorem pool_never_over_grant:
  assumes "pool_reachable s" "pool_step s s'"
  shows "Pool_occupied (sys_pool s') \<le> max (pl_slots (sys_pool s')) (Pool_occupied (sys_pool s))"
  using assms(2) pool_reachable_inv [OF assms(1)] by (rule pool_occupied_step)

theorem pool_never_over_grant_witness:
  "Pool_occupied (sys_pool ((pool_start 1)\<lparr>sys_pool := fst (give_up 7 ((Pool_new 1)\<lparr>pl_opening := 1\<rparr>)), sys_reserved := 1\<rparr>
       :: nat pool_sys)) \<le> 1"
proof -
  let ?s = "(pool_start 1)\<lparr>sys_pool := (Pool_new 1)\<lparr>pl_opening := 1\<rparr>, sys_reserved := 1\<rparr> :: nat pool_sys"
  have "pool_step ?s (?s\<lparr>sys_pool := fst (give_up 7 (sys_pool ?s))\<rparr>)" by (rule gave_up)
  from pool_never_over_grant [OF demo_pool_step this] show ?thesis
    by (simp add: give_up_def Let_def Pool_occupied_def Pool_new_def pool_start_def)
qed



text \<open>
  Waiters are served in the order they queued. Handing out serves a prefix of the queue, exactly
  the clients of it that are still there and in their order, and ends only when nobody waits or no
  connection is idle and every slot is occupied.
\<close>

theorem hand_out_in_order:
  "\<exists>served. pl_waiters p = served @ pl_waiters (fst (hand_out alive p))
     \<and> map fst (snd (hand_out alive p)) = filter alive served
     \<and> (pl_waiters (fst (hand_out alive p)) = []
        \<or> pl_idle (fst (hand_out alive p)) = []
          \<and> pl_slots p \<le> Pool_occupied (fst (hand_out alive p)))"
  using hand_out_spec [OF prod.collapse [symmetric], of alive p] by (auto simp: passed_def no_free_slot_def)

text \<open>
  Converging closes exactly what is too much. Retiring keeps the idle connections that fit below
  the grant next to those in use and opening, from the oldest on, and hands every other one, with those
  already set aside, over to be closed.
\<close>

theorem retire_exact:
  "length (pl_idle (fst (retire grant p))) = min (length (pl_idle p)) (grant - (pl_in_use p + pl_opening p))
     \<and> pl_idle (fst (retire grant p)) = take (length (pl_idle (fst (retire grant p)))) (pl_idle p)
     \<and> mset (snd (retire grant p)) + mset (pl_idle (fst (retire grant p))) = mset (pl_idle p) + mset (pl_retiring p)
     \<and> Pool_occupied (fst (retire grant p)) = Pool_occupied p"
proof -
  obtain p' out where run: "retire grant p = (p', out)" by fastforce
  from run obtain i k where k: "pl_idle p = i @ k" "out = pl_retiring p @ rev k"
    "p' = p\<lparr>pl_slots := grant, pl_retiring := [], pl_idle := i, pl_closing := pl_closing p + length k\<rparr>"
    "\<not> Pool_over_grant p' \<or> i = []"
    "k \<noteq> [] \<longrightarrow> grant \<le> length i + pl_in_use p + pl_opening p"
    by (rule retire_spec)
  have "length i = min (length (pl_idle p)) (grant - (pl_in_use p + pl_opening p))"
    using k(1,3,4,5) by (cases "k = []") (auto simp: Pool_over_grant_def min_def)
  moreover have "Pool_occupied p' = Pool_occupied p"
    using k(1,3) by (simp add: Pool_occupied_def)
  ultimately show ?thesis using run k(1-3) by (simp add: ac_simps)
qed

end
