(* ===== verification/Convergence.thy ===== *)
theory Convergence
  imports Grant Pool
begin

text \<open>
  A proxy's pools (\<^verbatim>\<open>crates/core/src/convergence.rs\<close>): one per instance and tenant, resized to the grants
  the proxy is given, measured in a report and dropped once unused. An entry keeps the pool's state,
  how many other handles refer to it, and the welcome its clients are greeted with, which is opaque
  here. The properties show what a convergence leaves, that reports measure every pool exactly, and
  that the count of opened connections survives the pools it was counted in.
\<close>

section \<open>Definitions\<close>

definition Pool_converge ::
    "(nat \<Rightarrow> bool) \<Rightarrow> nat \<Rightarrow> 'c Pool \<Rightarrow> 'c Pool \<times> nat \<times> (nat \<times> 'c Handoff) list" where
  "Pool_converge alive grant p =
     (let (p, retired) = retire grant p;
          (p, sent) = closed alive (length retired) p
      in (p, length retired, sent))"

record ('c, 'w) PoolEntry =
  pe_pool :: "'c Pool"
  pe_handles :: nat
  pe_welcome :: 'w

definition Pool_is_unused :: "('c, 'w) PoolEntry \<Rightarrow> bool" where
  "Pool_is_unused e \<longleftrightarrow> pe_handles e = 0 \<and> PoolStats_occupied (Pool_stats (pe_pool e)) = 0"

record ('c, 'w) ProxyPools =
  pp_pools :: "(Slot, ('c, 'w) PoolEntry) btree_map"
  pp_opened_by_dropped :: "(Slot, nat) btree_map"

definition ProxyPools_new :: "('c, 'w) ProxyPools" where
  "ProxyPools_new = \<lparr>pp_pools = [], pp_opened_by_dropped = []\<rparr>"

definition ProxyPools_insert :: "'w \<Rightarrow> InstanceId \<Rightarrow> TenantId \<Rightarrow> 'c Pool \<Rightarrow> ('c, 'w) ProxyPools \<Rightarrow> ('c, 'w) ProxyPools" where
  "ProxyPools_insert welcome i tenant pool pp =
     pp\<lparr>pp_pools := bt_insert (i, tenant) \<lparr>pe_pool = pool, pe_handles = 0, pe_welcome = welcome\<rparr> (pp_pools pp)\<rparr>"

definition ProxyPools_get :: "InstanceId \<Rightarrow> TenantId \<Rightarrow> ('c, 'w) ProxyPools \<Rightarrow> 'c Pool option" where
  "ProxyPools_get i tenant pp = map_option pe_pool (bt_get (pp_pools pp) (i, tenant))"

text \<open>Checking a pool out opens it if it is missing and leaves one more handle on it.\<close>

definition ProxyPools_checkout ::
    "'w \<Rightarrow> InstanceId \<Rightarrow> TenantId \<Rightarrow> 'c Pool \<Rightarrow> ('c, 'w) ProxyPools \<Rightarrow> ('c, 'w) ProxyPools \<times> 'c Pool \<times> 'w" where
  "ProxyPools_checkout welcome i tenant opened pp =
     (let e = bt_get_or \<lparr>pe_pool = opened, pe_handles = 0, pe_welcome = welcome\<rparr> (pp_pools pp) (i, tenant)
      in (pp\<lparr>pp_pools := bt_insert (i, tenant) (e\<lparr>pe_handles := pe_handles e + 1\<rparr>) (pp_pools pp)\<rparr>,
          pe_pool e, pe_welcome e))"

definition ProxyPools_len :: "('c, 'w) ProxyPools \<Rightarrow> nat" where
  "ProxyPools_len pp = length (pp_pools pp)"

definition saturate :: "nat \<Rightarrow> nat" where
  "saturate n = clamp32 n"

definition ProxyPools_report :: "nat \<Rightarrow> ('c, 'w) ProxyPools \<Rightarrow> Report" where
  "ProxyPools_report gen pp =
     fold (\<lambda>((i, tenant), e) report.
        let stats = Pool_stats (pe_pool e)
        in Report_usage report i tenant
             \<lparr>usage_demand = saturate (PoolStats_demand stats), usage_actual = saturate (PoolStats_occupied stats)\<rparr>)
       (pp_pools pp) (Report_new gen)"

definition ProxyPools_occupied :: "('c, 'w) ProxyPools \<Rightarrow> nat" where
  "ProxyPools_occupied pp = (\<Sum>(_, e) \<leftarrow> pp_pools pp. PoolStats_occupied (Pool_stats (pe_pool e)))"

definition ProxyPools_stats :: "('c, 'w) ProxyPools \<Rightarrow> (InstanceId \<times> TenantId \<times> PoolStats) list" where
  "ProxyPools_stats pp =
     map (\<lambda>((i, tenant), e).
        let stats = Pool_stats (pe_pool e)
        in (i, tenant, stats\<lparr>stats_opened := stats_opened stats + bt_get_or 0 (pp_opened_by_dropped pp) (i, tenant)\<rparr>))
       (pp_pools pp)"

text \<open>The pools of the snapshot one after the other; \<open>alive\<close> says of each pool which waiters are still there.\<close>

fun converge_pools ::
    "(Slot \<Rightarrow> nat \<Rightarrow> bool) \<Rightarrow> GrantSet \<Rightarrow> (Slot \<times> ('c, 'w) PoolEntry) list \<Rightarrow> (Slot \<times> ('c, 'w) PoolEntry) list \<times> nat" where
  "converge_pools alive grants [] = ([], 0)"
| "converge_pools alive grants ((slot, e) # rest) =
     (let (pool, n, _) = Pool_converge (alive slot) (GrantSet_get grants (fst slot) (snd slot)) (pe_pool e);
          (rest, m) = converge_pools alive grants rest
      in ((slot, e\<lparr>pe_pool := pool\<rparr>) # rest, n + m))"

definition entry_kept :: "GrantSet \<Rightarrow> Slot \<Rightarrow> ('c, 'w) PoolEntry \<Rightarrow> bool" where
  "entry_kept grants slot e \<longleftrightarrow> GrantSet_get grants (fst slot) (snd slot) > 0 \<or> \<not> Pool_is_unused e"

definition ProxyPools_converge ::
    "(Slot \<Rightarrow> nat \<Rightarrow> bool) \<Rightarrow> GrantSet \<Rightarrow> ('c, 'w) ProxyPools \<Rightarrow> ('c, 'w) ProxyPools \<times> nat" where
  "ProxyPools_converge alive grants pp =
     (let (pools, n) = converge_pools alive grants (pp_pools pp);
          dropped = filter (\<lambda>(slot, e). \<not> entry_kept grants slot e) pools;
          opened_by_dropped = fold (\<lambda>(slot, e) m.
             bt_insert slot (bt_get_or 0 m slot + stats_opened (Pool_stats (pe_pool e))) m) dropped (pp_opened_by_dropped pp)
      in (pp\<lparr>pp_pools := bt_retain (entry_kept grants) pools, pp_opened_by_dropped := opened_by_dropped\<rparr>, n))"

definition ProxyPools_drain :: "(Slot \<Rightarrow> nat \<Rightarrow> bool) \<Rightarrow> ('c, 'w) ProxyPools \<Rightarrow> ('c, 'w) ProxyPools \<times> nat" where
  "ProxyPools_drain alive pp = ProxyPools_converge alive GrantSet_default pp"

section \<open>Reports\<close>

lemma stats_occupied [simp]: "PoolStats_occupied (Pool_stats p) = Pool_occupied p"
  by (simp add: PoolStats_occupied_def PoolStats_actual_def Pool_stats_def Pool_occupied_def)

lemma stats_demand: "PoolStats_demand (Pool_stats p) = length (pl_waiters p) + pl_in_use p + pl_opening p"
  by (simp add: PoolStats_demand_def Pool_stats_def)

abbreviation usage_of :: "'c Pool \<Rightarrow> Usage" where
  "usage_of p \<equiv> \<lparr>usage_demand = saturate (PoolStats_demand (Pool_stats p)), usage_actual = saturate (PoolStats_occupied (Pool_stats p))\<rparr>"

lemma report_fold:
  "report_usage (fold (\<lambda>((i, tenant), e) report. Report_usage report i tenant (usage_of (pe_pool e))) xs r)
     = fold (\<lambda>(k, v) m. bt_insert k v m) (map (\<lambda>(slot, e). (slot, usage_of (pe_pool e))) xs) (report_usage r)
   \<and> report_generation (fold (\<lambda>((i, tenant), e) report. Report_usage report i tenant (usage_of (pe_pool e))) xs r)
     = report_generation r"
  by (induction xs arbitrary: r) (auto simp: Report_usage_def)

lemma report_usage_pools:
  assumes "bt_wf (pp_pools pp)"
  shows "report_usage (ProxyPools_report gen pp) = bt_map (\<lambda>_ e. usage_of (pe_pool e)) (pp_pools pp)"
    and "report_generation (ProxyPools_report gen pp) = gen"
proof -
  have "report_usage (ProxyPools_report gen pp) = bt_collect (bt_map (\<lambda>_ e. usage_of (pe_pool e)) (pp_pools pp))"
    using report_fold [of "pp_pools pp" "Report_new gen"]
    by (simp add: ProxyPools_report_def bt_collect_def bt_map_def Report_new_def Let_def)
  then show "report_usage (ProxyPools_report gen pp) = bt_map (\<lambda>_ e. usage_of (pe_pool e)) (pp_pools pp)"
    using assms by (simp add: bt_collect_wf_id)
  show "report_generation (ProxyPools_report gen pp) = gen"
    using report_fold [of "pp_pools pp" "Report_new gen"]
    by (simp add: ProxyPools_report_def Report_new_def Let_def)
qed

section \<open>Converging\<close>

lemma Pool_converge_spec:
  assumes "Pool_converge alive grant p = (p', n, sent)"
  shows "pl_slots p' = grant" "pl_opened p' = pl_opened p" "no_free_slot p'"
proof -
  obtain p1 out where r: "retire grant p = (p1, out)" by fastforce
  from r obtain i k where "pl_idle p = i @ k" and k: "p1 = p\<lparr>pl_slots := grant, pl_retiring := [], pl_idle := i, pl_closing := pl_closing p + length k\<rparr>"
    by (rule retire_spec)
  have "hand_out alive (p1\<lparr>pl_closing := pl_closing p1 - length out\<rparr>) = (p', sent)"
    using assms r by (auto simp: Pool_converge_def closed_def Let_def split: prod.splits)
  from hand_out_spec [OF this] k show "pl_slots p' = grant" "pl_opened p' = pl_opened p" "no_free_slot p'"
    by (auto simp: passed_def)
qed

lemma converge_pools_map:
  "fst (converge_pools alive grants xs) = bt_map (\<lambda>slot e.
     e\<lparr>pe_pool := fst (Pool_converge (alive slot) (GrantSet_get grants (fst slot) (snd slot)) (pe_pool e))\<rparr>) xs"
  by (induction xs) (auto simp: bt_map_def case_prod_unfold Let_def)

lemma fold_add_get:
  fixes f :: "'v \<Rightarrow> nat"
  assumes "distinct (map fst xs)"
  shows "bt_get_or 0 (fold (\<lambda>(k, e) m. bt_insert k (bt_get_or 0 m k + f e) m) xs m) k
     = bt_get_or 0 m k + (case map_of xs k of None \<Rightarrow> 0 | Some e \<Rightarrow> f e)"
  using assms
proof (induction xs arbitrary: m)
  case (Cons x xs)
  obtain k' e where x: "x = (k', e)" by fastforce
  have "map_of xs k' = None" using Cons.prems by (simp add: x map_of_eq_None_iff)
  with Cons show ?case by (auto simp: x)
qed simp

definition total_opened :: "('c, 'w) ProxyPools \<Rightarrow> Slot \<Rightarrow> nat" where
  "total_opened pp slot = bt_get_or 0 (pp_opened_by_dropped pp) slot
     + (case bt_get (pp_pools pp) slot of None \<Rightarrow> 0 | Some e \<Rightarrow> pl_opened (pe_pool e))"

section \<open>Properties\<close>

text \<open>
  A report measures every pool exactly and names the grants it was measured against: for each
  instance and tenant it carries the pool's demand (waiting, in use and opening) and everything the
  pool occupies, clamped to 32 bits, and nothing for a slot without a pool.
\<close>

theorem report_measures_pools:
  assumes "bt_wf (pp_pools pp)"
  shows "report_generation (ProxyPools_report gen pp) = gen
     \<and> Report_get (ProxyPools_report gen pp) i tenant = (case ProxyPools_get i tenant pp of
          None \<Rightarrow> Usage_default
        | Some p \<Rightarrow> \<lparr>usage_demand = clamp32 (length (pl_waiters p) + pl_in_use p + pl_opening p),
                     usage_actual = clamp32 (length (pl_idle p) + pl_in_use p + pl_opening p + pl_closing p)\<rparr>)"
  using report_usage_pools [OF assms, of gen]
  by (auto simp: Report_get_def bt_get_or_def ProxyPools_get_def stats_demand saturate_def Pool_occupied_def
      split: option.splits)

theorem report_measures_pools_witness:
  "usage_demand (Report_get (ProxyPools_report 3 (ProxyPools_insert () (InstanceId ''db'') (TenantId ''u'' ''d'')
      ((Pool_new 1 :: nat Pool)\<lparr>pl_in_use := 1, pl_waiters := [0, 1]\<rparr>) ProxyPools_new)) (InstanceId ''db'') (TenantId ''u'' ''d'')) = 3"
proof -
  let ?pp = "ProxyPools_insert () (InstanceId ''db'') (TenantId ''u'' ''d'')
      ((Pool_new 1 :: nat Pool)\<lparr>pl_in_use := 1, pl_waiters := [0, 1]\<rparr>) ProxyPools_new"
  have "bt_wf (pp_pools ?pp)" by (simp add: ProxyPools_insert_def ProxyPools_new_def bt_wf_def)
  from report_measures_pools [OF this, of 3 "InstanceId ''db''" "TenantId ''u'' ''d''"] show ?thesis
    by (simp add: ProxyPools_get_def ProxyPools_insert_def ProxyPools_new_def bt_get_Cons Pool_new_def clamp32_def u32_max_def)
qed

text \<open>
  A convergence leaves every pool that is kept with exactly the grant as its slots and nobody
  waiting beside a free one, and drops a pool only if it has no grant, no connection and no holder.
\<close>

theorem converge_leaves_grants:
  assumes "bt_wf (pp_pools pp)" "pp' = fst (ProxyPools_converge alive grants pp)"
  shows "case bt_get (pp_pools pp') (i, tenant) of
     Some e \<Rightarrow> pl_slots (pe_pool e) = GrantSet_get grants i tenant
       \<and> (pl_waiters (pe_pool e) = [] \<or> pl_idle (pe_pool e) = [] \<and> pl_slots (pe_pool e) \<le> Pool_occupied (pe_pool e))
   | None \<Rightarrow> (\<forall>e. bt_get (pp_pools pp) (i, tenant) = Some e \<longrightarrow> GrantSet_get grants i tenant = 0 \<and> pe_handles e = 0)"
proof -
  let ?f = "\<lambda>slot e. e\<lparr>pe_pool := fst (Pool_converge (alive slot) (GrantSet_get grants (fst slot) (snd slot)) (pe_pool e))\<rparr>"
  have pools: "pp_pools pp' = bt_retain (entry_kept grants) (bt_map ?f (pp_pools pp))"
    by (simp add: assms(2) ProxyPools_converge_def Let_def case_prod_unfold converge_pools_map)
  have left: "pl_slots (fst (Pool_converge a n p)) = n"
    "pl_waiters (fst (Pool_converge a n p)) \<noteq> [] \<Longrightarrow> pl_idle (fst (Pool_converge a n p)) = []"
    "pl_waiters (fst (Pool_converge a n p)) \<noteq> [] \<Longrightarrow> n \<le> Pool_occupied (fst (Pool_converge a n p))"
    for a n and p :: "'a Pool"
  proof -
    obtain p' m sent where run: "Pool_converge a n p = (p', m, sent)" by (metis prod.collapse)
    from Pool_converge_spec [OF run] show "pl_slots (fst (Pool_converge a n p)) = n"
      "pl_waiters (fst (Pool_converge a n p)) \<noteq> [] \<Longrightarrow> pl_idle (fst (Pool_converge a n p)) = []"
      "pl_waiters (fst (Pool_converge a n p)) \<noteq> [] \<Longrightarrow> n \<le> Pool_occupied (fst (Pool_converge a n p))"
      by (auto simp: run no_free_slot_def)
  qed
  show ?thesis
    using assms(1)
    by (auto simp: pools bt_get_retain left entry_kept_def Pool_is_unused_def split: option.splits if_splits)
qed

theorem converge_leaves_grants_witness:
  "case bt_get (pp_pools (fst (ProxyPools_converge (\<lambda>_ _. True) \<lparr>gs_generation = 1, gs_grants = [((InstanceId ''db'', TenantId ''u'' ''d''), 2)]\<rparr>
     (ProxyPools_insert () (InstanceId ''db'') (TenantId ''u'' ''d'') (Pool_new 0 :: nat Pool) ProxyPools_new))))
     (InstanceId ''db'', TenantId ''u'' ''d'') of Some e \<Rightarrow> pl_slots (pe_pool e) = 2 | None \<Rightarrow> False"
proof -
  let ?pp = "ProxyPools_insert () (InstanceId ''db'') (TenantId ''u'' ''d'') (Pool_new 0 :: nat Pool) ProxyPools_new"
  let ?g = "\<lparr>gs_generation = 1, gs_grants = [((InstanceId ''db'', TenantId ''u'' ''d''), 2)]\<rparr>"
  have wf: "bt_wf (pp_pools ?pp)" by (simp add: ProxyPools_insert_def ProxyPools_new_def bt_wf_def)
  have g: "GrantSet_get ?g (InstanceId ''db'') (TenantId ''u'' ''d'') = 2"
    by (simp add: GrantSet_get_def bt_get_or_def bt_get_Cons)
  show ?thesis
    using converge_leaves_grants [OF wf refl, where alive = "\<lambda>_ _. True" and grants = ?g and i = "InstanceId ''db''" and tenant = "TenantId ''u'' ''d''"] g
    by (auto simp: ProxyPools_insert_def ProxyPools_new_def bt_get_Cons split: option.splits)
qed

text \<open>
  The count of connections opened for a slot is never lost: a convergence, which may drop pools,
  leaves the sum of what dropped pools had opened and what the present pool has opened unchanged.
\<close>

theorem converge_keeps_opened_count:
  assumes "bt_wf (pp_pools pp)"
  shows "total_opened (fst (ProxyPools_converge alive grants pp)) slot = total_opened pp slot"
proof -
  let ?f = "\<lambda>slot e. e\<lparr>pe_pool := fst (Pool_converge (alive slot) (GrantSet_get grants (fst slot) (snd slot)) (pe_pool e))\<rparr>"
  let ?pools = "bt_map ?f (pp_pools pp)"
  let ?drop = "filter (\<lambda>(slot, e). \<not> entry_kept grants slot e) ?pools"
  have wf: "bt_wf ?pools" using assms by simp
  have dist: "distinct (map fst ?drop)"
    using bt_wf_distinct [OF wf] by (rule distinct_map_filter)
  have get: "map_of ?drop slot = (case bt_get ?pools slot of None \<Rightarrow> None | Some e \<Rightarrow> if entry_kept grants slot e then None else Some e)"
    using bt_get_retain [OF wf, of "\<lambda>slot e. \<not> entry_kept grants slot e" slot]
    by (auto simp: bt_retain_def bt_get_def split: option.splits)
  have op: "pl_opened (fst (Pool_converge a n p)) = pl_opened p" for a n and p :: "'a Pool"
    using Pool_converge_spec(2) [of a n p] by (metis prod.collapse)
  have "bt_get_or 0 (pp_opened_by_dropped (fst (ProxyPools_converge alive grants pp))) slot
      = bt_get_or 0 (pp_opened_by_dropped pp) slot + (case map_of ?drop slot of None \<Rightarrow> 0 | Some e \<Rightarrow> pl_opened (pe_pool e))"
    using fold_add_get [OF dist, of "\<lambda>e. pl_opened (pe_pool e)" "pp_opened_by_dropped pp" slot]
    by (simp add: ProxyPools_converge_def Let_def case_prod_unfold converge_pools_map Pool_stats_def)
  moreover have "bt_get (pp_pools (fst (ProxyPools_converge alive grants pp))) slot
      = (case bt_get ?pools slot of None \<Rightarrow> None | Some e \<Rightarrow> if entry_kept grants slot e then Some e else None)"
    using bt_get_retain [OF wf] by (simp add: ProxyPools_converge_def Let_def case_prod_unfold converge_pools_map)
  ultimately show ?thesis
    by (cases "bt_get (pp_pools pp) slot") (auto simp: total_opened_def get op)
qed

theorem converge_keeps_opened_count_witness:
  "total_opened (fst (ProxyPools_converge (\<lambda>_ _. True) GrantSet_default
     (ProxyPools_insert () (InstanceId ''db'') (TenantId ''u'' ''d'') ((Pool_new 0 :: nat Pool)\<lparr>pl_opened := 5\<rparr>) ProxyPools_new)))
     (InstanceId ''db'', TenantId ''u'' ''d'') = 5"
  by (subst converge_keeps_opened_count)
    (simp_all add: ProxyPools_insert_def ProxyPools_new_def bt_wf_def total_opened_def bt_get_Cons)

end
