(* ===== verification/Cluster.thy ===== *)
theory Cluster
  imports Coordinator Convergence
begin

text \<open>
  The coordinator and the proxies together. Every proxy runs the loop of
  \<^verbatim>\<open>ProxyPools::run\<close> (\<^verbatim>\<open>crates/core/src/convergence.rs\<close>): take the latest grants, resize its pools one
  after the other, measure them, deliver the report; its pools take their own steps at any moment in
  between. Pools enter through an interface, which the pool of \<open>Pool\<close> is shown to implement. The result
  is the promise of the whole system: the connections all proxies have on an instance never exceed what
  the coordinator counts, and so never the budget of an instance that is within it.
\<close>

section \<open>What a round tells a proxy\<close>

lemma published_unknown:
  assumes "coord_inv st" "bt_get (st_proxies st) proxy = None"
  shows "published (st_table st) proxy = []"
proof (rule bt_ext)
  have "gr st proxy slot = 0" for slot
    using coord_invD(7) [OF assms(1), where proxy = proxy and slot = slot] assms(2) by auto
  then show "bt_get (published (st_table st) proxy) slot = bt_get [] slot" for slot
    by (simp add: published_get [OF coord_invD(1) [OF assms(1)]])
qed simp_all

context coordinator
begin

lemma reconcile_generation:
  "coord_inv st \<Longrightarrow> st_generation st \<le> st_generation (fst (reconcile alloc release_delay st))"
  by (simp add: reconcile_cases(2))

lemma reconcile_proxy:
  fixes st :: State and release_delay :: nat
  assumes inv: "coord_inv st"
  defines "st' \<equiv> fst (reconcile alloc release_delay st)"
  obtains (same) "published (st_table st') proxy = published (st_table st) proxy"
      "ps_held (proxy_at st' proxy) = ps_held (proxy_at st proxy)"
      "ps_grants (proxy_at st' proxy) = ps_grants (proxy_at st proxy)"
    | (changed) "published (st_table st') proxy \<noteq> published (st_table st) proxy"
      "st_generation st' = st_generation st + 1"
      "proxy_at st' proxy = publish_proxy (st_generation st + 1) (published (st_table st) proxy)
         (published (st_table st') proxy) (proxy_at (State_track_idle st) proxy)"
proof -
  let ?st = "State_track_idle st"
  have tab: "st_table st' = round_table alloc release_delay st"
    using reconcile_frame(1) [OF inv] by (simp add: st'_def)
  note r = reconcile_cases(2) [OF inv, of release_delay, folded st'_def]
  have inv1: "coord_inv ?st" by (rule coord_inv_track_idle [OF inv])
  show thesis
  proof (cases "bt_get (st_proxies ?st) proxy")
    case None
    then have none: "bt_get (st_proxies st) proxy = None" "bt_get (st_proxies st') proxy = None"
      using contains_keys [OF track_idle_frame(6), of st proxy]
        contains_keys [OF reconcile_frame(4) [OF inv], of release_delay proxy] by (auto simp: st'_def)
    then show thesis
      using published_unknown [OF inv none(1)] published_unknown [OF reconcile_inv [OF inv], of release_delay proxy]
      by (intro same) (simp_all add: st'_def proxy_at_none)
  next
    case (Some ps)
    show thesis
    proof (cases "published_by_proxy (?st\<lparr>st_table := round_table alloc release_delay st\<rparr>) = published_by_proxy ?st")
      case True
      have "published (round_table alloc release_delay st) proxy = published (st_table st) proxy"
        using published_by_proxy_eq [OF coord_invD(3) [OF inv1] _ True, of proxy] Some by simp
      moreover have "proxy_at st' proxy = proxy_at ?st proxy" using True by (simp add: r proxy_at_def)
      ultimately show thesis by (intro same) (simp_all add: tab)
    next
      case False
      have at: "proxy_at st' proxy = publish_proxy (st_generation st + 1) (published (st_table st) proxy)
          (published (round_table alloc release_delay st) proxy) (proxy_at ?st proxy)"
        using False Some by (simp add: r proxy_at_def bt_get_or_def)
      show thesis
      proof (cases "published (st_table st') proxy = published (st_table st) proxy")
        case True
        then show thesis using at by (intro same) (simp_all add: tab publish_proxy_def)
      next
        case diff: False
        then show thesis using at False by (intro changed) (simp_all add: tab r)
      qed
    qed
  qed
qed

text \<open>A slot whose grant moved carries the round's generation from then on.\<close>

lemma reconcile_changed_at:
  fixes st :: State and release_delay :: nat
  assumes inv: "coord_inv st"
  defines "st' \<equiv> fst (reconcile alloc release_delay st)"
  assumes h: "bt_get (ps_held (proxy_at st' proxy)) slot = Some h"
  shows "if gr st' proxy slot = gr st proxy slot then bt_get (ps_held (proxy_at st proxy)) slot = Some h
     else held_changed_at h = st_generation st + 1"
proof -
  have ok: "table_ok (st_table st)" "table_ok (st_table st')"
    using coord_invD(1) [OF inv] coord_invD(1) [OF reconcile_inv [OF inv, of release_delay]] by (simp_all add: st'_def)
  show ?thesis
  proof (cases rule: reconcile_proxy [OF inv, of release_delay proxy, folded st'_def])
    case 1
    then have "gr st' proxy slot = gr st proxy slot"
      using published_get_or [OF ok(1), of proxy slot] published_get_or [OF ok(2), of proxy slot] by simp
    with 1 h show ?thesis by simp
  next
    case 2
    have "bt_wf (ps_held (proxy_at (State_track_idle st) proxy))"
      using coord_invD(2) [OF inv] by (simp add: proxies_wf_iff)
    from publish_proxy_held [OF this 2(1) [symmetric], of "st_generation st + 1" slot] h 2(3) ok show ?thesis
      by (auto split: option.splits if_splits)
  qed
qed

end

text \<open>Every known proxy's channel carries its part of the table, with a generation already given out.\<close>

definition pub_inv :: "State \<Rightarrow> bool" where
  "pub_inv st \<longleftrightarrow> (\<forall>proxy. bt_contains (st_proxies st) proxy \<longrightarrow>
     gs_grants (ps_grants (proxy_at st proxy)) = published (st_table st) proxy
     \<and> gs_generation (ps_grants (proxy_at st proxy)) \<le> st_generation st)"

context coordinator
begin

lemma pub_inv_reconcile:
  assumes inv: "coord_inv st" and pub: "pub_inv st"
  shows "pub_inv (fst (reconcile alloc release_delay st))"
  unfolding pub_inv_def
proof (intro allI impI)
  fix proxy
  let ?st' = "fst (reconcile alloc release_delay st)"
  assume "bt_contains (st_proxies ?st') proxy"
  then have known: "bt_contains (st_proxies st) proxy"
    using contains_keys [OF reconcile_frame(4) [OF inv], of release_delay proxy] by blast
  show "gs_grants (ps_grants (proxy_at ?st' proxy)) = published (st_table ?st') proxy
      \<and> gs_generation (ps_grants (proxy_at ?st' proxy)) \<le> st_generation ?st'"
  proof (cases rule: reconcile_proxy [OF inv, of release_delay proxy])
    case 1
    with pub known reconcile_generation [OF inv, of release_delay] show ?thesis
      by (auto simp: pub_inv_def intro: order_trans)
  next
    case 2
    then show ?thesis by (simp add: publish_proxy_def Let_def)
  qed
qed

end

section \<open>Moves of the coordinator\<close>

text \<open>The operations that neither report nor withdraw.\<close>

inductive coord_move :: "allocator \<Rightarrow> nat \<Rightarrow> State \<Rightarrow> State \<Rightarrow> bool" for alloc release_delay where
  move_reconcile: "coord_move alloc release_delay st (fst (reconcile alloc release_delay st))"
| move_reconcile_at: "coord_move alloc release_delay st (fst (reconcile_at alloc release_delay now st))"
| move_add_instance:
    "tb_total (ib_budget b) \<le> u32_max \<Longrightarrow> coord_move alloc release_delay st (add_instance i b st)"
| move_observe: "coord_move alloc release_delay st (fst (observe_instance i at n st))"
| move_set_policies: "coord_move alloc release_delay st (set_policies policies st)"
| move_set_tenant: "coord_move alloc release_delay st (fst (set_tenant alloc release_delay tenant change st))"
| move_set_margin: "coord_move alloc release_delay st (fst (set_margin alloc release_delay i margin st))"
| move_channel: "coord_move alloc release_delay st (channel proxy st)"

text \<open>What such a move may do to what the coordinator believes of the proxies.\<close>

definition believes :: "State \<Rightarrow> State \<Rightarrow> bool" where
  "believes st st' \<longleftrightarrow>
     (\<forall>proxy slot. occ st proxy slot \<le> occ st' proxy slot \<and> occ st' proxy slot \<le> max u32_max (occ st proxy slot))
     \<and> st_generation st \<le> st_generation st'
     \<and> (\<forall>proxy. ps_departed (proxy_at st' proxy) = ps_departed (proxy_at st proxy))
     \<and> (\<forall>proxy slot h. bt_get (ps_held (proxy_at st' proxy)) slot = Some h \<longrightarrow>
          gr st' proxy slot = gr st proxy slot \<and> bt_get (ps_held (proxy_at st proxy)) slot = Some h
          \<or> st_generation st < held_changed_at h)
     \<and> (\<forall>i. occupied_total st' i \<le> (case budget_total st' i of
          None \<Rightarrow> occupied_total st i | Some b \<Rightarrow> max b (occupied_total st i)))"

lemma gr_bound: "table_ok (st_table st) \<Longrightarrow> gr st proxy slot \<le> u32_max"
proof (cases "bt_get (table_instances (st_table st)) (fst slot)")
  case (Some d)
  assume "table_ok (st_table st)"
  then have "desired_ok d" "desired_total d \<le> desired_budget d"
    using bt_get_SomeD [OF Some] by (auto simp: table_ok_def)
  then show ?thesis
    using bt_sum_ge [of "desired_granted d" "Holder (snd slot) proxy" _ id]
    by (auto simp: AllocationTable_granted_def Desired_granted_def Some bt_get_or_def desired_ok_def desired_wf_def
        split: option.splits)
qed (simp add: AllocationTable_granted_def)

lemma believes_refl: "believes st st"
  by (auto simp: believes_def split: option.splits)

lemma believes_frame:
  assumes wf: "proxies_wf st" "proxies_wf st'"
    and "st_generation st' = st_generation st" "st_table st' = st_table st"
    and "\<And>proxy. ps_held (proxy_at st' proxy) = ps_held (proxy_at st proxy)"
    and "\<And>proxy. ps_departed (proxy_at st' proxy) = ps_departed (proxy_at st proxy)"
  shows "believes st st'"
proof -
  have occ: "occ st' proxy slot = occ st proxy slot" for proxy slot
    by (rule occ_held_cong) (simp add: assms)
  moreover have "occupied_total st' i = occupied_total st i" for i
    using wf occ by (rule occupied_total_cong)
  ultimately show ?thesis using assms by (simp add: believes_def split: option.splits)
qed

context coordinator
begin

lemma believes_reconcile:
  assumes inv: "coord_inv st"
  shows "believes st (fst (reconcile alloc release_delay st))"
proof -
  let ?st' = "fst (reconcile alloc release_delay st)"
  have "gr ?st' proxy slot \<le> u32_max" for proxy slot
    using coord_invD(1) [OF reconcile_inv [OF inv]] by (rule gr_bound)
  then have "occ ?st' proxy slot \<le> max u32_max (occ st proxy slot)" for proxy slot
    by (simp add: reconcile_occ [OF inv] max.coboundedI1)
  moreover have "budget_total ?st' i = budget_total st i" for i
    by (simp add: budget_total_def reconcile_frame(2) [OF inv])
  ultimately show ?thesis
    using reconcile_total [OF inv, of release_delay] reconcile_changed_at [OF inv, of release_delay]
      reconcile_frame(5) [OF inv, of release_delay] reconcile_generation [OF inv, of release_delay]
    by (fastforce simp: believes_def reconcile_occ [OF inv] split: if_splits)
qed

lemma believes_reconcile_frame:
  assumes "coord_inv st0" "proxies_wf st" "st_generation st0 = st_generation st" "st_table st0 = st_table st"
    and "st_proxies st0 = st_proxies st"
  shows "believes st (fst (reconcile alloc release_delay st0))"
proof -
  have at: "proxy_at st0 p = proxy_at st p" for p by (simp add: proxy_at_def assms(5))
  have tot: "occupied_total st0 i = occupied_total st i" for i by (simp add: occupied_total_def assms(5))
  from believes_reconcile [OF assms(1), of release_delay] show ?thesis
    unfolding believes_def at assms(3,4) tot .
qed

lemma coord_move_step: "coord_move alloc release_delay st st' \<Longrightarrow> coord_step alloc release_delay st st'"
  by (induction rule: coord_move.induct) (auto intro: coord_step.intros)

lemma pub_inv_frame:
  assumes "pub_inv st" "st_generation st' = st_generation st" "st_table st' = st_table st" "st_proxies st' = st_proxies st"
  shows "pub_inv st'"
  using assms(1) by (simp add: pub_inv_def proxy_at_def assms(2-4))

lemma set_tenant_frame:
  obtains "fst (set_tenant alloc release_delay tenant change st) = st"
  | changed where "fst (set_tenant alloc release_delay tenant change st)
      = fst (reconcile alloc release_delay (st\<lparr>st_policies := changed\<rparr>))"
  by (cases "Policies_change_tenant (st_policies st) tenant change (budget_total st)") (auto simp: set_tenant_def)

lemma set_margin_frame:
  obtains "fst (set_margin alloc release_delay i margin st) = st"
  | b where "fst (set_margin alloc release_delay i margin st)
      = fst (reconcile alloc release_delay (st\<lparr>st_budgets := bt_insert i b (st_budgets st)\<rparr>))"
    "tb_total (ib_budget b) \<le> u32_max"
proof (cases "bt_get (st_budgets st) i")
  case None
  then show thesis by (intro that(1)) (simp add: set_margin_def)
next
  case (Some b)
  let ?b = "fst (InstanceBudget_set_margin b margin)"
  have "tb_total (ib_budget ?b) \<le> u32_max" by (simp add: InstanceBudget_set_margin_def)
  then show thesis
    using that Some
    by (cases "Policies_minimums_on (st_policies st) i > tb_total (InstanceBudget_with_margin b margin)")
      (auto simp: set_margin_def Let_def case_prod_unfold)
qed

lemma keeps_frame:
  assumes "coord_inv st" "coord_inv st'" "pub_inv st"
    and "st_generation st' = st_generation st" "st_table st' = st_table st" "st_proxies st' = st_proxies st"
  shows "pub_inv st' \<and> believes st st'"
  using pub_inv_frame [OF assms(3-6)] assms(4-6)
  by (auto intro!: believes_frame coord_invD(2) [OF assms(1)] coord_invD(2) [OF assms(2)] simp: proxy_at_def)

lemma keeps_round:
  assumes "coord_inv st" "pub_inv st" "coord_inv st0"
    and "st_generation st0 = st_generation st" "st_table st0 = st_table st" "st_proxies st0 = st_proxies st"
  shows "pub_inv (fst (reconcile alloc release_delay st0)) \<and> believes st (fst (reconcile alloc release_delay st0))"
  using pub_inv_reconcile [OF assms(3) pub_inv_frame [OF assms(2,4-6)]]
    believes_reconcile_frame [OF assms(3) coord_invD(2) [OF assms(1)] assms(4-6)] by simp

lemma keeps_tenant:
  assumes "coord_inv st" "pub_inv st"
  shows "pub_inv (fst (set_tenant alloc release_delay tenant change st))
    \<and> believes st (fst (set_tenant alloc release_delay tenant change st))"
proof (rule set_tenant_frame [of release_delay tenant change st])
  fix changed
  assume "fst (set_tenant alloc release_delay tenant change st)
    = fst (reconcile alloc release_delay (st\<lparr>st_policies := changed\<rparr>))"
  with keeps_round [OF assms, of "st\<lparr>st_policies := changed\<rparr>" release_delay] assms(1) show ?thesis
    by (simp add: coord_inv_set_policies)
qed (use assms believes_refl in simp)

lemma keeps_margin:
  assumes "coord_inv st" "pub_inv st"
  shows "pub_inv (fst (set_margin alloc release_delay i margin st))
    \<and> believes st (fst (set_margin alloc release_delay i margin st))"
proof (rule set_margin_frame [of release_delay i margin st])
  fix b
  assume "fst (set_margin alloc release_delay i margin st)
      = fst (reconcile alloc release_delay (st\<lparr>st_budgets := bt_insert i b (st_budgets st)\<rparr>))"
    "tb_total (ib_budget b) \<le> u32_max"
  with keeps_round [OF assms, of "st\<lparr>st_budgets := bt_insert i b (st_budgets st)\<rparr>" release_delay] assms(1) show ?thesis
    by (simp add: coord_inv_budget)
qed (use assms believes_refl in simp)

lemma keeps_channel:
  assumes inv: "coord_inv st" "coord_inv (channel proxy st)" and pub: "pub_inv st"
  shows "pub_inv (channel proxy st) \<and> believes st (channel proxy st)"
proof -
  let ?st' = "channel proxy st"
  have at: "ps_held (proxy_at ?st' p) = ps_held (proxy_at st p)" "ps_departed (proxy_at ?st' p) = ps_departed (proxy_at st p)"
    "ps_grants (proxy_at ?st' p) = ps_grants (proxy_at st p)" for p
    by (auto simp: channel_def proxy_at_def bt_get_or_def)
  have same: "st_generation ?st' = st_generation st" "st_table ?st' = st_table st"
    by (simp_all add: channel_def)
  have "gs_grants (ps_grants (proxy_at ?st' p)) = published (st_table ?st') p
      \<and> gs_generation (ps_grants (proxy_at ?st' p)) \<le> st_generation ?st'" for p
  proof (cases "bt_get (st_proxies st) p")
    case None
    then show ?thesis
      by (simp add: at same proxy_at_none ProxyState_new_def GrantSet_default_def published_unknown [OF inv(1)])
  next
    case (Some ps)
    then show ?thesis using pub by (simp add: pub_inv_def at same)
  qed
  then have "pub_inv ?st'" by (simp add: pub_inv_def)
  with believes_frame [OF coord_invD(2) [OF inv(1)] coord_invD(2) [OF inv(2)] same at(1,2)] show ?thesis by blast
qed

lemma coord_move_keeps:
  assumes move: "coord_move alloc release_delay st st'" and inv: "coord_inv st" and pub: "pub_inv st"
  shows "coord_inv st'" "pub_inv st'" "believes st st'"
proof -
  show inv': "coord_inv st'" using inv coord_move_step [OF move] by (rule coord_inv_step)
  note frame = keeps_frame [OF inv inv' pub] and round = keeps_round [OF inv pub]
  have "pub_inv st' \<and> believes st st'"
    using move
  proof cases
    case move_reconcile
    then show ?thesis using inv by (simp add: round)
  next
    case (move_reconcile_at now)
    then show ?thesis using inv by (simp add: round reconcile_at_def coord_inv_set_now)
  next
    case (move_add_instance b i)
    then show ?thesis by (intro frame) (simp_all add: add_instance_def)
  next
    case (move_observe i at n)
    then show ?thesis by (intro frame) (simp_all add: observe_instance_def Let_def case_prod_unfold split: option.splits)
  next
    case (move_set_policies policies)
    then show ?thesis by (intro frame) (simp_all add: set_policies_def)
  next
    case (move_channel proxy)
    then show ?thesis using keeps_channel [OF inv _ pub] inv' by simp
  qed (simp_all add: keeps_tenant keeps_margin inv pub)
  then show "pub_inv st'" "believes st st'" by simp_all
qed

end

section \<open>The pool interface\<close>

text \<open>
  What the proxies rely on from a pool: its slots change only when it is resized, and nothing it does
  lets it occupy more than its slots or what it occupied already.
\<close>

record 'p pool_ops =
  po_slots :: "'p \<Rightarrow> nat"
  po_occupied :: "'p \<Rightarrow> nat"
  po_step :: "'p \<Rightarrow> 'p \<Rightarrow> bool"
  po_resize :: "nat \<Rightarrow> 'p \<Rightarrow> 'p \<Rightarrow> bool"
  po_fresh :: 'p

locale sized_pool =
  fixes ops :: "'p pool_ops"
    and ok :: "'p \<Rightarrow> bool"
  assumes fresh: "ok (po_fresh ops)" "po_slots ops (po_fresh ops) = 0" "po_occupied ops (po_fresh ops) = 0"
    and step: "ok x \<Longrightarrow> po_step ops x y \<Longrightarrow> ok y \<and> po_slots ops y = po_slots ops x
      \<and> po_occupied ops y \<le> max (po_slots ops x) (po_occupied ops x)"
    and resize: "ok x \<Longrightarrow> po_resize ops n x y \<Longrightarrow> ok y \<and> po_slots ops y = n \<and> po_occupied ops y \<le> po_occupied ops x"

section \<open>Proxies and the cluster\<close>

text \<open>
  A proxy: its pools (one per slot; a pool that was never opened is a fresh one without slots), the
  grants its loop works with, the slots it still has to resize, and the report it has measured.
\<close>

record 'p node =
  nd_pools :: "Slot \<Rightarrow> 'p"
  nd_target :: GrantSet
  nd_todo :: "Slot set"
  nd_report :: "Report option"
  nd_stopped :: bool

record 'p cluster =
  cl_state :: State
  cl_nodes :: "ProxyId \<Rightarrow> 'p node"

abbreviation tgt :: "'p node \<Rightarrow> Slot \<Rightarrow> nat" where
  "tgt nd slot \<equiv> GrantSet_get (nd_target nd) (fst slot) (snd slot)"

abbreviation actual :: "Report \<Rightarrow> Slot \<Rightarrow> nat" where
  "actual r slot \<equiv> usage_actual (Report_get r (fst slot) (snd slot))"

definition set_node :: "ProxyId \<Rightarrow> 'p node \<Rightarrow> 'p cluster \<Rightarrow> 'p cluster" where
  "set_node p nd c = c\<lparr>cl_nodes := (cl_nodes c)(p := nd)\<rparr>"

definition set_pool :: "Slot \<Rightarrow> 'p \<Rightarrow> 'p node \<Rightarrow> 'p node" where
  "set_pool slot pool nd = nd\<lparr>nd_pools := (nd_pools nd)(slot := pool)\<rparr>"

inductive cluster_step :: "'p pool_ops \<Rightarrow> allocator \<Rightarrow> nat \<Rightarrow> 'p cluster \<Rightarrow> 'p cluster \<Rightarrow> bool" for ops alloc release_delay where
  cl_coord: "coord_move alloc release_delay (cl_state c) st \<Longrightarrow> cluster_step ops alloc release_delay c (c\<lparr>cl_state := st\<rparr>)"
| cl_take: "nd = cl_nodes c p \<Longrightarrow> \<not> nd_stopped nd \<Longrightarrow> nd_todo nd = {} \<Longrightarrow> nd_report nd = None \<Longrightarrow>
    {slot. po_slots ops (nd_pools nd slot) \<noteq> 0} \<subseteq> snapshot \<Longrightarrow>
    cluster_step ops alloc release_delay c
      (set_node p (nd\<lparr>nd_target := subscribe p (cl_state c), nd_todo := snapshot\<rparr>) c)"
| cl_resize: "nd = cl_nodes c p \<Longrightarrow> slot \<in> nd_todo nd \<Longrightarrow> po_resize ops (tgt nd slot) (nd_pools nd slot) pool \<Longrightarrow>
    cluster_step ops alloc release_delay c (set_node p (set_pool slot pool (nd\<lparr>nd_todo := nd_todo nd - {slot}\<rparr>)) c)"
| cl_measure: "nd = cl_nodes c p \<Longrightarrow> \<not> nd_stopped nd \<Longrightarrow> nd_todo nd = {} \<Longrightarrow> nd_report nd = None \<Longrightarrow>
    report_generation r = gs_generation (nd_target nd) \<Longrightarrow>
    (\<And>slot. actual r slot = clamp32 (po_occupied ops (nd_pools nd slot))) \<Longrightarrow>
    cluster_step ops alloc release_delay c (set_node p (nd\<lparr>nd_report := Some r\<rparr>) c)"
| cl_deliver: "nd = cl_nodes c p \<Longrightarrow> nd_report nd = Some r \<Longrightarrow>
    cluster_step ops alloc release_delay c
      (set_node p (nd\<lparr>nd_report := None\<rparr>) (c\<lparr>cl_state := report_for p r (cl_state c)\<rparr>))"
| cl_pool: "nd = cl_nodes c p \<Longrightarrow> po_step ops (nd_pools nd slot) pool \<Longrightarrow>
    cluster_step ops alloc release_delay c (set_node p (set_pool slot pool nd) c)"
| cl_stop: "nd = cl_nodes c p \<Longrightarrow>
    cluster_step ops alloc release_delay c (set_node p (nd\<lparr>nd_todo := {}, nd_report := None, nd_stopped := True\<rparr>) c)"
| cl_drain: "nd = cl_nodes c p \<Longrightarrow> nd_stopped nd \<Longrightarrow> po_resize ops 0 (nd_pools nd slot) pool \<Longrightarrow>
    cluster_step ops alloc release_delay c (set_node p (set_pool slot pool nd) c)"
| cl_depart: "nd = cl_nodes c p \<Longrightarrow> nd_stopped nd \<Longrightarrow>
    (\<And>slot. po_slots ops (nd_pools nd slot) = 0 \<and> po_occupied ops (nd_pools nd slot) = 0) \<Longrightarrow>
    cluster_step ops alloc release_delay c (c\<lparr>cl_state := mark_departed p (cl_state c)\<rparr>)"

definition cluster_start :: "'p pool_ops \<Rightarrow> ProxyId \<Rightarrow> 'p cluster" where
  "cluster_start ops proxy =
     \<lparr>cl_state = InProcessCoordinator_new proxy,
      cl_nodes = (\<lambda>_. \<lparr>nd_pools = (\<lambda>_. po_fresh ops), nd_target = GrantSet_default, nd_todo = {}, nd_report = None,
                       nd_stopped = False\<rparr>)\<rparr>"

inductive cluster_reachable :: "'p pool_ops \<Rightarrow> allocator \<Rightarrow> nat \<Rightarrow> 'p cluster \<Rightarrow> bool" for ops alloc release_delay where
  cluster_init: "cluster_reachable ops alloc release_delay (cluster_start ops proxy)"
| cluster_next: "cluster_reachable ops alloc release_delay c \<Longrightarrow> cluster_step ops alloc release_delay c c' \<Longrightarrow>
    cluster_reachable ops alloc release_delay c'"

interpretation cluster: transition_system "\<lambda>c. \<exists>proxy. c = cluster_start ops proxy"
    "cluster_step ops alloc release_delay" "cluster_reachable ops alloc release_delay" for ops alloc release_delay
proof
  fix s P
  assume "cluster_reachable ops alloc release_delay s"
    and init: "\<And>t. \<exists>proxy. t = cluster_start ops proxy \<Longrightarrow> P t"
    and step: "\<And>t u. cluster_reachable ops alloc release_delay t \<Longrightarrow> P t \<Longrightarrow> cluster_step ops alloc release_delay t u \<Longrightarrow> P u"
  from this(1) show "P s"
    by (induction rule: cluster_reachable.induct) (rule init, blast, rule step)
qed

section \<open>The invariant of the cluster\<close>

text \<open>
  Of one proxy: its pools hold and may open at most what the coordinator counts for it; the grants its
  loop works with agree with the table on every slot that has not changed since; every pool it has
  already resized is within them; and a measured report is no older than them.
\<close>

definition node_inv :: "'p pool_ops \<Rightarrow> ('p \<Rightarrow> bool) \<Rightarrow> State \<Rightarrow> ProxyId \<Rightarrow> 'p node \<Rightarrow> bool" where
  "node_inv ops ok st p nd \<longleftrightarrow>
     (\<forall>slot. ok (nd_pools nd slot) \<and> po_slots ops (nd_pools nd slot) \<le> occ st p slot
        \<and> po_occupied ops (nd_pools nd slot) \<le> occ st p slot)
     \<and> gs_generation (nd_target nd) \<le> st_generation st
     \<and> (\<forall>slot h. bt_get (ps_held (proxy_at st p)) slot = Some h \<longrightarrow>
          held_changed_at h \<le> gs_generation (nd_target nd) \<longrightarrow> tgt nd slot = gr st p slot)
     \<and> (\<not> nd_stopped nd \<longrightarrow> (\<forall>slot. tgt nd slot \<le> occ st p slot
          \<and> (slot \<notin> nd_todo nd \<longrightarrow> po_slots ops (nd_pools nd slot) \<le> tgt nd slot)))
     \<and> (nd_stopped nd \<longrightarrow> nd_todo nd = {} \<and> nd_report nd = None)
     \<and> (ps_departed (proxy_at st p) \<longrightarrow> nd_stopped nd)
     \<and> (\<forall>r. nd_report nd = Some r \<longrightarrow> nd_todo nd = {} \<and> report_generation r = gs_generation (nd_target nd)
          \<and> (\<forall>slot. po_occupied ops (nd_pools nd slot) \<le> max (po_slots ops (nd_pools nd slot)) (actual r slot)
               \<and> actual r slot \<le> occ st p slot))"

definition cluster_inv :: "'p pool_ops \<Rightarrow> ('p \<Rightarrow> bool) \<Rightarrow> 'p cluster \<Rightarrow> bool" where
  "cluster_inv ops ok c \<longleftrightarrow> coord_inv (cl_state c) \<and> pub_inv (cl_state c)
     \<and> (\<forall>p slot. occ (cl_state c) p slot \<le> u32_max) \<and> (\<forall>p. node_inv ops ok (cl_state c) p (cl_nodes c p))"

lemma node_invD:
  assumes "node_inv ops ok st p nd"
  shows "ok (nd_pools nd slot)" "po_slots ops (nd_pools nd slot) \<le> occ st p slot"
    "po_occupied ops (nd_pools nd slot) \<le> occ st p slot" "gs_generation (nd_target nd) \<le> st_generation st"
    "bt_get (ps_held (proxy_at st p)) slot = Some h \<Longrightarrow> held_changed_at h \<le> gs_generation (nd_target nd) \<Longrightarrow>
       tgt nd slot = gr st p slot"
    "\<not> nd_stopped nd \<Longrightarrow> tgt nd slot \<le> occ st p slot"
    "\<not> nd_stopped nd \<Longrightarrow> slot \<notin> nd_todo nd \<Longrightarrow> po_slots ops (nd_pools nd slot) \<le> tgt nd slot"
    "nd_stopped nd \<Longrightarrow> nd_todo nd = {} \<and> nd_report nd = None"
    "ps_departed (proxy_at st p) \<Longrightarrow> nd_stopped nd"
    "nd_report nd = Some r \<Longrightarrow> nd_todo nd = {} \<and> report_generation r = gs_generation (nd_target nd)"
    "nd_report nd = Some r \<Longrightarrow> po_occupied ops (nd_pools nd slot) \<le> max (po_slots ops (nd_pools nd slot)) (actual r slot)"
    "nd_report nd = Some r \<Longrightarrow> actual r slot \<le> occ st p slot"
  using assms unfolding node_inv_def by blast+

lemma believesD:
  assumes "believes st st'"
  shows "occ st proxy slot \<le> occ st' proxy slot" "occ st' proxy slot \<le> max u32_max (occ st proxy slot)"
    "st_generation st \<le> st_generation st'" "ps_departed (proxy_at st' proxy) = ps_departed (proxy_at st proxy)"
    "bt_get (ps_held (proxy_at st' proxy)) slot = Some h \<Longrightarrow>
          gr st' proxy slot = gr st proxy slot \<and> bt_get (ps_held (proxy_at st proxy)) slot = Some h
          \<or> st_generation st < held_changed_at h"
    "occupied_total st' i \<le> (case budget_total st' i of
          None \<Rightarrow> occupied_total st i | Some b \<Rightarrow> max b (occupied_total st i))"
  using assms unfolding believes_def by blast+

lemma node_inv_believes:
  assumes "node_inv ops ok st p nd" "believes st st'"
  shows "node_inv ops ok st' p nd"
proof -
  note up = believesD(1) [OF assms(2)] and gen = believesD(3,4) [OF assms(2)] and nd = node_invD [OF assms(1)]
  have "tgt nd slot = gr st' p slot"
    if "bt_get (ps_held (proxy_at st' p)) slot = Some h" "held_changed_at h \<le> gs_generation (nd_target nd)" for slot h
    using believesD(5) [OF assms(2) that(1)] nd(4) nd(5) [OF _ that(2)] that(2) by auto
  then show ?thesis
    unfolding node_inv_def gen(2)
    using nd(1) order_trans [OF nd(2) up] order_trans [OF nd(3) up] order_trans [OF nd(4) gen(1)]
      order_trans [OF nd(6) up] nd(7-11) order_trans [OF nd(12) up] by blast
qed

lemma node_inv_frame:
  assumes "node_inv ops ok st p nd" "st_generation st' = st_generation st" "st_table st' = st_table st"
    "proxy_at st' p = proxy_at st p"
  shows "node_inv ops ok st' p nd"
  using assms(1) unfolding node_inv_def assms(2-4) .

lemma set_node_simps [simp]:
  "cl_state (set_node p nd c) = cl_state c" "cl_nodes (set_node p nd c) q = (if q = p then nd else cl_nodes c q)"
  by (simp_all add: set_node_def)

lemma set_pool_simps [simp]:
  "nd_pools (set_pool slot pool nd) s = (if s = slot then pool else nd_pools nd s)"
  "nd_target (set_pool slot pool nd) = nd_target nd" "nd_todo (set_pool slot pool nd) = nd_todo nd"
  "nd_report (set_pool slot pool nd) = nd_report nd" "nd_stopped (set_pool slot pool nd) = nd_stopped nd"
  by (simp_all add: set_pool_def)

lemma cluster_inv_node:
  "cluster_inv ops ok c \<Longrightarrow> node_inv ops ok (cl_state c) p nd \<Longrightarrow> cluster_inv ops ok (set_node p nd c)"
  by (simp add: cluster_inv_def)

lemma subscribe_get:
  assumes "coord_inv st" "pub_inv st"
  shows "GrantSet_get (subscribe p st) (fst slot) (snd slot) = gr st p slot"
    and "gs_generation (subscribe p st) \<le> st_generation st"
proof -
  note ok = coord_invD(1) [OF assms(1)]
  have "gs_grants (subscribe p st) = published (st_table st) p \<and> gs_generation (subscribe p st) \<le> st_generation st"
  proof (cases "bt_get (st_proxies st) p")
    case None
    then show ?thesis by (simp add: subscribe_def GrantSet_default_def published_unknown [OF assms(1)])
  next
    case (Some ps)
    then show ?thesis using assms(2) by (auto simp: subscribe_def pub_inv_def proxy_at_get)
  qed
  then show "GrantSet_get (subscribe p st) (fst slot) (snd slot) = gr st p slot"
    "gs_generation (subscribe p st) \<le> st_generation st"
    using published_get_or [OF ok, of p slot] by (simp_all add: GrantSet_get_def)
qed

lemma node_inv_take:
  assumes nd: "node_inv ops ok st p nd" and inv: "coord_inv st" "pub_inv st"
    and "\<not> nd_stopped nd" "nd_report nd = None" "{slot. po_slots ops (nd_pools nd slot) \<noteq> 0} \<subseteq> snapshot"
  shows "node_inv ops ok st p (nd\<lparr>nd_target := subscribe p st, nd_todo := snapshot\<rparr>)"
proof -
  note d = node_invD [OF nd]
  have dep: "\<not> ps_departed (proxy_at st p)" using d(9) assms(4) by blast
  have tgt: "GrantSet_get (subscribe p st) (fst slot) (snd slot) = gr st p slot" for slot
    by (rule subscribe_get(1) [OF inv])
  have le: "gr st p slot \<le> occ st p slot" for slot by (rule coord_invD(8) [OF inv(1) dep])
  have zero: "po_slots ops (nd_pools nd slot) = 0" if "slot \<notin> snapshot" for slot using assms(6) that by blast
  show ?thesis
    unfolding node_inv_def using d(1-3) subscribe_get(2) [OF inv] le zero dep assms(4,5) by (simp add: tgt)
qed

context sized_pool
begin

lemma node_inv_resize:
  assumes nd: "node_inv ops ok st p nd" and "slot \<in> nd_todo nd" "po_resize ops (tgt nd slot) (nd_pools nd slot) pool"
  shows "node_inv ops ok st p (set_pool slot pool (nd\<lparr>nd_todo := nd_todo nd - {slot}\<rparr>))"
proof -
  note d = node_invD [OF nd]
  have run: "\<not> nd_stopped nd" using d(8) assms(2) by blast
  have none: "nd_report nd = None" using d(10) assms(2) by (cases "nd_report nd") auto
  note r = resize [OF d(1) assms(3)]
  have "po_occupied ops pool \<le> occ st p slot" using r d(3) [of slot] by simp
  then show ?thesis
    unfolding node_inv_def using d(1-7,9) run none r by (auto simp: d(6) [OF run])
qed

lemma node_inv_pool:
  assumes nd: "node_inv ops ok st p nd" and "po_step ops (nd_pools nd slot) pool"
  shows "node_inv ops ok st p (set_pool slot pool nd)"
proof -
  note d = node_invD [OF nd]
  note r = step [OF d(1) assms(2)]
  have occ: "po_occupied ops pool \<le> occ st p slot"
    using r d(2,3) [of slot] by (meson max.bounded_iff order_trans)
  have "po_occupied ops pool \<le> max (po_slots ops pool) (actual r slot)" if "nd_report nd = Some r" for r
    using r d(11) [OF that, of slot] by (auto simp: max_def split: if_splits)
  then show ?thesis
    unfolding node_inv_def using d r occ by (auto split: if_splits)
qed

lemma node_inv_drain:
  assumes nd: "node_inv ops ok st p nd" and "nd_stopped nd" "po_resize ops 0 (nd_pools nd slot) pool"
  shows "node_inv ops ok st p (set_pool slot pool nd)"
proof -
  note d = node_invD [OF nd]
  note r = resize [OF d(1) assms(3)]
  have "po_occupied ops pool \<le> occ st p slot" using r d(3) [of slot] by simp
  then show ?thesis
    unfolding node_inv_def using d(1-5,8,9) assms(2) r by auto
qed

end

text \<open>Delivering a report: what it lowers was measured against the grants the table still has.\<close>

lemma report_other:
  assumes "q \<noteq> p"
  shows "proxy_at (report_for p r st) q = proxy_at st q"
  using assms by (simp add: report_for_def Let_def proxy_at_def split: option.splits)

lemma report_frame [simp]:
  "st_table (report_for p r st) = st_table st" "st_generation (report_for p r st) = st_generation st"
  "st_budgets (report_for p r st) = st_budgets st"
  by (simp_all add: report_for_def Let_def split: option.splits)

lemma report_occ:
  assumes inv: "coord_inv st" and known: "bt_get (st_proxies st) p = Some ps"
  shows "occ (report_for p r st) p slot = (case bt_get (ps_held (proxy_at st p)) slot of
     None \<Rightarrow> 0
   | Some h \<Rightarrow> if held_changed_at h \<le> report_generation r then max (gr st p slot) (actual r slot) else held_occupied h)"
proof -
  have "bt_wf (ps_held ps)" using coord_invD(2) [OF inv] proxy_at_get [OF known] by (auto simp: proxies_wf_iff)
  from report_for_held [OF coord_invD(1) [OF inv] known this, of r slot] show ?thesis
    by (auto simp: ProxyState_occupied_def proxy_at_get [OF known] Let_def split: option.splits)
qed

lemma report_delivered:
  assumes inv: "coord_inv st" and nd: "node_inv ops ok st p nd" and r: "nd_report nd = Some r"
    and known: "bt_get (st_proxies st) p = Some ps"
  shows "occ (report_for p r st) p slot \<le> occ st p slot"
    and "po_slots ops (nd_pools nd slot) \<le> occ (report_for p r st) p slot"
    and "po_occupied ops (nd_pools nd slot) \<le> occ (report_for p r st) p slot"
    and "tgt nd slot \<le> occ (report_for p r st) p slot"
proof -
  note d = node_invD [OF nd]
  have run: "\<not> nd_stopped nd" using d(8) r by auto
  have dep: "\<not> ps_departed (proxy_at st p)" using d(9) run by blast
  have gen: "report_generation r = gs_generation (nd_target nd)" "nd_todo nd = {}" using d(10) [OF r] by simp_all
  have slots: "po_slots ops (nd_pools nd slot) \<le> tgt nd slot" using d(7) [OF run] gen by blast
  have grle: "gr st p slot \<le> occ st p slot" by (rule coord_invD(8) [OF inv dep])
  note occ = report_occ [OF inv known, of r slot]
  have "occ (report_for p r st) p slot \<le> occ st p slot \<and> po_slots ops (nd_pools nd slot) \<le> occ (report_for p r st) p slot
     \<and> po_occupied ops (nd_pools nd slot) \<le> occ (report_for p r st) p slot \<and> tgt nd slot \<le> occ (report_for p r st) p slot"
  proof (cases "bt_get (ps_held (proxy_at st p)) slot")
    case None
    then have "occ st p slot = 0" by (simp add: ProxyState_occupied_def)
    with None occ d(2,3) [of slot] d(6) [OF run, of slot] show ?thesis by simp
  next
    case (Some h)
    show ?thesis
    proof (cases "held_changed_at h \<le> report_generation r")
      case True
      then have "tgt nd slot = gr st p slot" using d(5) [OF Some] gen by simp
      with True Some occ slots grle d(11) [OF r, of slot] d(12) [OF r, of slot] show ?thesis by auto
    next
      case False
      with Some occ have "occ (report_for p r st) p slot = occ st p slot" by (simp add: ProxyState_occupied_def)
      with d(2,3) [of slot] d(6) [OF run, of slot] show ?thesis by simp
    qed
  qed
  then show "occ (report_for p r st) p slot \<le> occ st p slot"
    "po_slots ops (nd_pools nd slot) \<le> occ (report_for p r st) p slot"
    "po_occupied ops (nd_pools nd slot) \<le> occ (report_for p r st) p slot"
    "tgt nd slot \<le> occ (report_for p r st) p slot" by simp_all
qed

lemma node_inv_deliver:
  assumes inv: "coord_inv st" and nd: "node_inv ops ok st p nd" and r: "nd_report nd = Some r"
    and known: "bt_get (st_proxies st) p = Some ps"
  shows "node_inv ops ok (report_for p r st) p (nd\<lparr>nd_report := None\<rparr>)"
proof -
  note d = node_invD [OF nd] and del = report_delivered [OF inv nd r known]
  have run: "\<not> nd_stopped nd" using d(8) r by auto
  have at: "proxy_at st p = ps" by (rule proxy_at_get [OF known])
  have wf: "bt_wf (ps_held ps)" using coord_invD(2) [OF inv] at by (auto simp: proxies_wf_iff)
  have held: "tgt nd slot = gr st p slot"
    if "bt_get (ps_held (proxy_at (report_for p r st) p)) slot = Some h" "held_changed_at h \<le> gs_generation (nd_target nd)"
    for slot h
  proof -
    from that(1) obtain h0 where "bt_get (ps_held ps) slot = Some h0" "held_changed_at h = held_changed_at h0"
      unfolding report_for_held [OF coord_invD(1) [OF inv] known wf]
      by (auto simp: Let_def split: option.splits if_splits)
    with d(5) that(2) at show ?thesis by auto
  qed
  have todo: "nd_todo nd = {}" using d(10) [OF r] by simp
  have dep: "\<not> ps_departed ps" using d(9) run at by blast
  show ?thesis
    unfolding node_inv_def using dep d(1,4) del(2-4) held d(7) [OF run] run todo report_for_proxy(1) [OF known, of r] at
    by simp
qed

lemma report_unknown: "bt_get (st_proxies st) p = None \<Longrightarrow> report_for p r st = st"
  by (simp add: report_for_def Let_def)

lemma pub_inv_report:
  assumes "pub_inv st"
  shows "pub_inv (report_for p r st)"
proof (cases "bt_get (st_proxies st) p")
  case None
  then show ?thesis using assms by (simp add: report_unknown)
next
  case (Some ps)
  have g: "ps_grants (proxy_at (report_for p r st) q) = ps_grants (proxy_at st q)" for q
    using report_other [of q p r st] report_for_proxy(2) [OF Some, of r] proxy_at_get [OF Some] by (cases "q = p") auto
  have "bt_contains (st_proxies (report_for p r st)) q \<longleftrightarrow> bt_contains (st_proxies st) q" for q
    by (subst report_for_eq [OF Some]) (auto simp: Some)
  then show ?thesis using assms unfolding pub_inv_def g report_frame by blast
qed

lemma depart_other:
  "q \<noteq> p \<Longrightarrow> proxy_at (mark_departed p st) q = proxy_at st q"
  by (simp add: mark_departed_def proxy_at_def split: option.splits)

lemma depart_frame [simp]:
  "st_table (mark_departed p st) = st_table st" "st_generation (mark_departed p st) = st_generation st"
  "st_budgets (mark_departed p st) = st_budgets st"
  by (simp_all add: mark_departed_def split: option.splits)

lemma depart_proxy:
  assumes "bt_get (st_proxies st) p = Some ps"
  shows "proxy_at (mark_departed p st) p = ps\<lparr>ps_departed := True, ps_demand := [], ps_held := []\<rparr>"
  using assms by (simp add: mark_departed_def)

lemma pub_inv_depart:
  assumes "pub_inv st"
  shows "pub_inv (mark_departed p st)"
proof (cases "bt_get (st_proxies st) p")
  case None
  then show ?thesis using assms by (simp add: mark_departed_def)
next
  case (Some ps)
  have "ps_grants (proxy_at (mark_departed p st) q) = ps_grants (proxy_at st q)" for q
    using depart_other [of q p st] depart_proxy [OF Some] proxy_at_get [OF Some] by (cases "q = p") auto
  moreover have "bt_contains (st_proxies (mark_departed p st)) q \<longleftrightarrow> bt_contains (st_proxies st) q" for q
    by (auto simp: mark_departed_def Some)
  ultimately show ?thesis using assms unfolding pub_inv_def depart_frame by metis
qed

lemma node_inv_depart:
  assumes nd: "node_inv ops ok st p nd" and "nd_stopped nd" "bt_get (st_proxies st) p = Some ps"
    and "\<And>slot. po_slots ops (nd_pools nd slot) = 0 \<and> po_occupied ops (nd_pools nd slot) = 0"
  shows "node_inv ops ok (mark_departed p st) p nd"
proof -
  note d = node_invD [OF nd]
  show ?thesis
    unfolding node_inv_def using d(1,4,8) assms(2,4) by (simp add: depart_proxy [OF assms(3)])
qed

lemma node_inv_measure:
  assumes nd: "node_inv ops ok st p nd" and run: "\<not> nd_stopped nd" and todo: "nd_todo nd = {}"
    and gen: "report_generation r = gs_generation (nd_target nd)"
    and act: "\<And>slot. actual r slot = po_occupied ops (nd_pools nd slot)"
  shows "node_inv ops ok st p (nd\<lparr>nd_report := Some r\<rparr>)"
proof -
  note d = node_invD [OF nd]
  have "po_occupied ops (nd_pools nd slot) \<le> max (po_slots ops (nd_pools nd slot)) (actual r slot)
      \<and> actual r slot \<le> occ st p slot" for slot
    using d(3) [of slot] by (simp add: act)
  moreover have "\<not> ps_departed (proxy_at st p)" using d(9) run by blast
  ultimately show ?thesis
    unfolding node_inv_def using d(1-7) run todo gen by (simp del: split_paired_All)
qed

lemma node_inv_stop:
  "node_inv ops ok st p nd \<Longrightarrow> node_inv ops ok st p (nd\<lparr>nd_todo := {}, nd_report := None, nd_stopped := True\<rparr>)"
  by (simp add: node_inv_def)

lemma occ_depart_le: "occ (mark_departed p st) q slot \<le> occ st q slot"
proof (cases "q = p")
  case True
  then show ?thesis
    by (cases "bt_get (st_proxies st) p") (simp_all add: depart_proxy ProxyState_occupied_def, simp add: mark_departed_def)
qed (simp add: depart_other)

lemma occupied_total_mono:
  assumes "proxies_wf st" "proxies_wf st'" "\<And>proxy slot. occ st' proxy slot \<le> occ st proxy slot"
  shows "occupied_total st' i \<le> occupied_total st i"
  by (rule occupied_totals [OF assms(1,2), of i]) (simp add: sum_mono assms(3))

locale cluster_of_pools = coordinator alloc + sized_pool ops ok
  for alloc :: allocator and ops :: "'p pool_ops" and ok :: "'p \<Rightarrow> bool"
begin

lemma report_occ_le:
  assumes "cluster_inv ops ok c" "nd_report (cl_nodes c p) = Some r"
  shows "occ (report_for p r (cl_state c)) q slot \<le> occ (cl_state c) q slot"
proof (cases "q = p")
  case True
  show ?thesis
  proof (cases "bt_get (st_proxies (cl_state c)) p")
    case (Some ps)
    then show ?thesis
      using report_delivered(1) [of "cl_state c" ops ok p "cl_nodes c p"] assms True by (auto simp: cluster_inv_def)
  qed (simp add: report_unknown)
qed (simp add: report_other)

lemma cluster_inv_parts:
  assumes "cluster_inv ops ok c"
  shows "coord_inv (cl_state c)" "pub_inv (cl_state c)" "occ (cl_state c) p slot \<le> u32_max"
    "node_inv ops ok (cl_state c) p (cl_nodes c p)"
  using assms unfolding cluster_inv_def by blast+

lemma cluster_inv_deliver:
  assumes inv: "cluster_inv ops ok c" and nd: "nd_report (cl_nodes c p) = Some r"
  shows "cluster_inv ops ok (set_node p ((cl_nodes c p)\<lparr>nd_report := None\<rparr>) (c\<lparr>cl_state := report_for p r (cl_state c)\<rparr>))"
    (is "cluster_inv ops ok ?c'")
proof -
  note c = cluster_inv_parts [OF inv]
  let ?st = "report_for p r (cl_state c)" and ?nd = "(cl_nodes c p)\<lparr>nd_report := None\<rparr>"
  have occ: "occ ?st q slot \<le> u32_max" for q slot
    using report_occ_le [OF inv, of p r q slot] c(3) [of q slot] nd by simp
  have node: "node_inv ops ok ?st q (if q = p then ?nd else cl_nodes c q)" for q
  proof (cases "q = p")
    case True
    show ?thesis
    proof (cases "bt_get (st_proxies (cl_state c)) p")
      case None
      then show ?thesis using True c(4) [of p] by (simp add: report_unknown node_inv_def)
    next
      case (Some ps)
      then show ?thesis using True c(1) c(4) [of p] nd by (simp add: node_inv_deliver)
    qed
  next
    case False
    then show ?thesis using node_inv_frame [OF c(4) [of q], of ?st] by (simp add: report_other)
  qed
  have eq: "cl_state ?c' = ?st" "\<And>q. cl_nodes ?c' q = (if q = p then ?nd else cl_nodes c q)" by simp_all
  show ?thesis
    unfolding cluster_inv_def eq using coord_inv_report [OF c(1)] pub_inv_report [OF c(2)] occ node by blast
qed

lemma cluster_inv_depart:
  assumes inv: "cluster_inv ops ok c" and nd: "nd_stopped (cl_nodes c p)"
    "\<And>slot. po_slots ops (nd_pools (cl_nodes c p) slot) = 0 \<and> po_occupied ops (nd_pools (cl_nodes c p) slot) = 0"
  shows "cluster_inv ops ok (c\<lparr>cl_state := mark_departed p (cl_state c)\<rparr>)"
proof -
  note c = cluster_inv_parts [OF inv]
  let ?st = "mark_departed p (cl_state c)"
  have "node_inv ops ok ?st q (cl_nodes c q)" for q
  proof (cases "q = p \<and> bt_get (st_proxies (cl_state c)) p \<noteq> None")
    case True
    then obtain ps where "q = p" "bt_get (st_proxies (cl_state c)) p = Some ps" by blast
    then show ?thesis using node_inv_depart [OF c(4) [of p]] nd by simp
  next
    case False
    then have "proxy_at ?st q = proxy_at (cl_state c) q"
      by (cases "q = p") (simp_all add: depart_other, simp add: mark_departed_def)
    then show ?thesis using node_inv_frame [OF c(4) [of q], of ?st] by simp
  qed
  moreover have "occ ?st q slot \<le> u32_max" for q slot
    using occ_depart_le [of p "cl_state c" q slot] c(3) [of q slot] by simp
  ultimately show ?thesis
    unfolding cluster_inv_def using coord_inv_mark_departed [OF c(1)] pub_inv_depart [OF c(2)] by simp
qed

lemma cluster_inv_coord:
  assumes inv: "cluster_inv ops ok c" and move: "coord_move alloc release_delay (cl_state c) st"
  shows "cluster_inv ops ok (c\<lparr>cl_state := st\<rparr>)"
proof -
  note c = cluster_inv_parts [OF inv]
  note m = coord_move_keeps [OF move c(1,2)]
  have "occ st p slot \<le> u32_max" for p slot
    using believesD(2) [OF m(3), of p slot] c(3) [of p slot] by simp
  with m node_inv_believes [OF c(4) m(3)] show ?thesis unfolding cluster_inv_def by simp
qed

lemma cluster_inv_measure:
  assumes inv: "cluster_inv ops ok c" and nd: "nd_todo (cl_nodes c p) = {}" "nd_report (cl_nodes c p) = None"
    "\<not> nd_stopped (cl_nodes c p)" "report_generation r = gs_generation (nd_target (cl_nodes c p))"
    "\<And>slot. actual r slot = clamp32 (po_occupied ops (nd_pools (cl_nodes c p) slot))"
  shows "node_inv ops ok (cl_state c) p ((cl_nodes c p)\<lparr>nd_report := Some r\<rparr>)"
proof -
  note c = cluster_inv_parts [OF inv]
  have "actual r slot = po_occupied ops (nd_pools (cl_nodes c p) slot)" for slot
    using nd(5) [of slot] node_invD(3) [OF c(4) [of p], of slot] c(3) [of p slot] by (simp add: clamp32_id)
  then show ?thesis using nd c(4) by (intro node_inv_measure) simp_all
qed

lemma cluster_inv_step:
  assumes inv: "cluster_inv ops ok c" and st: "cluster_step ops alloc release_delay c c'"
  shows "cluster_inv ops ok c'"
proof -
  note c = cluster_inv_parts [OF inv] and at_node = cluster_inv_node [OF inv]
  from st show ?thesis
  proof cases
    case (cl_coord st)
    then show ?thesis by (simp add: cluster_inv_coord [OF inv])
  next
    case (cl_take nd p snapshot)
    then show ?thesis using c by (simp add: at_node node_inv_take)
  next
    case (cl_resize nd p slot pool)
    then show ?thesis using c(4) by (simp add: at_node node_inv_resize)
  next
    case (cl_measure nd p r)
    then show ?thesis by (simp add: at_node cluster_inv_measure [OF inv])
  next
    case (cl_deliver nd p r)
    then show ?thesis using cluster_inv_deliver [OF inv] by simp
  next
    case (cl_pool nd p slot pool)
    then show ?thesis using c(4) by (simp add: at_node node_inv_pool)
  next
    case (cl_stop nd p)
    then show ?thesis using c(4) by (simp add: at_node node_inv_stop)
  next
    case (cl_drain nd p slot pool)
    then show ?thesis using c(4) by (simp add: at_node node_inv_drain)
  next
    case (cl_depart nd p)
    then show ?thesis using cluster_inv_depart [OF inv] by simp
  qed
qed

lemma cluster_inv_start: "cluster_inv ops ok (cluster_start ops proxy)"
proof -
  let ?st = "InProcessCoordinator_new proxy"
  have new: "proxy_at ?st p = ProxyState_new" for p
    by (simp add: InProcessCoordinator_new_def State_default_def proxy_at_def bt_get_or_def bt_get_Cons)
  have "published (st_table ?st) p = []" for p
    by (simp add: InProcessCoordinator_new_def State_default_def AllocationTable_new_def published_def
        AllocationTable_grants_for_def bt_collect_def)
  then have "pub_inv ?st" by (simp add: pub_inv_def new ProxyState_new_def GrantSet_default_def)
  then show ?thesis
    using fresh coord_inv_new [of proxy]
    by (simp add: cluster_inv_def cluster_start_def node_inv_def new ProxyState_new_def ProxyState_occupied_def
        GrantSet_default_def GrantSet_get_def)
qed

lemma cluster_reachable_inv: "cluster_reachable ops alloc release_delay c \<Longrightarrow> cluster_inv ops ok c"
  by (rule cluster.invariant [of ops alloc release_delay]) (auto intro: cluster_inv_start cluster_inv_step)

text \<open>All that the proxies have on an instance is at most what the coordinator counts.\<close>

lemma connections_counted:
  assumes "cluster_inv ops ok c" "finite P" "finite T"
  shows "(\<Sum>p \<in> P. \<Sum>t \<in> T. po_occupied ops (nd_pools (cl_nodes c p) (i, t))) \<le> occupied_total (cl_state c) i"
proof -
  let ?st = "cl_state c"
  let ?P = "P \<union> fst ` set (st_proxies ?st)" and ?T = "T \<union> held_tenants ?st"
  have wf: "proxies_wf ?st" using assms(1) coord_invD(2) by (auto simp: cluster_inv_def)
  have "(\<Sum>p \<in> P. \<Sum>t \<in> T. po_occupied ops (nd_pools (cl_nodes c p) (i, t))) \<le> (\<Sum>p \<in> P. \<Sum>t \<in> T. occ ?st p (i, t))"
    using assms(1) by (intro sum_mono) (auto simp: cluster_inv_def dest: node_invD(3))
  also have "\<dots> \<le> (\<Sum>p \<in> P. \<Sum>t \<in> ?T. occ ?st p (i, t))"
    using assms(3) by (intro sum_mono sum_mono2) auto
  also have "\<dots> \<le> (\<Sum>p \<in> ?P. \<Sum>t \<in> ?T. occ ?st p (i, t))"
    using assms(2) by (intro sum_mono2) auto
  also have "\<dots> = occupied_total ?st i"
    using assms(2,3) by (intro occupied_total_sum [OF wf, symmetric]) auto
  finally show ?thesis .
qed

lemma total_step:
  assumes inv: "cluster_inv ops ok c" and st: "cluster_step ops alloc release_delay c c'"
    and "budget_total (cl_state c') i = Some b" "occupied_total (cl_state c) i \<le> b"
  shows "occupied_total (cl_state c') i \<le> b"
proof -
  have inv': "cluster_inv ops ok c'" using inv st by (rule cluster_inv_step)
  have wf: "proxies_wf (cl_state c)" "proxies_wf (cl_state c')"
    using inv inv' coord_invD(2) by (auto simp: cluster_inv_def)
  from st show ?thesis
  proof cases
    case (cl_coord st)
    then have "believes (cl_state c) st" using coord_move_keeps(3) inv by (auto simp: cluster_inv_def)
    from believesD(6) [OF this, of i] assms(3,4) cl_coord(1) show ?thesis by simp
  next
    case (cl_deliver nd p r)
    then have "occ (cl_state c') q slot \<le> occ (cl_state c) q slot" for q slot
      using report_occ_le [OF inv, of p r q slot] by simp
    from occupied_total_mono [OF wf this, of i] assms(4) show ?thesis by simp
  next
    case (cl_depart nd p)
    then have "occ (cl_state c') q slot \<le> occ (cl_state c) q slot" for q slot
      by (simp add: occ_depart_le)
    from occupied_total_mono [OF wf this, of i] assms(4) show ?thesis by simp
  qed (use assms(4) in simp_all)
qed

end

section \<open>The pools of the proxies\<close>

text \<open>
  The pool of \<open>Pool\<close> implements the interface. Its own steps are those that leave the slots alone;
  it is resized by the retiring a convergence starts with.
\<close>

definition proxy_pool_ops :: "'c pool_sys pool_ops" where
  "proxy_pool_ops =
     \<lparr>po_slots = (\<lambda>s. pl_slots (sys_pool s)), po_occupied = (\<lambda>s. Pool_occupied (sys_pool s)),
      po_step = (\<lambda>s s'. pool_step s s' \<and> pl_slots (sys_pool s') = pl_slots (sys_pool s)),
      po_resize = (\<lambda>n s s'. \<exists>p out. retire n (sys_pool s) = (p, out)
        \<and> s' = s\<lparr>sys_pool := p, sys_batches := add_mset out (sys_batches s)\<rparr>),
      po_fresh = pool_start 0\<rparr>"

lemma pool_step_bound:
  assumes inv: "pool_inv s" and step: "pool_step s s'"
  shows "Pool_occupied (sys_pool s') \<le> max (pl_slots (sys_pool s')) (Pool_occupied (sys_pool s))"
  using step inv by (rule pool_occupied_step)

interpretation proxy_pool: sized_pool proxy_pool_ops pool_inv
proof
  fix x y :: "'c pool_sys" and n
  show "pool_inv (po_fresh (proxy_pool_ops :: 'c pool_sys pool_ops))"
    "po_slots proxy_pool_ops (po_fresh (proxy_pool_ops :: 'c pool_sys pool_ops)) = 0"
    "po_occupied proxy_pool_ops (po_fresh (proxy_pool_ops :: 'c pool_sys pool_ops)) = 0"
    by (simp_all add: proxy_pool_ops_def pool_inv_start)
      (simp_all add: pool_start_def Pool_new_def Pool_occupied_def)
  show "pool_inv y \<and> po_slots proxy_pool_ops y = po_slots proxy_pool_ops x
      \<and> po_occupied proxy_pool_ops y \<le> max (po_slots proxy_pool_ops x) (po_occupied proxy_pool_ops x)"
    if "pool_inv x" "po_step proxy_pool_ops x y"
    using that pool_inv_step [of x y] pool_step_bound [of x y] by (simp add: proxy_pool_ops_def)
  show "pool_inv y \<and> po_slots proxy_pool_ops y = n \<and> po_occupied proxy_pool_ops y \<le> po_occupied proxy_pool_ops x"
    if inv: "pool_inv x" and r: "po_resize proxy_pool_ops n x y"
  proof -
    from r obtain p out where run: "retire n (sys_pool x) = (p, out)"
      and y: "y = x\<lparr>sys_pool := p, sys_batches := add_mset out (sys_batches x)\<rparr>"
      by (auto simp: proxy_pool_ops_def)
    have "pool_inv y" unfolding y using inv converging [OF run] by (rule pool_inv_step)
    moreover from run obtain i k where "pl_idle (sys_pool x) = i @ k"
      "p = (sys_pool x)\<lparr>pl_slots := n, pl_retiring := [], pl_idle := i, pl_closing := pl_closing (sys_pool x) + length k\<rparr>"
      by (rule retire_spec)
    ultimately show ?thesis by (simp add: proxy_pool_ops_def y Pool_occupied_def)
  qed
qed

interpretation pg: cluster_of_pools "allocate quantum" proxy_pool_ops pool_inv for quantum
  by unfold_locales

section \<open>Properties\<close>

text \<open>
  C2: The coordinator's bookkeeping bounds reality. In every reachable state of the coordinator and its
  proxies, however their steps interleave, all connections the proxies' pools have on an instance,
  counting those still opening or closing, are at most what the coordinator counts as occupied there.
\<close>

theorem connections_never_uncounted:
  fixes c :: "'c pool_sys cluster"
  assumes "cluster_reachable proxy_pool_ops (allocate quantum) release_delay c" "finite P" "finite T"
  shows "(\<Sum>p \<in> P. \<Sum>t \<in> T. Pool_occupied (sys_pool (nd_pools (cl_nodes c p) (i, t)))) \<le> occupied_total (cl_state c) i"
  using pg.connections_counted [OF pg.cluster_reachable_inv [OF assms(1)] assms(2,3), of i]
  by (simp add: proxy_pool_ops_def)

theorem connections_never_uncounted_witness:
  "(\<Sum>p \<in> {ProxyId ''p''}. \<Sum>t \<in> {TenantId ''u'' ''d''}.
      Pool_occupied (sys_pool (nd_pools (cl_nodes (cluster_start (proxy_pool_ops :: nat pool_sys pool_ops) (ProxyId ''p'')) p)
        (InstanceId ''db'', t))))
     \<le> occupied_total (cl_state (cluster_start (proxy_pool_ops :: nat pool_sys pool_ops) (ProxyId ''p''))) (InstanceId ''db'')"
  by (rule connections_never_uncounted [where quantum = 1 and release_delay = 30, OF cluster_init]) simp_all

text \<open>
  C1: The budget is kept. From a reachable state in which what is counted on an instance fits a budget,
  through any run of coordinator and proxies during which that is the instance's budget, the connections
  of all proxies on the instance together never exceed it.
\<close>

theorem budget_never_exceeded:
  fixes c c' :: "'c pool_sys cluster"
  assumes "cluster_reachable proxy_pool_ops (allocate quantum) release_delay c"
    and "occupied_total (cl_state c) i \<le> b"
    and "(\<lambda>c c'. cluster_step proxy_pool_ops (allocate quantum) release_delay c c'
            \<and> budget_total (cl_state c') i = Some b)\<^sup>*\<^sup>* c c'"
    and "finite P" "finite T"
  shows "(\<Sum>p \<in> P. \<Sum>t \<in> T. Pool_occupied (sys_pool (nd_pools (cl_nodes c' p) (i, t)))) \<le> b"
proof -
  have "cluster_inv proxy_pool_ops pool_inv c' \<and> occupied_total (cl_state c') i \<le> b"
    using assms(3)
  proof (induction rule: rtranclp_induct)
    case base
    then show ?case using pg.cluster_reachable_inv [OF assms(1)] assms(2) by simp
  next
    case (step d d')
    then show ?case using pg.cluster_inv_step pg.total_step by blast
  qed
  with pg.connections_counted [OF _ assms(4,5), of c' i] show ?thesis
    by (auto simp: proxy_pool_ops_def intro: order_trans)
qed

theorem budget_never_exceeded_witness:
  "let c = cluster_start (proxy_pool_ops :: nat pool_sys pool_ops) (ProxyId ''p'') in
   (\<Sum>p \<in> {ProxyId ''p''}. \<Sum>t \<in> {TenantId ''u'' ''d''}.
      Pool_occupied (sys_pool (nd_pools (cl_nodes (c\<lparr>cl_state := add_instance (InstanceId ''db'')
        (InstanceBudget_new demo_limits 1 60) (cl_state c)\<rparr>) p) (InstanceId ''db'', t)))) \<le> 6"
proof -
  let ?c = "cluster_start (proxy_pool_ops :: nat pool_sys pool_ops) (ProxyId ''p'')"
  let ?c' = "?c\<lparr>cl_state := add_instance (InstanceId ''db'') (InstanceBudget_new demo_limits 1 60) (cl_state ?c)\<rparr>"
  have bound: "tb_total (ib_budget (InstanceBudget_new demo_limits 1 60)) \<le> u32_max"
    by (simp add: InstanceBudget_new_def Let_def derive_total_bound)
  have step: "cluster_step proxy_pool_ops (allocate 1) 30 ?c ?c'"
    by (intro cl_coord move_add_instance bound)
  have "budget_total (add_instance (InstanceId ''db'') (InstanceBudget_new demo_limits 1 60)
      (InProcessCoordinator_new (ProxyId ''p''))) (InstanceId ''db'') = Some 6" by code_simp
  then have b: "budget_total (cl_state ?c') (InstanceId ''db'') = Some 6" by (simp add: cluster_start_def)
  have "occupied_total (InProcessCoordinator_new (ProxyId ''p'')) (InstanceId ''db'') \<le> 6" by code_simp
  then have z: "occupied_total (cl_state ?c) (InstanceId ''db'') \<le> 6" by (simp add: cluster_start_def)
  show ?thesis
    unfolding Let_def
    by (rule budget_never_exceeded [where quantum = 1 and release_delay = 30, OF cluster_init z r_into_rtranclp])
      (simp_all add: step [simplified] b [simplified])
qed

end
