(* ===== verification/Bytes.thy ===== *)
theory Bytes
  imports Prelude
begin

text \<open>
  Bytes and the parts of the Rust standard library and of the \<open>bytes\<close> buffers the protocol
  code works with. A byte is a \<open>char\<close> (eight bits), a slice or buffer is a list of bytes, and a
  \<open>&str\<close> is the list of its UTF-8 bytes; \<open>put_u8\<close>, \<open>put_slice\<close> and \<open>extend_from_slice\<close> are
  appending. Fixed-width integers travel in big-endian order; an \<open>i32\<close> is an \<open>int\<close> within its
  bounds. The theory also holds \<open>from_utf8\<close>, the search for a terminating zero byte, the ASCII
  classes of \<open>u8\<close>, decimal parsing and comparison up to ASCII case.
\<close>

named_theorems codec_simps \<open>decoders applied to encoded bytes\<close>

type_synonym byte = char
type_synonym bytes = "byte list"

abbreviation NUL :: byte where
  "NUL \<equiv> CHR 0x00"

section \<open>Big-endian integers\<close>

fun be_bytes :: "nat \<Rightarrow> nat \<Rightarrow> bytes" where
  "be_bytes 0 n = []"
| "be_bytes (Suc k) n = be_bytes k (n div 256) @ [char_of n]"

definition from_be :: "bytes \<Rightarrow> nat" where
  "from_be bs = foldl (\<lambda>acc b. acc * 256 + of_char b) 0 bs"

definition i32_min :: int where
  "i32_min = - 2147483648"

definition i32_max :: int where
  "i32_max = 2147483647"

definition is_i32 :: "int \<Rightarrow> bool" where
  "is_i32 i \<longleftrightarrow> i32_min \<le> i \<and> i \<le> i32_max"

definition put_i32 :: "int \<Rightarrow> bytes" where
  "put_i32 i = be_bytes 4 (nat (i mod 4294967296))"

definition i32_of_bits :: "nat \<Rightarrow> int" where
  "i32_of_bits n = (if n < 2147483648 then int n else int n - 4294967296)"

definition i32_from_be_bytes :: "bytes \<Rightarrow> int" where
  "i32_from_be_bytes bs = i32_of_bits (from_be bs)"

definition put_i16 :: "int \<Rightarrow> bytes" where
  "put_i16 i = be_bytes 2 (nat (i mod 65536))"

definition put_u32 :: "nat \<Rightarrow> bytes" where
  "put_u32 n = be_bytes 4 n"

lemma length_be_bytes [simp]: "length (be_bytes k n) = k"
  by (induction k arbitrary: n) auto

lemma from_be_snoc [simp]: "from_be (bs @ [b]) = from_be bs * 256 + of_char b"
  by (simp add: from_be_def)

lemma from_be_append: "from_be (xs @ ys) = from_be xs * 256 ^ length ys + from_be ys"
proof (induction ys rule: rev_induct)
  case (snoc y ys)
  have "from_be ((xs @ ys) @ [y]) = from_be (xs @ ys) * 256 + of_char y" by (rule from_be_snoc)
  with snoc show ?case by (simp add: algebra_simps)
qed (simp add: from_be_def)

lemma from_be_Nil [simp]: "from_be [] = 0"
  by (simp add: from_be_def)

lemma from_be_bytes: "from_be (be_bytes k n) = n mod 256 ^ k"
proof (induction k arbitrary: n)
  case (Suc k)
  have "n mod 256 ^ Suc k = 256 * (n div 256 mod 256 ^ k) + n mod 256"
    by (simp add: mod_mult2_eq)
  with Suc show ?case by simp
qed simp

lemma be_bytes_from_be: "be_bytes (length bs) (from_be bs) = bs"
proof (induction bs rule: rev_induct)
  case (snoc b bs)
  have "char_of (from_be bs * 256 + of_char b) = b"
    by (metis char_of_char char_of_mod_256 mod_mult_self3)
  with snoc show ?case by simp
qed simp

lemma from_be_bound: "from_be bs < 256 ^ length bs"
  using from_be_bytes [of "length bs" "from_be bs"] unfolding be_bytes_from_be
  by (metis mod_less_divisor zero_less_numeral zero_less_power)

lemma length_put_i32 [simp]: "length (put_i32 i) = 4"
  by (simp add: put_i32_def)

lemma length_put_i16 [simp]: "length (put_i16 i) = 2"
  by (simp add: put_i16_def)

lemma i32_from_put [codec_simps]:
  assumes "is_i32 i"
  shows "i32_from_be_bytes (put_i32 i) = i"
proof (cases "0 \<le> i")
  case True
  with assms have "i mod 4294967296 = i" by (simp add: is_i32_def i32_max_def)
  moreover have "nat i < 2147483648" using assms unfolding is_i32_def i32_max_def by linarith
  ultimately show ?thesis
    using True by (simp add: i32_from_be_bytes_def put_i32_def from_be_bytes i32_of_bits_def)
next
  case False
  with assms have "(i + 4294967296) mod 4294967296 = i + 4294967296"
    unfolding is_i32_def i32_min_def by (intro mod_pos_pos_trivial) simp_all
  then have "i mod 4294967296 = i + 4294967296" by simp
  moreover have "\<not> nat (i + 4294967296) < 2147483648" "nat (i + 4294967296) < 4294967296"
    using False assms unfolding is_i32_def i32_min_def by linarith+
  ultimately show ?thesis
    using assms by (simp add: i32_from_be_bytes_def put_i32_def from_be_bytes i32_of_bits_def is_i32_def i32_min_def)
qed

lemma put_from_i32:
  assumes "length bs = 4"
  shows "put_i32 (i32_from_be_bytes bs) = bs"
proof -
  have "from_be bs < 4294967296" using from_be_bound [of bs] assms by simp
  then have "nat (i32_from_be_bytes bs mod 4294967296) = from_be bs"
    by (auto simp: i32_from_be_bytes_def i32_of_bits_def)
  with be_bytes_from_be [of bs] assms show ?thesis by (simp add: put_i32_def)
qed

lemma i32_from_be_bytes_range: "length bs = 4 \<Longrightarrow> is_i32 (i32_from_be_bytes bs)"
  using from_be_bound [of bs]
  by (auto simp: i32_from_be_bytes_def i32_of_bits_def is_i32_def i32_min_def i32_max_def)

section \<open>Zero-terminated strings\<close>

text \<open>\<open>split_nul\<close> is the search for the first zero byte with the slices before and after it.\<close>

fun split_nul :: "bytes \<Rightarrow> (bytes \<times> bytes) option" where
  "split_nul [] = None"
| "split_nul (b # bs) =
     (if b = NUL then Some ([], bs)
      else case split_nul bs of None \<Rightarrow> None | Some (s, rest) \<Rightarrow> Some (b # s, rest))"

lemma split_nul_append [codec_simps]: "NUL \<notin> set s \<Longrightarrow> split_nul (s @ NUL # rest) = Some (s, rest)"
  by (induction s) auto

lemma split_nul_Some: "split_nul bs = Some (s, rest) \<longleftrightarrow> bs = s @ NUL # rest \<and> NUL \<notin> set s"
proof
  show "split_nul bs = Some (s, rest) \<Longrightarrow> bs = s @ NUL # rest \<and> NUL \<notin> set s"
    by (induction bs arbitrary: s rest) (auto split: if_splits option.splits)
qed (auto simp: split_nul_append)

lemma split_nul_None: "split_nul bs = None \<longleftrightarrow> NUL \<notin> set bs"
  by (induction bs) (auto split: option.splits)

lemma split_nul_length: "split_nul bs = Some (s, rest) \<Longrightarrow> length rest < length bs"
  by (auto simp: split_nul_Some)

section \<open>UTF-8\<close>

text \<open>
  The well-formed byte sequences \<open>std::str::from_utf8\<close> accepts: no overlong forms, no
  surrogates, nothing above \<open>U+10FFFF\<close>.
\<close>

abbreviation code_of :: "byte \<Rightarrow> nat" where
  "code_of b \<equiv> of_char b"

definition in_range :: "nat \<Rightarrow> nat \<Rightarrow> byte \<Rightarrow> bool" where
  "in_range lo hi b \<longleftrightarrow> lo \<le> code_of b \<and> code_of b \<le> hi"

abbreviation is_tail :: "byte \<Rightarrow> bool" where
  "is_tail b \<equiv> in_range 0x80 0xBF b"

definition utf8_three :: "byte \<Rightarrow> byte \<Rightarrow> byte \<Rightarrow> bool" where
  "utf8_three a b c \<longleftrightarrow> is_tail c \<and>
     (code_of a = 0xE0 \<and> in_range 0xA0 0xBF b
      \<or> (in_range 0xE1 0xEC a \<or> in_range 0xEE 0xEF a) \<and> is_tail b
      \<or> code_of a = 0xED \<and> in_range 0x80 0x9F b)"

definition utf8_four :: "byte \<Rightarrow> byte \<Rightarrow> byte \<Rightarrow> byte \<Rightarrow> bool" where
  "utf8_four a b c d \<longleftrightarrow> is_tail c \<and> is_tail d \<and>
     (code_of a = 0xF0 \<and> in_range 0x90 0xBF b
      \<or> in_range 0xF1 0xF3 a \<and> is_tail b
      \<or> code_of a = 0xF4 \<and> in_range 0x80 0x8F b)"

text \<open>\<open>utf8_rest a bs\<close> is what is left after the character that starts with the byte \<open>a\<close>.\<close>

definition utf8_rest :: "byte \<Rightarrow> bytes \<Rightarrow> bytes option" where
  "utf8_rest a bs =
     (if code_of a < 0x80 then Some bs
      else case bs of
        [] \<Rightarrow> None
      | b # cs \<Rightarrow>
          if in_range 0xC2 0xDF a then (if is_tail b then Some cs else None)
          else case cs of
            [] \<Rightarrow> None
          | c # ds \<Rightarrow>
              if in_range 0xE0 0xEF a then (if utf8_three a b c then Some ds else None)
              else case ds of
                [] \<Rightarrow> None
              | d # es \<Rightarrow> if utf8_four a b c d then Some es else None)"

lemma utf8_rest_shorter: "utf8_rest a bs = Some rest \<Longrightarrow> length rest \<le> length bs"
  by (auto simp: utf8_rest_def split: if_splits list.splits)

lemma utf8_rest_append: "utf8_rest a bs = Some rest \<Longrightarrow> utf8_rest a (bs @ t) = Some (rest @ t)"
  by (auto simp: utf8_rest_def split: if_splits list.splits)

function valid_utf8 :: "bytes \<Rightarrow> bool" where
  "valid_utf8 [] \<longleftrightarrow> True"
| "valid_utf8 (a # bs) \<longleftrightarrow> (case utf8_rest a bs of None \<Rightarrow> False | Some rest \<Rightarrow> valid_utf8 rest)"
  by pat_completeness auto
termination by (relation "measure length") (auto dest: utf8_rest_shorter)

lemma valid_utf8_ascii: "(\<And>b. b \<in> set s \<Longrightarrow> code_of b < 0x80) \<Longrightarrow> valid_utf8 s"
  by (induction s) (auto simp: utf8_rest_def)

lemma valid_utf8_append: "valid_utf8 s \<Longrightarrow> valid_utf8 t \<Longrightarrow> valid_utf8 (s @ t)"
proof (induction s rule: valid_utf8.induct)
  case (2 a bs)
  then obtain rest where rest: "utf8_rest a bs = Some rest" "valid_utf8 rest" by (auto split: option.splits)
  with 2 utf8_rest_append [OF rest(1), of t] show ?case by simp
qed simp

section \<open>ASCII\<close>

definition is_ascii_digit :: "byte \<Rightarrow> bool" where
  "is_ascii_digit b \<longleftrightarrow> in_range 0x30 0x39 b"

definition is_ascii_alphabetic :: "byte \<Rightarrow> bool" where
  "is_ascii_alphabetic b \<longleftrightarrow> in_range 0x41 0x5A b \<or> in_range 0x61 0x7A b"

definition is_ascii_alphanumeric :: "byte \<Rightarrow> bool" where
  "is_ascii_alphanumeric b \<longleftrightarrow> is_ascii_digit b \<or> is_ascii_alphabetic b"

text \<open>\<open>u8::is_ascii_whitespace\<close>: space, tab, line feed, form feed and carriage return.\<close>

definition is_ascii_whitespace :: "byte \<Rightarrow> bool" where
  "is_ascii_whitespace b \<longleftrightarrow> code_of b \<in> {0x20, 0x09, 0x0A, 0x0C, 0x0D}"

definition to_ascii_lowercase :: "byte \<Rightarrow> byte" where
  "to_ascii_lowercase b = (if in_range 0x41 0x5A b then char_of (code_of b + 0x20) else b)"

definition eq_ignore_ascii_case :: "bytes \<Rightarrow> bytes \<Rightarrow> bool" where
  "eq_ignore_ascii_case s t \<longleftrightarrow> map to_ascii_lowercase s = map to_ascii_lowercase t"

lemma eq_ignore_ascii_case_refl [simp]: "eq_ignore_ascii_case s s"
  by (simp add: eq_ignore_ascii_case_def)

subsection \<open>Decimal numbers\<close>

definition digit :: "nat \<Rightarrow> byte" where
  "digit d = char_of (0x30 + d)"

function decimal :: "nat \<Rightarrow> bytes" where
  "decimal n = (if n < 10 then [digit n] else decimal (n div 10) @ [digit (n mod 10)])"
  by pat_completeness auto
termination by (relation "measure id") auto

declare decimal.simps [simp del]

definition digits_value :: "bytes \<Rightarrow> nat" where
  "digits_value ds = foldl (\<lambda>acc d. acc * 10 + (code_of d - 0x30)) 0 ds"

text \<open>
  \<open>str::parse::<u32>\<close>: an optional plus sign, then at least one digit and nothing else, within
  the bounds of the type.
\<close>

definition parse_u32 :: "bytes \<Rightarrow> nat option" where
  "parse_u32 s =
     (let ds = (case s of c # rest \<Rightarrow> if c = CHR ''+'' then rest else s | [] \<Rightarrow> s) in
      if ds \<noteq> [] \<and> list_all is_ascii_digit ds \<and> digits_value ds \<le> u32_max
      then Some (digits_value ds) else None)"

lemma digit_code [simp]: "d < 10 \<Longrightarrow> code_of (digit d) = 0x30 + d"
  by (simp add: digit_def)

lemma digit_is_digit: "d < 10 \<Longrightarrow> is_ascii_digit (digit d)"
  by (simp add: is_ascii_digit_def in_range_def)

lemma digits_value_snoc [simp]: "digits_value (ds @ [d]) = digits_value ds * 10 + (code_of d - 0x30)"
  by (simp add: digits_value_def)

lemma digits_value_decimal [simp]: "digits_value (decimal n) = n"
proof (induction n rule: decimal.induct)
  case (1 n)
  show ?case
  proof (cases "n < 10")
    case True
    then show ?thesis by (simp add: decimal.simps [of n] digits_value_def)
  next
    case False
    with 1 show ?thesis by (simp add: decimal.simps [of n])
  qed
qed

lemma decimal_digits: "list_all is_ascii_digit (decimal n)"
proof (induction n rule: decimal.induct)
  case (1 n)
  then show ?case by (cases "n < 10") (simp_all add: decimal.simps [of n] digit_is_digit)
qed

lemma decimal_not_Nil [simp]: "decimal n \<noteq> []"
  by (simp add: decimal.simps [of n])

lemma decimal_all_digits: "b \<in> set (decimal n) \<Longrightarrow> is_ascii_digit b"
  using decimal_digits [of n] by (simp add: list_all_iff)

lemma plus_not_digit: "\<not> is_ascii_digit CHR ''+''"
  by (simp add: is_ascii_digit_def in_range_def)

lemma parse_u32_decimal [codec_simps]: "n \<le> u32_max \<Longrightarrow> parse_u32 (decimal n) = Some n"
proof -
  assume n: "n \<le> u32_max"
  have strip: "(case decimal n of c # rest \<Rightarrow> if c = CHR ''+'' then rest else decimal n | [] \<Rightarrow> decimal n) = decimal n"
    using decimal_all_digits [of _ n] plus_not_digit by (auto split: list.split)
  show ?thesis
    unfolding parse_u32_def strip Let_def using n by (simp add: decimal_digits)
qed

lemma parse_u32_bound: "parse_u32 s = Some n \<Longrightarrow> n \<le> u32_max"
  by (auto simp: parse_u32_def Let_def split: if_splits)

end
