(* ===== verification/Framing.thy ===== *)
theory Framing
  imports Bytes "HOL-Library.Sublist"
begin

text \<open>
  Message frames of the PostgreSQL protocol (\<open>crates/protocol/src/framing.rs\<close>). A decoder takes
  the bytes received so far and answers an error, or a message with the bytes left after it, or
  that more bytes are needed, in which case the buffer is left as it was. \<open>length_field\<close> panics
  on a body that does not fit an \<open>i32\<close>, so an encoder is an option.

  The locale \<open>framing\<close> is the contract between an encoder and a decoder. Inside it stands the
  property the relay and the session rely on: however the bytes of a sequence of messages are
  cut into reads, the reader gets exactly those messages in order.
\<close>

definition MAX_MESSAGE :: nat where
  "MAX_MESSAGE = 2 ^ 30"

definition HEADER_LEN :: nat where
  "HEADER_LEN = 5"

definition LENGTH_FIELD_LEN :: nat where
  "LENGTH_FIELD_LEN = 4"

definition STARTUP_CODE_LEN :: nat where
  "STARTUP_CODE_LEN = 4"

lemmas framing_consts = HEADER_LEN_def LENGTH_FIELD_LEN_def STARTUP_CODE_LEN_def

record Frame =
  tag :: byte
  body :: bytes

datatype FrameError = InvalidLength int | TooLarge nat nat

definition length_field :: "nat \<Rightarrow> int option" where
  "length_field body_len =
     (let n = int (body_len + LENGTH_FIELD_LEN) in if n \<le> i32_max then Some n else None)"

definition body_len_from_header :: "bytes \<Rightarrow> nat \<Rightarrow> nat \<Rightarrow> FrameError + nat" where
  "body_len_from_header length_bytes min_len max_len =
     (let len = i32_from_be_bytes length_bytes in
      if len < 0 then Inl (InvalidLength len)
      else if nat len < min_len then Inl (InvalidLength len)
      else if nat len > max_len then Inl (TooLarge (nat len) max_len)
      else Inr (nat len - LENGTH_FIELD_LEN))"

definition encode_frame :: "byte \<Rightarrow> bytes \<Rightarrow> bytes option" where
  "encode_frame t b =
     (case length_field (length b) of None \<Rightarrow> None | Some n \<Rightarrow> Some (t # put_i32 n @ b))"

definition decode_frame :: "bytes \<Rightarrow> nat \<Rightarrow> FrameError + (Frame option \<times> bytes)" where
  "decode_frame buf max_len =
     (if length buf < HEADER_LEN then Inr (None, buf)
      else case body_len_from_header (take 4 (drop 1 buf)) LENGTH_FIELD_LEN max_len of
        Inl e \<Rightarrow> Inl e
      | Inr body_len \<Rightarrow>
          if length buf < HEADER_LEN + body_len then Inr (None, buf)
          else (let rest = drop HEADER_LEN buf in
            Inr (Some \<lparr>tag = buf ! 0, body = take body_len rest\<rparr>, drop body_len rest)))"

definition encode_startup_frame :: "bytes \<Rightarrow> bytes option" where
  "encode_startup_frame b =
     (case length_field (length b) of None \<Rightarrow> None | Some n \<Rightarrow> Some (put_i32 n @ b))"

definition decode_startup_frame :: "bytes \<Rightarrow> nat \<Rightarrow> FrameError + (bytes option \<times> bytes)" where
  "decode_startup_frame buf max_len =
     (if length buf < LENGTH_FIELD_LEN then Inr (None, buf)
      else case body_len_from_header (take LENGTH_FIELD_LEN buf) (LENGTH_FIELD_LEN + STARTUP_CODE_LEN) max_len of
        Inl e \<Rightarrow> Inl e
      | Inr body_len \<Rightarrow>
          if length buf < LENGTH_FIELD_LEN + body_len then Inr (None, buf)
          else (let rest = drop LENGTH_FIELD_LEN buf in
            Inr (Some (take body_len rest), drop body_len rest)))"

section \<open>The contract of a framing\<close>

text \<open>
  \<open>encode m = Some bs\<close> means the message can be written. A decoder recognises a written message
  in front of any bytes, waits on a proper prefix of one, and never takes bytes without
  delivering a message.
\<close>

locale framing =
  fixes encode :: "'m \<Rightarrow> bytes option"
    and decode :: "bytes \<Rightarrow> FrameError + ('m option \<times> bytes)"
  assumes decode_encoded: "encode m = Some bs \<Longrightarrow> decode (bs @ rest) = Inr (Some m, rest)"
    and decode_prefix: "encode m = Some bs \<Longrightarrow> strict_prefix p bs \<Longrightarrow> decode p = Inr (None, p)"
    and decode_empty: "decode [] = Inr (None, [])"
    and decode_written: "decode buf = Inr (Some m, rest) \<Longrightarrow> \<exists>bs. encode m = Some bs \<and> buf = bs @ rest"
begin

lemma encode_nonempty: "encode m = Some bs \<Longrightarrow> bs \<noteq> []"
  using decode_encoded [of m bs "[]"] decode_empty by auto

lemma decode_smaller: "decode buf = Inr (Some m, rest) \<Longrightarrow> length rest < length buf"
  using decode_written encode_nonempty by fastforce

end

text \<open>
  \<open>decode_all\<close> is the loop every reader of the program has: take messages off the buffer until
  none is whole. The measure of the loop is the length of the buffer, which \<open>decode_smaller\<close>
  shows to decrease; \<open>Suc (length buf)\<close> rounds are therefore enough (\<open>decode_all_enough\<close>).
\<close>

fun decode_rounds :: "(bytes \<Rightarrow> FrameError + ('m option \<times> bytes)) \<Rightarrow> nat \<Rightarrow> bytes \<Rightarrow> FrameError + ('m list \<times> bytes)" where
  "decode_rounds decode 0 buf = Inr ([], buf)"
| "decode_rounds decode (Suc n) buf =
     (case decode buf of
        Inl e \<Rightarrow> Inl e
      | Inr (None, buf') \<Rightarrow> Inr ([], buf')
      | Inr (Some m, buf') \<Rightarrow>
          (case decode_rounds decode n buf' of Inl e \<Rightarrow> Inl e | Inr (ms, rest) \<Rightarrow> Inr (m # ms, rest)))"

definition decode_all :: "(bytes \<Rightarrow> FrameError + ('m option \<times> bytes)) \<Rightarrow> bytes \<Rightarrow> FrameError + ('m list \<times> bytes)" where
  "decode_all decode buf = decode_rounds decode (Suc (length buf)) buf"

text \<open>A reader that appends each chunk it receives to its buffer and drains the buffer.\<close>

fun read_chunks :: "(bytes \<Rightarrow> FrameError + ('m option \<times> bytes)) \<Rightarrow> bytes \<Rightarrow> bytes list \<Rightarrow> FrameError + ('m list \<times> bytes)" where
  "read_chunks decode buf [] = Inr ([], buf)"
| "read_chunks decode buf (chunk # chunks) =
     (case decode_all decode (buf @ chunk) of
        Inl e \<Rightarrow> Inl e
      | Inr (ms, buf') \<Rightarrow>
          (case read_chunks decode buf' chunks of Inl e \<Rightarrow> Inl e | Inr (ns, rest) \<Rightarrow> Inr (ms @ ns, rest)))"

fun encode_all :: "('m \<Rightarrow> bytes option) \<Rightarrow> 'm list \<Rightarrow> bytes option" where
  "encode_all encode [] = Some []"
| "encode_all encode (m # ms) =
     (case encode m of None \<Rightarrow> None
      | Some bs \<Rightarrow> (case encode_all encode ms of None \<Rightarrow> None | Some cs \<Rightarrow> Some (bs @ cs)))"

lemma encode_all_ConsD:
  "encode_all encode (m # ms) = Some out \<Longrightarrow>
    \<exists>bs cs. encode m = Some bs \<and> encode_all encode ms = Some cs \<and> out = bs @ cs"
  by (auto split: option.splits)

lemma encode_all_append:
  "encode_all encode ms = Some a \<Longrightarrow> encode_all encode ns = Some b \<Longrightarrow> encode_all encode (ms @ ns) = Some (a @ b)"
  by (induction ms arbitrary: a) (auto split: option.splits)

lemma encode_all_snoc:
  "encode_all encode ms = Some a \<Longrightarrow> encode m = Some b \<Longrightarrow> encode_all encode (ms @ [m]) = Some (a @ b)"
  by (rule encode_all_append) simp_all

context framing
begin

lemma decode_rounds_enough:
  "length buf < n \<Longrightarrow> length buf < k \<Longrightarrow> decode_rounds decode n buf = decode_rounds decode k buf"
proof (induction n arbitrary: buf k)
  case (Suc n)
  then obtain j where k: "k = Suc j" by (cases k) auto
  have "decode_rounds decode n rest = decode_rounds decode j rest"
    if "decode buf = Inr (Some m, rest)" for m rest
    using Suc.IH [of rest j] decode_smaller [OF that] Suc.prems k by simp
  then show ?case
    by (auto simp: k split: sum.split option.split)
qed simp

lemma decode_all_unfold:
  "decode_all decode buf =
     (case decode buf of
        Inl e \<Rightarrow> Inl e
      | Inr (None, buf') \<Rightarrow> Inr ([], buf')
      | Inr (Some m, buf') \<Rightarrow>
          (case decode_all decode buf' of Inl e \<Rightarrow> Inl e | Inr (ms, rest) \<Rightarrow> Inr (m # ms, rest)))"
proof -
  have "decode_rounds decode (length buf) rest = decode_all decode rest"
    if "decode buf = Inr (Some m, rest)" for m rest
    unfolding decode_all_def using decode_smaller [OF that]
    by (intro decode_rounds_enough) auto
  then show ?thesis
    unfolding decode_all_def by (auto split: sum.split option.split)
qed

text \<open>Cutting a stream of messages anywhere: the whole messages come out, a proper prefix of the next stays.\<close>

lemma cut_stream:
  assumes "encode_all encode ms = Some out" "prefix p out"
  shows "\<exists>us vs q. ms = us @ vs \<and> decode_all decode p = Inr (us, q)
    \<and> encode_all encode vs = Some (q @ drop (length p) out) \<and> (p = out \<longrightarrow> vs = [])"
  using assms
proof (induction ms arbitrary: out p)
  case Nil
  then show ?case by (simp add: decode_all_def decode_empty)
next
  case (Cons m ms)
  from encode_all_ConsD [OF Cons.prems(1)] obtain bs cs where
    m: "encode m = Some bs" and ms: "encode_all encode ms = Some cs" and out: "out = bs @ cs" by blast
  show ?case
  proof (cases "strict_prefix p bs")
    case True
    then have "decode_all decode p = Inr ([], p)"
      by (subst decode_all_unfold) (simp add: decode_prefix [OF m])
    moreover have "p \<noteq> out" using True out by (auto simp: strict_prefix_def prefix_def)
    ultimately show ?thesis
      using Cons.prems by (intro exI [of _ "[]"] exI [of _ "m # ms"] exI [of _ p]) (auto simp: prefix_def)
  next
    case False
    with Cons.prems(2) out obtain p' where p: "p = bs @ p'" and p': "prefix p' cs"
      by (metis prefix_append prefix_order.less_le prefix_def same_prefix_prefix)
    from Cons.IH [OF ms p'] obtain us vs q where
      *: "ms = us @ vs" "decode_all decode p' = Inr (us, q)"
        "encode_all encode vs = Some (q @ drop (length p') cs)" "p' = cs \<longrightarrow> vs = []" by blast
    have "decode_all decode p = Inr (m # us, q)"
      unfolding p by (subst decode_all_unfold) (simp add: decode_encoded [OF m] *)
    with * show ?thesis
      by (intro exI [of _ "m # us"] exI [of _ vs] exI [of _ q]) (simp add: p out)
  qed
qed

lemma encode_all_empty: "encode_all encode ms = Some [] \<Longrightarrow> ms = []"
  by (cases ms) (auto split: option.splits dest: encode_nonempty)

lemma read_chunks_stream:
  assumes "encode_all encode ms = Some (buf @ concat chunks)" "chunks = [] \<longrightarrow> ms = []"
  shows "read_chunks decode buf chunks = Inr (ms, [])"
  using assms
proof (induction chunks arbitrary: buf ms)
  case (Cons chunk chunks)
  have "prefix (buf @ chunk) (buf @ concat (chunk # chunks))" by simp
  from cut_stream [OF Cons.prems(1) this] obtain us vs q where
    *: "ms = us @ vs" "decode_all decode (buf @ chunk) = Inr (us, q)"
      "encode_all encode vs = Some (q @ concat chunks)"
      "buf @ chunk = buf @ concat (chunk # chunks) \<longrightarrow> vs = []"
    by auto
  then have "read_chunks decode q chunks = Inr (vs, [])" by (intro Cons.IH) auto
  with * show ?case by simp
qed simp

lemma reassembly:
  "encode_all encode ms = Some (concat chunks) \<Longrightarrow> read_chunks decode [] chunks = Inr (ms, [])"
  by (rule read_chunks_stream) (auto dest: encode_all_empty)

end

section \<open>The two framings of the protocol\<close>

definition write_frame :: "nat \<Rightarrow> Frame \<Rightarrow> bytes option" where
  "write_frame max_len f =
     (if length (body f) + LENGTH_FIELD_LEN \<le> max_len then encode_frame (tag f) (body f) else None)"

definition write_startup :: "nat \<Rightarrow> bytes \<Rightarrow> bytes option" where
  "write_startup max_len b =
     (if STARTUP_CODE_LEN \<le> length b \<and> length b + LENGTH_FIELD_LEN \<le> max_len
      then encode_startup_frame b else None)"

lemma length_field_Some:
  "length_field n = Some len \<longleftrightarrow> len = int n + 4 \<and> is_i32 len"
  by (auto simp: length_field_def is_i32_def i32_min_def framing_consts Let_def)

lemma body_len_Inr:
  "length bs = 4 \<Longrightarrow> 4 \<le> min_len \<Longrightarrow> body_len_from_header bs min_len max_len = Inr n \<longleftrightarrow>
    length_field n = Some (i32_from_be_bytes bs) \<and> min_len \<le> n + 4 \<and> n + 4 \<le> max_len"
  using i32_from_be_bytes_range [of bs]
  by (auto simp: body_len_from_header_def length_field_Some Let_def framing_consts)

lemma length_field_put:
  assumes "length_field n = Some len" "min_len \<le> n + 4" "n + 4 \<le> max_len" "4 \<le> min_len"
  shows "body_len_from_header (put_i32 len) min_len max_len = Inr n"
proof -
  have "is_i32 len" using assms(1) by (auto simp: length_field_Some)
  from i32_from_put [OF this] assms show ?thesis by (simp add: body_len_Inr)
qed

text \<open>What a decoder reads of a proper prefix that is long enough to hold the header.\<close>

lemma strict_prefix_take:
  assumes "strict_prefix p (h @ b)" "length h \<le> length p"
  shows "take (length h) p = h \<and> length p < length h + length b"
proof -
  from assms(1) obtain z zs where "h @ b = p @ z # zs" by (rule strict_prefixE')
  then have "take (length h) (p @ z # zs) = h" "length (h @ b) = length p + Suc (length zs)"
    by (metis append_eq_conv_conj, simp)
  with assms(2) show ?thesis by simp
qed

lemma header_split: "5 \<le> length buf \<Longrightarrow> buf = buf ! 0 # take 4 (drop 1 buf) @ drop 5 buf"
  by (cases buf) simp_all

interpretation frames: framing "write_frame max_len" "\<lambda>buf. decode_frame buf max_len" for max_len
proof
  fix m bs rest
  assume "write_frame max_len m = Some bs"
  then show "decode_frame (bs @ rest) max_len = Inr (Some m, rest)"
    by (auto simp: write_frame_def encode_frame_def decode_frame_def framing_consts length_field_put
        split: if_splits option.splits)
next
  fix m bs p
  assume m: "write_frame max_len m = Some bs" and p: "strict_prefix p bs"
  from m obtain len where len: "length_field (length (body m)) = Some len"
    "length (body m) + 4 \<le> max_len" and bs: "bs = (tag m # put_i32 len) @ body m"
    by (auto simp: write_frame_def encode_frame_def framing_consts split: if_splits option.splits)
  show "decode_frame p max_len = Inr (None, p)"
  proof (cases "length p < 5")
    case True
    then show ?thesis by (simp add: decode_frame_def framing_consts)
  next
    case False
    with strict_prefix_take [OF p [unfolded bs]]
    have *: "take 5 p = tag m # put_i32 len" "length p < 5 + length (body m)" by auto
    have "take 4 (drop 1 p) = drop 1 (take 5 p)" by (simp add: drop_take)
    with * have "take 4 (drop 1 p) = put_i32 len" by simp
    with *(2) False len show ?thesis by (simp add: decode_frame_def framing_consts length_field_put)
  qed
next
  show "decode_frame [] max_len = Inr (None, [])"
    by (simp add: decode_frame_def framing_consts)
next
  fix buf m rest
  assume d: "decode_frame buf max_len = Inr (Some m, rest)"
  let ?h = "take 4 (drop 1 buf)"
  from d have l: "5 \<le> length buf"
    by (auto simp: decode_frame_def framing_consts split: if_splits)
  then have h: "length ?h = 4" by simp
  from d l obtain n where n: "body_len_from_header ?h 4 max_len = Inr n" "5 + n \<le> length buf"
    and m: "m = \<lparr>tag = buf ! 0, body = take n (drop 5 buf)\<rparr>" "rest = drop n (drop 5 buf)"
    by (auto simp: decode_frame_def framing_consts Let_def split: if_splits sum.splits)
  from n(1) have "length_field n = Some (i32_from_be_bytes ?h)" "n + 4 \<le> max_len"
    using body_len_Inr [OF h, of 4 max_len n] by simp_all
  with n(2) m h have "write_frame max_len m = Some (buf ! 0 # ?h @ take n (drop 5 buf))"
    by (simp add: write_frame_def encode_frame_def framing_consts put_from_i32)
  moreover have "buf = (buf ! 0 # ?h @ take n (drop 5 buf)) @ rest"
    using header_split [OF l] by (simp add: m del: drop_drop)
  ultimately show "\<exists>bs. write_frame max_len m = Some bs \<and> buf = bs @ rest" by blast
qed

interpretation startups: framing "write_startup max_len" "\<lambda>buf. decode_startup_frame buf max_len" for max_len
proof
  fix m bs rest
  assume "write_startup max_len m = Some bs"
  then show "decode_startup_frame (bs @ rest) max_len = Inr (Some m, rest)"
    by (auto simp: write_startup_def encode_startup_frame_def decode_startup_frame_def framing_consts
        length_field_put split: if_splits option.splits)
next
  fix m bs p
  assume m: "write_startup max_len m = Some bs" and p: "strict_prefix p bs"
  from m obtain len where len: "length_field (length m) = Some len" "4 \<le> length m"
    "length m + 4 \<le> max_len" and bs: "bs = put_i32 len @ m"
    by (auto simp: write_startup_def encode_startup_frame_def framing_consts split: if_splits option.splits)
  show "decode_startup_frame p max_len = Inr (None, p)"
  proof (cases "length p < 4")
    case True
    then show ?thesis by (simp add: decode_startup_frame_def framing_consts)
  next
    case False
    with strict_prefix_take [OF p [unfolded bs]]
    have "take 4 p = put_i32 len" "length p < 4 + length m" by auto
    with False len show ?thesis by (simp add: decode_startup_frame_def framing_consts length_field_put)
  qed
next
  show "decode_startup_frame [] max_len = Inr (None, [])"
    by (simp add: decode_startup_frame_def framing_consts)
next
  fix buf m rest
  assume d: "decode_startup_frame buf max_len = Inr (Some m, rest)"
  let ?h = "take 4 buf"
  from d have l: "4 \<le> length buf"
    by (auto simp: decode_startup_frame_def framing_consts split: if_splits)
  then have h: "length ?h = 4" by simp
  from d l obtain n where n: "body_len_from_header ?h 8 max_len = Inr n" "4 + n \<le> length buf"
    and m: "m = take n (drop 4 buf)" "rest = drop n (drop 4 buf)"
    by (auto simp: decode_startup_frame_def framing_consts Let_def split: if_splits sum.splits)
  from n(1) have "length_field n = Some (i32_from_be_bytes ?h)" "8 \<le> n + 4" "n + 4 \<le> max_len"
    using body_len_Inr [OF h, of 8 max_len n] by simp_all
  with n(2) m h have "write_startup max_len m = Some (?h @ take n (drop 4 buf))"
    by (simp add: write_startup_def encode_startup_frame_def framing_consts put_from_i32)
  moreover have "buf = (?h @ take n (drop 4 buf)) @ rest"
    by (simp add: m del: drop_drop)
  ultimately show "\<exists>bs. write_startup max_len m = Some bs \<and> buf = bs @ rest" by blast
qed

section \<open>Properties\<close>

text \<open>
  Reassembly. However the bytes of a sequence of frames are cut into reads (empty ones
  included), draining the buffer after each read delivers exactly those frames, in order, and
  leaves nothing in the buffer.
\<close>

theorem frames_reassemble:
  assumes "encode_all (write_frame max_len) fs = Some (concat chunks)"
  shows "read_chunks (\<lambda>buf. decode_frame buf max_len) [] chunks = Inr (fs, [])"
  using assms by (rule frames.reassembly)

theorem frames_reassemble_witness:
  "read_chunks (\<lambda>buf. decode_frame buf MAX_MESSAGE) []
     [''Q'', [CHR 0x00, CHR 0x00, CHR 0x00], [CHR 0x06], [], ''a'', ''bX'', [CHR 0x00, CHR 0x00, CHR 0x00, CHR 0x04]]
   = Inr ([\<lparr>tag = CHR ''Q'', body = ''ab''\<rparr>, \<lparr>tag = CHR ''X'', body = []\<rparr>], [])"
  by (rule frames_reassemble) code_simp

text \<open>
  A decoded frame is what was sent. A decoder that takes a frame off the buffer took exactly
  the bytes the encoder writes for that frame, within the limit the caller set; nothing is
  dropped or invented, so putting the frame back in front of the rest restores the buffer.
\<close>

theorem decode_frame_exact:
  assumes "decode_frame buf max_len = Inr (Some f, rest)"
  shows "\<exists>bs. encode_frame (tag f) (body f) = Some bs \<and> buf = bs @ rest
    \<and> length (body f) + LENGTH_FIELD_LEN \<le> max_len"
  using frames.decode_written [OF assms] by (auto simp: write_frame_def split: if_splits)

theorem decode_frame_exact_witness:
  "\<exists>bs. encode_frame CHR ''S'' [] = Some bs \<and> CHR ''S'' # put_i32 4 @ ''xyz'' = bs @ ''xyz''
    \<and> LENGTH_FIELD_LEN \<le> MAX_MESSAGE"
proof -
  have "decode_frame (CHR ''S'' # put_i32 4 @ ''xyz'') MAX_MESSAGE = Inr (Some \<lparr>tag = CHR ''S'', body = []\<rparr>, ''xyz'')"
    by code_simp
  from decode_frame_exact [OF this] show ?thesis by simp
qed

text \<open>
  C24: draining a buffer ends. Every frame taken makes the buffer shorter, so one round more than the
  buffer has bytes is enough: any larger number of rounds gives the same frames and the same rest,
  and what is left holds no whole frame, so another round would take nothing.
\<close>

theorem draining_ends:
  assumes "length buf < n"
  shows "decode_rounds (\<lambda>b. decode_frame b max_len) n buf = decode_all (\<lambda>b. decode_frame b max_len) buf
    \<and> (\<forall>fs rest. decode_all (\<lambda>b. decode_frame b max_len) buf = Inr (fs, rest) \<longrightarrow>
         length rest + length fs \<le> length buf \<and> decode_frame rest max_len = Inr (None, rest))"
proof -
  let ?d = "\<lambda>b. decode_frame b max_len"
  have "length rest + length fs \<le> length b \<and> ?d rest = Inr (None, rest)"
    if "decode_all ?d b = Inr (fs, rest)" for b fs rest
    using that
  proof (induction fs arbitrary: b)
    case Nil
    then have "?d b = Inr (None, rest)"
      by (subst (asm) frames.decode_all_unfold) (auto split: sum.splits option.splits)
    moreover from this have "rest = b" by (auto simp: decode_frame_def Let_def split: if_splits sum.splits)
    ultimately show ?case by simp
  next
    case (Cons f fs)
    then obtain b' where "?d b = Inr (Some f, b')" "decode_all ?d b' = Inr (fs, rest)"
      by (subst (asm) frames.decode_all_unfold) (auto split: sum.splits option.splits)
    with Cons.IH [OF this(2)] frames.decode_smaller [OF this(1)] show ?case by simp
  qed
  moreover have "decode_rounds ?d n buf = decode_all ?d buf"
    unfolding decode_all_def by (rule frames.decode_rounds_enough) (use assms in simp_all)
  ultimately show ?thesis by blast
qed

theorem draining_ends_witness:
  "decode_rounds (\<lambda>b. decode_frame b MAX_MESSAGE) 100 (''X'' @ put_i32 4 @ ''Q'')
     = Inr ([\<lparr>tag = CHR ''X'', body = []\<rparr>], ''Q'')"
proof -
  have "decode_all (\<lambda>b. decode_frame b MAX_MESSAGE) (''X'' @ put_i32 4 @ ''Q'') = Inr ([\<lparr>tag = CHR ''X'', body = []\<rparr>], ''Q'')"
    by code_simp
  with draining_ends [of "''X'' @ put_i32 4 @ ''Q''" 100 MAX_MESSAGE] show ?thesis by simp
qed

end
