(* ===== verification/Message.thy ===== *)
theory Message
  imports Bytes
begin

text \<open>
  Message tags and the transaction status (\<open>crates/protocol/src/message.rs\<close>). The macro \<open>tags!\<close>
  generates an enumeration with its two conversions from one list of variants and bytes; the list
  is kept here as a table (\<open>BackendTag_ALL\<close>, \<open>FrontendTag_ALL\<close>) and both conversions read it.
  The locale \<open>tag_table\<close> states when such a table gives conversions that are inverse to each
  other; both tables satisfy it.
\<close>

datatype BackendTag =
    Authentication | BackendKeyData | BindComplete | CloseComplete | CommandComplete
  | B_CopyData | B_CopyDone | CopyInResponse | CopyOutResponse | CopyBothResponse | DataRow
  | EmptyQueryResponse | ErrorResponseTag | FunctionCallResponse | NegotiateProtocolVersion | NoData
  | NoticeResponse | NotificationResponse | ParameterDescription | ParameterStatus | ParseComplete
  | PortalSuspended | ReadyForQuery | RowDescription

datatype FrontendTag =
    Bind | Close | CopyData | CopyDone | CopyFail | Describe | Execute | Flush | FunctionCall
  | Parse | Password | Query | Sync | Terminate

datatype MessageError =
    UnknownBackendTag byte
  | UnknownFrontendTag byte
  | UnknownTransactionStatus byte
  | MalformedBackendBody BackendTag string

definition BackendTag_ALL :: "(BackendTag \<times> byte) list" where
  "BackendTag_ALL =
    [(Authentication, CHR ''R''), (BackendKeyData, CHR ''K''), (BindComplete, CHR ''2''),
     (CloseComplete, CHR ''3''), (CommandComplete, CHR ''C''), (B_CopyData, CHR ''d''),
     (B_CopyDone, CHR ''c''), (CopyInResponse, CHR ''G''), (CopyOutResponse, CHR ''H''),
     (CopyBothResponse, CHR ''W''), (DataRow, CHR ''D''), (EmptyQueryResponse, CHR ''I''),
     (ErrorResponseTag, CHR ''E''), (FunctionCallResponse, CHR ''V''),
     (NegotiateProtocolVersion, CHR ''v''), (NoData, CHR ''n''), (NoticeResponse, CHR ''N''),
     (NotificationResponse, CHR ''A''), (ParameterDescription, CHR ''t''), (ParameterStatus, CHR ''S''),
     (ParseComplete, CHR ''1''), (PortalSuspended, CHR ''s''), (ReadyForQuery, CHR ''Z''),
     (RowDescription, CHR ''T'')]"

definition FrontendTag_ALL :: "(FrontendTag \<times> byte) list" where
  "FrontendTag_ALL =
    [(Bind, CHR ''B''), (Close, CHR ''C''), (CopyData, CHR ''d''), (CopyDone, CHR ''c''),
     (CopyFail, CHR ''f''), (Describe, CHR ''D''), (Execute, CHR ''E''), (Flush, CHR ''H''),
     (FunctionCall, CHR ''F''), (Parse, CHR ''P''), (Password, CHR ''p''), (Query, CHR ''Q''),
     (Sync, CHR ''S''), (Terminate, CHR ''X'')]"

text \<open>The generated \<open>TryFrom<u8>\<close> and \<open>From<$name> for u8\<close>.\<close>

definition tag_try_from :: "('t \<times> byte) list \<Rightarrow> (byte \<Rightarrow> 'e) \<Rightarrow> byte \<Rightarrow> 'e + 't" where
  "tag_try_from tags unknown b =
     (case find (\<lambda>(_, c). c = b) tags of Some (t, _) \<Rightarrow> Inr t | None \<Rightarrow> Inl (unknown b))"

definition tag_byte :: "('t \<times> byte) list \<Rightarrow> 't \<Rightarrow> byte" where
  "tag_byte tags t = the (map_of tags t)"

definition BackendTag_try_from :: "byte \<Rightarrow> MessageError + BackendTag" where
  "BackendTag_try_from = tag_try_from BackendTag_ALL UnknownBackendTag"

definition FrontendTag_try_from :: "byte \<Rightarrow> MessageError + FrontendTag" where
  "FrontendTag_try_from = tag_try_from FrontendTag_ALL UnknownFrontendTag"

definition BackendTag_byte :: "BackendTag \<Rightarrow> byte" where
  "BackendTag_byte = tag_byte BackendTag_ALL"

definition FrontendTag_byte :: "FrontendTag \<Rightarrow> byte" where
  "FrontendTag_byte = tag_byte FrontendTag_ALL"

datatype TransactionStatus = Idle | InTransaction | Failed

definition TransactionStatus_try_from :: "byte \<Rightarrow> MessageError + TransactionStatus" where
  "TransactionStatus_try_from b =
     (if b = CHR ''I'' then Inr Idle
      else if b = CHR ''T'' then Inr InTransaction
      else if b = CHR ''E'' then Inr Failed
      else Inl (UnknownTransactionStatus b))"

fun TransactionStatus_byte :: "TransactionStatus \<Rightarrow> byte" where
  "TransactionStatus_byte Idle = CHR ''I''"
| "TransactionStatus_byte InTransaction = CHR ''T''"
| "TransactionStatus_byte Failed = CHR ''E''"

fun parse_ready_for_query :: "bytes \<Rightarrow> MessageError + TransactionStatus" where
  "parse_ready_for_query [status] = TransactionStatus_try_from status"
| "parse_ready_for_query _ = Inl (MalformedBackendBody ReadyForQuery ''expected exactly one status byte'')"

section \<open>Tag tables\<close>

locale tag_table =
  fixes tags :: "('t \<times> byte) list"
  assumes every_tag: "\<And>t. t \<in> fst ` set tags"
    and distinct_tags: "distinct (map fst tags)"
    and distinct_bytes: "distinct (map snd tags)"
begin

lemma tag_byte_mem: "(t, tag_byte tags t) \<in> set tags"
proof -
  obtain b where "(t, b) \<in> set tags" using every_tag [of t] by auto
  then show ?thesis using distinct_tags by (simp add: tag_byte_def)
qed

lemma try_from_mem: "(t, b) \<in> set tags \<Longrightarrow> tag_try_from tags unknown b = Inr t"
proof -
  assume m: "(t, b) \<in> set tags"
  then obtain t' where f: "find (\<lambda>(_, c). c = b) tags = Some (t', b)"
    by (cases "find (\<lambda>(_, c). c = b) tags") (auto simp: find_None_iff find_Some_iff)
  then have "(t', b) \<in> set tags" by (metis find_Some_iff nth_mem)
  with m distinct_bytes have "(t', b) = (t, b)" unfolding distinct_map by (metis inj_onD snd_conv)
  then have "t' = t" by simp
  with f show ?thesis by (simp add: tag_try_from_def)
qed

lemma try_from_byte: "tag_try_from tags unknown (tag_byte tags t) = Inr t"
  by (rule try_from_mem) (rule tag_byte_mem)

lemma byte_try_from: "tag_try_from tags unknown b = Inr t \<longleftrightarrow> b = tag_byte tags t"
proof
  assume "tag_try_from tags unknown b = Inr t"
  then have "(t, b) \<in> set tags"
    by (fastforce simp: tag_try_from_def find_Some_iff in_set_conv_nth split: option.splits)
  with tag_byte_mem [of t] distinct_tags show "b = tag_byte tags t"
    by (metis map_of_is_SomeI option.inject)
qed (simp add: try_from_byte)

lemma try_from_unknown: "tag_try_from tags unknown b = Inl e \<longleftrightarrow> e = unknown b \<and> b \<notin> range (tag_byte tags)"
proof -
  have "(\<exists>t. tag_try_from tags unknown b = Inr t) \<longleftrightarrow> b \<in> range (tag_byte tags)"
    by (auto simp: byte_try_from)
  then show ?thesis
    by (auto simp: tag_try_from_def split: option.splits)
qed

lemma tag_byte_inj: "tag_byte tags t = tag_byte tags u \<longleftrightarrow> t = u"
  by (metis byte_try_from sum.inject(2))

end

interpretation backend_tags: tag_table BackendTag_ALL
proof
  fix t :: BackendTag
  show "t \<in> fst ` set BackendTag_ALL" by (cases t) (simp_all add: BackendTag_ALL_def)
qed (simp_all add: BackendTag_ALL_def)

interpretation frontend_tags: tag_table FrontendTag_ALL
proof
  fix t :: FrontendTag
  show "t \<in> fst ` set FrontendTag_ALL" by (cases t) (simp_all add: FrontendTag_ALL_def)
qed (simp_all add: FrontendTag_ALL_def)

lemma BackendTag_round_trip [codec_simps]: "BackendTag_try_from (BackendTag_byte t) = Inr t"
  by (simp add: BackendTag_try_from_def BackendTag_byte_def backend_tags.try_from_byte)

lemma FrontendTag_round_trip [codec_simps]: "FrontendTag_try_from (FrontendTag_byte t) = Inr t"
  by (simp add: FrontendTag_try_from_def FrontendTag_byte_def frontend_tags.try_from_byte)

lemma FrontendTag_try_from_Inr: "FrontendTag_try_from b = Inr t \<longleftrightarrow> b = FrontendTag_byte t"
  by (simp add: FrontendTag_try_from_def FrontendTag_byte_def frontend_tags.byte_try_from)

lemma BackendTag_try_from_Inr: "BackendTag_try_from b = Inr t \<longleftrightarrow> b = BackendTag_byte t"
  by (simp add: BackendTag_try_from_def BackendTag_byte_def backend_tags.byte_try_from)

lemma TransactionStatus_round_trip [codec_simps]:
  "TransactionStatus_try_from (TransactionStatus_byte s) = Inr s"
  by (cases s) (simp_all add: TransactionStatus_try_from_def)

lemma parse_ready_for_query_Inr [codec_simps]:
  "parse_ready_for_query b = Inr s \<longleftrightarrow> b = [TransactionStatus_byte s]"
proof (cases b rule: parse_ready_for_query.cases)
  case (1 c)
  show ?thesis unfolding 1 by (cases s) (auto simp: TransactionStatus_try_from_def)
qed auto

end
