(* ===== verification/Frontend.thy ===== *)
theory Frontend
  imports Message
begin

text \<open>
  The bodies of the client messages the proxy looks into (\<open>crates/protocol/src/frontend.rs\<close>). A
  borrowed \<open>&str\<close> is the bytes it borrows, which \<open>from_utf8\<close> has accepted. Error texts are kept,
  since the code tells its errors apart by them.
\<close>

definition LENGTH_BYTES :: nat where
  "LENGTH_BYTES = 4"

definition NO_DATA :: int where
  "NO_DATA = - 1"

datatype FrontendError = MalformedBody FrontendTag string

record SaslInitialResponse =
  mechanism :: bytes
  sasl_data :: bytes

definition malformed_body :: "FrontendTag \<Rightarrow> string \<Rightarrow> FrontendError" where
  "malformed_body t reason = MalformedBody t reason"

definition malformed :: "string \<Rightarrow> FrontendError" where
  "malformed reason = malformed_body Password reason"

definition decode_sasl_initial_response :: "bytes \<Rightarrow> FrontendError + SaslInitialResponse" where
  "decode_sasl_initial_response b =
     (case split_nul b of
        None \<Rightarrow> Inl (malformed ''the mechanism name is not terminated'')
      | Some (name, rest) \<Rightarrow>
          if \<not> valid_utf8 name then Inl (malformed ''the mechanism name is not valid UTF-8'')
          else if length rest < LENGTH_BYTES then Inl (malformed ''the response length is truncated'')
          else (let declared = i32_from_be_bytes (take LENGTH_BYTES rest); data = drop LENGTH_BYTES rest in
            if declared = NO_DATA then
              (if data \<noteq> [] then Inl (malformed ''a response of no data is followed by bytes'')
               else Inr \<lparr>mechanism = name, sasl_data = []\<rparr>)
            else if declared < 0 then Inl (malformed ''the response length is negative'')
            else if nat declared \<noteq> length data then
              Inl (malformed ''the response length disagrees with the rest of the message'')
            else Inr \<lparr>mechanism = name, sasl_data = data\<rparr>))"

datatype CloseTarget = CloseStatement bytes | ClosePortal bytes

record ParseMessage =
  parse_statement :: bytes
  parse_query :: bytes

definition cstr :: "bytes \<Rightarrow> FrontendTag \<Rightarrow> string \<Rightarrow> FrontendError + (bytes \<times> bytes)" where
  "cstr b t unterminated =
     (case split_nul b of
        None \<Rightarrow> Inl (malformed_body t unterminated)
      | Some (text, rest) \<Rightarrow>
          if valid_utf8 text then Inr (text, rest)
          else Inl (malformed_body t ''a name is not valid UTF-8''))"

definition decode_query :: "bytes \<Rightarrow> FrontendError + bytes" where
  "decode_query b =
     (case cstr b Query ''the query text is not terminated'' of
        Inl e \<Rightarrow> Inl e | Inr (query, _) \<Rightarrow> Inr query)"

definition decode_parse :: "bytes \<Rightarrow> FrontendError + ParseMessage" where
  "decode_parse b =
     (case cstr b Parse ''the statement name is not terminated'' of
        Inl e \<Rightarrow> Inl e
      | Inr (statement, rest) \<Rightarrow>
          (case cstr rest Parse ''the query text is not terminated'' of
             Inl e \<Rightarrow> Inl e
           | Inr (query, _) \<Rightarrow> Inr \<lparr>parse_statement = statement, parse_query = query\<rparr>))"

definition decode_bind :: "bytes \<Rightarrow> FrontendError + bytes" where
  "decode_bind b =
     (case cstr b Bind ''the portal name is not terminated'' of
        Inl e \<Rightarrow> Inl e
      | Inr (_, rest) \<Rightarrow>
          (case cstr rest Bind ''the statement name is not terminated'' of
             Inl e \<Rightarrow> Inl e | Inr (statement, _) \<Rightarrow> Inr statement))"

definition decode_close :: "bytes \<Rightarrow> FrontendError + CloseTarget" where
  "decode_close b =
     (case b of
        [] \<Rightarrow> Inl (malformed_body Close ''the target is missing'')
      | target # rest \<Rightarrow>
          (case cstr rest Close ''the target name is not terminated'' of
             Inl e \<Rightarrow> Inl e
           | Inr (name, _) \<Rightarrow>
               if target = CHR ''S'' then Inr (CloseStatement name)
               else if target = CHR ''P'' then Inr (ClosePortal name)
               else Inl (malformed_body Close ''the target is neither a statement nor a portal'')))"

section \<open>What is decoded is what the body says\<close>

text \<open>A zero-terminated valid name at the head of a body.\<close>

definition is_text :: "bytes \<Rightarrow> bool" where
  "is_text s \<longleftrightarrow> NUL \<notin> set s \<and> valid_utf8 s"

lemma cstr_text [simp, codec_simps]: "is_text s \<Longrightarrow> cstr (s @ NUL # rest) t e = Inr (s, rest)"
  by (simp add: cstr_def is_text_def split_nul_append)

lemma cstr_InrD: "cstr b t e = Inr (s, rest) \<Longrightarrow> is_text s \<and> b = s @ NUL # rest"
  by (auto simp: cstr_def is_text_def split_nul_Some split: option.splits if_splits)

lemma decode_query_Inr: "decode_query b = Inr q \<longleftrightarrow> is_text q \<and> (\<exists>rest. b = q @ NUL # rest)"
  (is "?l \<longleftrightarrow> ?r")
proof
  show "?l \<Longrightarrow> ?r" by (auto simp: decode_query_def split: sum.splits dest!: cstr_InrD)
qed (auto simp: decode_query_def)

lemma decode_parse_Inr:
  "decode_parse b = Inr p \<longleftrightarrow> is_text (parse_statement p) \<and> is_text (parse_query p)
     \<and> (\<exists>rest. b = parse_statement p @ NUL # parse_query p @ NUL # rest)"
  (is "?l \<longleftrightarrow> ?r")
proof
  show "?l \<Longrightarrow> ?r" by (auto simp: decode_parse_def split: sum.splits dest!: cstr_InrD)
qed (auto simp: decode_parse_def)

lemma decode_bind_Inr:
  "decode_bind b = Inr st \<longleftrightarrow> is_text st
     \<and> (\<exists>portal rest. is_text portal \<and> b = portal @ NUL # st @ NUL # rest)"
  (is "?l \<longleftrightarrow> ?r")
proof
  show "?l \<Longrightarrow> ?r" by (fastforce simp: decode_bind_def split: sum.splits dest!: cstr_InrD)
qed (auto simp: decode_bind_def)

lemma sasl_round_trip:
  assumes "is_text m" "int (length d) \<le> i32_max"
  shows "decode_sasl_initial_response (m @ NUL # put_i32 (int (length d)) @ d) = Inr \<lparr>mechanism = m, sasl_data = d\<rparr>"
proof -
  have "is_i32 (int (length d))" using assms(2) by (simp add: is_i32_def i32_min_def)
  from i32_from_put [OF this] assms(1) show ?thesis
    by (simp add: decode_sasl_initial_response_def is_text_def split_nul_append LENGTH_BYTES_def NO_DATA_def)
qed

end
