(* ===== verification/Startup.thy ===== *)
theory Startup
  imports Framing Frontend Allocation
begin

text \<open>
  The packets that open a connection (\<open>crates/protocol/src/startup.rs\<close>) and the tenant a client
  asks for (\<open>TenantId::from_startup\<close> in \<open>crates/core/src/tenant.rs\<close>). \<open>startup_body\<close> is the part of
  \<open>encode_startup\<close> that writes the body; the frame around it is \<open>encode_startup_frame\<close>.
\<close>

definition SSL_REQUEST_CODE :: int where "SSL_REQUEST_CODE = 80877103"
definition GSSENC_REQUEST_CODE :: int where "GSSENC_REQUEST_CODE = 80877104"
definition CANCEL_REQUEST_CODE :: int where "CANCEL_REQUEST_CODE = 80877102"
definition SPECIAL_REQUEST_MAJOR :: nat where "SPECIAL_REQUEST_MAJOR = 1234"
definition CODE_LEN :: nat where "CODE_LEN = 4"
definition CANCEL_KEY_LEN :: nat where "CANCEL_KEY_LEN = 8"
definition SUPPORTED_MAJOR :: nat where "SUPPORTED_MAJOR = 3"

lemmas startup_consts = SSL_REQUEST_CODE_def GSSENC_REQUEST_CODE_def CANCEL_REQUEST_CODE_def
  SPECIAL_REQUEST_MAJOR_def CODE_LEN_def CANCEL_KEY_LEN_def SUPPORTED_MAJOR_def

record ProtocolVersion =
  major :: nat
  minor :: nat

definition V3_0 :: ProtocolVersion where
  "V3_0 = \<lparr>major = 3, minor = 0\<rparr>"

definition ProtocolVersion_from_code :: "bytes \<Rightarrow> ProtocolVersion" where
  "ProtocolVersion_from_code code = \<lparr>major = from_be (take 2 code), minor = from_be (drop 2 code)\<rparr>"

definition ProtocolVersion_to_code :: "ProtocolVersion \<Rightarrow> bytes" where
  "ProtocolVersion_to_code v = be_bytes 2 (major v) @ be_bytes 2 (minor v)"

definition ProtocolVersion_display :: "ProtocolVersion \<Rightarrow> string" where
  "ProtocolVersion_display v = decimal (major v) @ ''.'' @ decimal (minor v)"

record CancelKey =
  process_id :: int
  secret_key :: int

record StartupMessage =
  version :: ProtocolVersion
  parameters :: "(bytes \<times> bytes) list"

definition StartupMessage_parameter :: "bytes \<Rightarrow> StartupMessage \<Rightarrow> bytes option" where
  "StartupMessage_parameter name m = map_option snd (find (\<lambda>(key, _). key = name) (parameters m))"

definition StartupMessage_user :: "StartupMessage \<Rightarrow> bytes option" where
  "StartupMessage_user m =
     (case StartupMessage_parameter ''user'' m of
        None \<Rightarrow> None | Some user \<Rightarrow> if user = [] then None else Some user)"

definition StartupMessage_database :: "StartupMessage \<Rightarrow> bytes option" where
  "StartupMessage_database m =
     (case StartupMessage_user m of
        None \<Rightarrow> None
      | Some user \<Rightarrow>
          (case StartupMessage_parameter ''database'' m of
             None \<Rightarrow> Some user
           | Some database \<Rightarrow> Some (if database = [] then user else database)))"

datatype StartupRequest = Ssl | GssEnc | Cancel CancelKey | Startup StartupMessage

datatype StartupError =
    UnknownRequestCode int
  | UnsupportedProtocolVersion ProtocolVersion
  | Malformed string
  | InvalidUtf8

definition fixed_request :: "bytes \<Rightarrow> StartupRequest \<Rightarrow> string \<Rightarrow> StartupError + StartupRequest" where
  "fixed_request rest request trailing = (if rest = [] then Inr request else Inl (Malformed trailing))"

definition decode_cancel_key :: "bytes \<Rightarrow> StartupError + CancelKey" where
  "decode_cancel_key rest =
     (if length rest \<noteq> CANCEL_KEY_LEN
      then Inl (Malformed ''CancelRequest must carry exactly a process id and a secret key'')
      else Inr \<lparr>process_id = i32_from_be_bytes (take 4 rest), secret_key = i32_from_be_bytes (drop 4 rest)\<rparr>)"

definition take_cstring :: "bytes \<Rightarrow> string \<Rightarrow> StartupError + (bytes \<times> bytes)" where
  "take_cstring bs unterminated =
     (case split_nul bs of
        None \<Rightarrow> Inl (Malformed unterminated)
      | Some (text, rest) \<Rightarrow> if valid_utf8 text then Inr (text, rest) else Inl InvalidUtf8)"

lemma take_cstring_text [simp, codec_simps]: "is_text s \<Longrightarrow> take_cstring (s @ NUL # rest) e = Inr (s, rest)"
  by (simp add: take_cstring_def is_text_def split_nul_append)

lemma take_cstring_InrD: "take_cstring b e = Inr (s, rest) \<Longrightarrow> is_text s \<and> b = s @ NUL # rest"
  by (auto simp: take_cstring_def is_text_def split_nul_Some split: option.splits if_splits)

function decode_parameters :: "bytes \<Rightarrow> StartupError + (bytes \<times> bytes) list" where
  "decode_parameters rest =
     (if rest = [] then Inl (Malformed ''parameter list is not terminated'')
      else if rest = [NUL] then Inr []
      else if hd rest = NUL then Inl (Malformed ''bytes follow the parameter list terminator'')
      else case take_cstring rest ''parameter name is not terminated'' of
        Inl e \<Rightarrow> Inl e
      | Inr (name, after_name) \<Rightarrow>
          (case take_cstring after_name ''parameter value is missing'' of
             Inl e \<Rightarrow> Inl e
           | Inr (value, after_value) \<Rightarrow>
               (case decode_parameters after_value of
                  Inl e \<Rightarrow> Inl e | Inr ps \<Rightarrow> Inr ((name, value) # ps))))"
  by pat_completeness auto
termination by (relation "measure length") (auto dest!: take_cstring_InrD)

declare decode_parameters.simps [simp del]

definition decode_startup :: "bytes \<Rightarrow> StartupError + StartupRequest" where
  "decode_startup b =
     (if length b < CODE_LEN then Inl (Malformed ''shorter than a request code'')
      else (let code = take CODE_LEN b; rest = drop CODE_LEN b; n = i32_from_be_bytes code in
        if n = SSL_REQUEST_CODE then fixed_request rest Ssl ''SSLRequest carries bytes after the request code''
        else if n = GSSENC_REQUEST_CODE then
          fixed_request rest GssEnc ''GSSENCRequest carries bytes after the request code''
        else if n = CANCEL_REQUEST_CODE then map_sum id Cancel (decode_cancel_key rest)
        else (let v = ProtocolVersion_from_code code in
          if major v = SPECIAL_REQUEST_MAJOR then Inl (UnknownRequestCode n)
          else if major v \<noteq> SUPPORTED_MAJOR then Inl (UnsupportedProtocolVersion v)
          else case decode_parameters rest of
            Inl e \<Rightarrow> Inl e
          | Inr ps \<Rightarrow> Inr (Startup \<lparr>version = v, parameters = ps\<rparr>))))"

definition put_cstring :: "bytes \<Rightarrow> bytes" where
  "put_cstring text = text @ [NUL]"

fun startup_body :: "StartupRequest \<Rightarrow> bytes" where
  "startup_body Ssl = put_i32 SSL_REQUEST_CODE"
| "startup_body GssEnc = put_i32 GSSENC_REQUEST_CODE"
| "startup_body (Cancel key) =
     put_i32 CANCEL_REQUEST_CODE @ put_i32 (process_id key) @ put_i32 (secret_key key)"
| "startup_body (Startup m) =
     ProtocolVersion_to_code (version m)
     @ concat (map (\<lambda>(name, value). put_cstring name @ put_cstring value) (parameters m)) @ [NUL]"

definition encode_startup :: "StartupRequest \<Rightarrow> bytes option" where
  "encode_startup request = encode_startup_frame (startup_body request)"

datatype TenantResolveError = MissingUser

definition TenantId_from_startup :: "StartupMessage \<Rightarrow> TenantResolveError + TenantId" where
  "TenantId_from_startup m =
     (case StartupMessage_user m of
        None \<Rightarrow> Inl MissingUser
      | Some user \<Rightarrow>
          Inr (TenantId user (case StartupMessage_database m of None \<Rightarrow> user | Some d \<Rightarrow> d)))"

section \<open>Well-formed requests\<close>

text \<open>
  What can be written so that it can be read: keys within 32 bits, protocol version 3, parameter
  names that are not empty, and texts without a zero byte. (A Rust \<open>String\<close> may hold a zero byte,
  which the encoder would write out.)
\<close>

fun request_ok :: "StartupRequest \<Rightarrow> bool" where
  "request_ok Ssl \<longleftrightarrow> True"
| "request_ok GssEnc \<longleftrightarrow> True"
| "request_ok (Cancel key) \<longleftrightarrow> is_i32 (process_id key) \<and> is_i32 (secret_key key)"
| "request_ok (Startup m) \<longleftrightarrow>
     major (version m) = SUPPORTED_MAJOR \<and> minor (version m) < 65536
     \<and> list_all (\<lambda>(name, value). name \<noteq> [] \<and> is_text name \<and> is_text value) (parameters m)"

lemma decode_parameters_written:
  "list_all (\<lambda>(name, value). name \<noteq> [] \<and> is_text name \<and> is_text value) ps \<Longrightarrow>
    decode_parameters (concat (map (\<lambda>(name, value). put_cstring name @ put_cstring value) ps) @ [NUL]) = Inr ps"
proof (induction ps)
  case Nil
  show ?case by (subst decode_parameters.simps) simp
next
  case (Cons p ps)
  obtain name val where p: "p = (name, val)" by fastforce
  from Cons.prems obtain c cs where name: "name = c # cs" "c \<noteq> NUL" "is_text name" "is_text val"
    by (cases name) (auto simp: p is_text_def)
  let ?tail = "concat (map (\<lambda>(name, value). put_cstring name @ put_cstring value) ps) @ [NUL]"
  have "take_cstring (name @ NUL # val @ NUL # ?tail) e = Inr (name, val @ NUL # ?tail)" for e
    using name(3) by (rule take_cstring_text)
  with Cons name show ?case
    by (subst decode_parameters.simps) (simp add: p put_cstring_def)
qed

lemma decode_parameters_InrD:
  "decode_parameters b = Inr ps \<Longrightarrow>
    list_all (\<lambda>(name, value). name \<noteq> [] \<and> is_text name \<and> is_text value) ps
    \<and> b = concat (map (\<lambda>(name, value). put_cstring name @ put_cstring value) ps) @ [NUL]"
proof (induction b arbitrary: ps rule: decode_parameters.induct)
  case (1 b)
  show ?case
  proof (cases "b = [NUL]")
    case True
    with "1.prems" show ?thesis by (subst (asm) decode_parameters.simps) auto
  next
    case False
    with "1.prems" obtain name an val av qs where
      b: "b \<noteq> []" "hd b \<noteq> NUL"
      and name: "take_cstring b ''parameter name is not terminated'' = Inr (name, an)"
      and val: "take_cstring an ''parameter value is missing'' = Inr (val, av)"
      and qs: "decode_parameters av = Inr qs" "ps = (name, val) # qs"
      by (subst (asm) decode_parameters.simps) (auto split: if_splits sum.splits)
    from "1.IH" [OF b(1) False b(2) name refl val refl qs(1)] take_cstring_InrD [OF name] take_cstring_InrD [OF val] b
    show ?thesis by (auto simp: qs(2) put_cstring_def)
  qed
qed

lemma version_round_trip [codec_simps]:
  "major v < 65536 \<Longrightarrow> minor v < 65536 \<Longrightarrow> ProtocolVersion_from_code (ProtocolVersion_to_code v) = v"
  by (simp add: ProtocolVersion_from_code_def ProtocolVersion_to_code_def from_be_bytes)

lemma code_round_trip:
  assumes "length code = 4"
  shows "ProtocolVersion_to_code (ProtocolVersion_from_code code) = code"
    and "minor (ProtocolVersion_from_code code) < 65536"
proof -
  have "be_bytes 2 (from_be (take 2 code)) = take 2 code" "be_bytes 2 (from_be (drop 2 code)) = drop 2 code"
    using be_bytes_from_be [of "take 2 code"] be_bytes_from_be [of "drop 2 code"] assms by simp_all
  then show "ProtocolVersion_to_code (ProtocolVersion_from_code code) = code"
    by (simp add: ProtocolVersion_from_code_def ProtocolVersion_to_code_def)
  show "minor (ProtocolVersion_from_code code) < 65536"
    using from_be_bound [of "drop 2 code"] assms by (simp add: ProtocolVersion_from_code_def)
qed

lemma special_codes:
  assumes "length code = 4"
  shows "i32_from_be_bytes code = SSL_REQUEST_CODE \<longleftrightarrow> code = put_i32 SSL_REQUEST_CODE"
    and "i32_from_be_bytes code = GSSENC_REQUEST_CODE \<longleftrightarrow> code = put_i32 GSSENC_REQUEST_CODE"
    and "i32_from_be_bytes code = CANCEL_REQUEST_CODE \<longleftrightarrow> code = put_i32 CANCEL_REQUEST_CODE"
proof -
  have "i32_from_be_bytes code = n \<longleftrightarrow> code = put_i32 n" if "is_i32 n" for n
    using i32_from_put [OF that] put_from_i32 [OF assms] by auto
  then show "i32_from_be_bytes code = SSL_REQUEST_CODE \<longleftrightarrow> code = put_i32 SSL_REQUEST_CODE"
    "i32_from_be_bytes code = GSSENC_REQUEST_CODE \<longleftrightarrow> code = put_i32 GSSENC_REQUEST_CODE"
    "i32_from_be_bytes code = CANCEL_REQUEST_CODE \<longleftrightarrow> code = put_i32 CANCEL_REQUEST_CODE"
    by (simp_all add: startup_consts is_i32_def i32_min_def i32_max_def)
qed

lemma special_distinct:
  "put_i32 SSL_REQUEST_CODE \<noteq> put_i32 GSSENC_REQUEST_CODE" "put_i32 SSL_REQUEST_CODE \<noteq> put_i32 CANCEL_REQUEST_CODE"
  "put_i32 GSSENC_REQUEST_CODE \<noteq> put_i32 CANCEL_REQUEST_CODE"
  by code_simp+

lemma special_major:
  "major (ProtocolVersion_from_code (put_i32 SSL_REQUEST_CODE)) = SPECIAL_REQUEST_MAJOR"
  "major (ProtocolVersion_from_code (put_i32 GSSENC_REQUEST_CODE)) = SPECIAL_REQUEST_MAJOR"
  "major (ProtocolVersion_from_code (put_i32 CANCEL_REQUEST_CODE)) = SPECIAL_REQUEST_MAJOR"
  by code_simp+

lemma version_not_special:
  assumes "major v = SUPPORTED_MAJOR" "minor v < 65536"
  shows "ProtocolVersion_to_code v \<noteq> put_i32 SSL_REQUEST_CODE"
    "ProtocolVersion_to_code v \<noteq> put_i32 GSSENC_REQUEST_CODE"
    "ProtocolVersion_to_code v \<noteq> put_i32 CANCEL_REQUEST_CODE"
  using special_major version_round_trip [of v] assms by (auto simp: startup_consts)

lemma length_to_code [simp]: "length (ProtocolVersion_to_code v) = 4"
  by (simp add: ProtocolVersion_to_code_def)

lemma decode_startup_code:
  "length code = 4 \<Longrightarrow> decode_startup (code @ rest) =
     (if code = put_i32 SSL_REQUEST_CODE then fixed_request rest Ssl ''SSLRequest carries bytes after the request code''
      else if code = put_i32 GSSENC_REQUEST_CODE then
        fixed_request rest GssEnc ''GSSENCRequest carries bytes after the request code''
      else if code = put_i32 CANCEL_REQUEST_CODE then map_sum id Cancel (decode_cancel_key rest)
      else (let v = ProtocolVersion_from_code code in
        if major v = SPECIAL_REQUEST_MAJOR then Inl (UnknownRequestCode (i32_from_be_bytes code))
        else if major v \<noteq> SUPPORTED_MAJOR then Inl (UnsupportedProtocolVersion v)
        else case decode_parameters rest of
          Inl e \<Rightarrow> Inl e
        | Inr ps \<Rightarrow> Inr (Startup \<lparr>version = v, parameters = ps\<rparr>)))"
  by (simp add: decode_startup_def special_codes CODE_LEN_def Let_def)

lemma decode_startup_written:
  assumes "request_ok r"
  shows "decode_startup (startup_body r) = Inr r"
proof (cases r)
  case Ssl
  with decode_startup_code [of "put_i32 SSL_REQUEST_CODE" "[]"] show ?thesis by (simp add: fixed_request_def)
next
  case GssEnc
  with decode_startup_code [of "put_i32 GSSENC_REQUEST_CODE" "[]"] special_distinct show ?thesis
    by (simp add: fixed_request_def)
next
  case (Cancel key)
  with assms have "decode_cancel_key (put_i32 (process_id key) @ put_i32 (secret_key key)) = Inr key"
    by (cases key) (simp add: decode_cancel_key_def CANCEL_KEY_LEN_def codec_simps)
  with Cancel decode_startup_code [of "put_i32 CANCEL_REQUEST_CODE"] special_distinct show ?thesis by simp
next
  case (Startup m)
  with assms have v: "major (version m) = SUPPORTED_MAJOR" "minor (version m) < 65536"
    and ps: "list_all (\<lambda>(name, value). name \<noteq> [] \<and> is_text name \<and> is_text value) (parameters m)" by auto
  have "ProtocolVersion_from_code (ProtocolVersion_to_code (version m)) = version m"
    using v by (intro version_round_trip) (simp_all add: startup_consts)
  with Startup v decode_parameters_written [OF ps] version_not_special [OF v]
    decode_startup_code [of "ProtocolVersion_to_code (version m)"]
  show ?thesis by (simp add: startup_consts Let_def)
qed

lemma decode_startup_InrD:
  assumes "decode_startup b = Inr r"
  shows "request_ok r \<and> startup_body r = b"
proof -
  let ?code = "take 4 b" and ?rest = "drop 4 b"
  have "\<not> length b < 4" using assms by (auto simp: decode_startup_def CODE_LEN_def)
  then have len: "length ?code = 4" by simp
  from assms decode_startup_code [OF len, of ?rest]
  consider (ssl) "?code = put_i32 SSL_REQUEST_CODE" "?rest = []" "r = Ssl"
    | (gss) "?code = put_i32 GSSENC_REQUEST_CODE" "?rest = []" "r = GssEnc"
    | (cancel) key where "?code = put_i32 CANCEL_REQUEST_CODE" "decode_cancel_key ?rest = Inr key" "r = Cancel key"
    | (startup) ps where "major (ProtocolVersion_from_code ?code) = SUPPORTED_MAJOR"
        "decode_parameters ?rest = Inr ps"
        "r = Startup \<lparr>version = ProtocolVersion_from_code ?code, parameters = ps\<rparr>"
    by (auto simp: Let_def fixed_request_def split: if_splits sum.splits) (cases "decode_cancel_key ?rest"; auto)
  then show ?thesis
  proof cases
    case cancel
    have "put_i32 (i32_from_be_bytes (take 4 ?rest)) @ put_i32 (i32_from_be_bytes (drop 4 ?rest)) = ?rest"
      "is_i32 (i32_from_be_bytes (take 4 ?rest))" "is_i32 (i32_from_be_bytes (drop 4 ?rest))"
      if "length ?rest = 8"
      using that by (simp_all add: put_from_i32 i32_from_be_bytes_range del: drop_drop)
    with cancel have "request_ok r" "startup_body r = ?code @ ?rest"
      by (auto simp: decode_cancel_key_def CANCEL_KEY_LEN_def simp del: append_take_drop_id drop_drop split: if_splits)
    then show ?thesis by simp
  next
    case startup
    from decode_parameters_InrD [OF startup(2)] startup code_round_trip [OF len]
    have "request_ok r" "startup_body r = ?code @ ?rest"
      by (simp_all del: append_take_drop_id)
    then show ?thesis by simp
  qed (metis append_Nil2 append_take_drop_id request_ok.simps(1,2) startup_body.simps(1,2))+
qed

text \<open>
  C37: opening packets round trip. What can be written is read back as the same request, from the
  frame on the wire and in front of any bytes; and conversely every body the decoder accepts is
  exactly what the encoder writes for the request it was read as, so no two bodies mean the same.
\<close>

theorem startup_round_trip:
  assumes "request_ok r" "encode_startup r = Some bs" "length (startup_body r) + LENGTH_FIELD_LEN \<le> max_len"
  shows "decode_startup_frame (bs @ rest) max_len = Inr (Some (startup_body r), rest)
    \<and> (decode_startup b = Inr r \<longleftrightarrow> b = startup_body r)"
proof -
  have "4 \<le> length (startup_body r)" by (cases r) simp_all
  with assms have "write_startup max_len (startup_body r) = Some bs"
    by (simp add: write_startup_def encode_startup_def framing_consts)
  with startups.decode_encoded [of max_len _ bs rest]
  have "decode_startup_frame (bs @ rest) max_len = Inr (Some (startup_body r), rest)" by blast
  with decode_startup_written [OF assms(1)] decode_startup_InrD [of b r] show ?thesis by blast
qed

theorem startup_round_trip_witness:
  "\<exists>bs. encode_startup (Startup \<lparr>version = V3_0, parameters = [(''user'', ''ann''), (''database'', [])]\<rparr>) = Some bs
    \<and> decode_startup_frame (bs @ ''Q'') 10000 = Inr (Some (startup_body
         (Startup \<lparr>version = V3_0, parameters = [(''user'', ''ann''), (''database'', [])]\<rparr>)), ''Q'')"
proof -
  let ?r = "Startup \<lparr>version = V3_0, parameters = [(''user'', ''ann''), (''database'', [])]\<rparr>"
  have "request_ok ?r" "length (startup_body ?r) + LENGTH_FIELD_LEN \<le> 10000" by code_simp+
  moreover obtain bs where bs: "encode_startup ?r = Some bs"
  proof -
    have "encode_startup ?r \<noteq> None" by code_simp
    then show ?thesis using that by blast
  qed
  ultimately show ?thesis using startup_round_trip [of ?r bs 10000 "''Q''"] by blast
qed

text \<open>
  A tenant is resolved exactly when the startup message names a user that is not empty, and the
  database defaults to the user's name.
\<close>

lemma find_key_map_of: "map_option snd (find (\<lambda>(key, _). key = name) ps) = map_of ps name"
  by (induction ps) auto

lemma tenant_from_startup:
  "TenantId_from_startup m = Inr t \<longleftrightarrow>
     map_of (parameters m) ''user'' = Some (TenantId_user t) \<and> TenantId_user t \<noteq> []
     \<and> TenantId_database t = (case map_of (parameters m) ''database'' of
         None \<Rightarrow> TenantId_user t | Some d \<Rightarrow> if d = [] then TenantId_user t else d)"
  by (cases t) (auto simp: TenantId_from_startup_def StartupMessage_user_def StartupMessage_database_def
      StartupMessage_parameter_def find_key_map_of split: option.splits if_splits)

end
