(* ===== verification/Backend.thy ===== *)
theory Backend
  imports Framing Startup
begin

text \<open>
  The messages the proxy writes to its clients itself (\<open>crates/protocol/src/backend.rs\<close>). Every
  encoder appends one frame to a buffer; it is modelled as the frame's bytes, an option because
  \<open>encode_frame\<close> panics on a body that does not fit. The body of each message is a definition of
  its own, so that the frame laws apply to all of them alike (\<open>backend_message_read\<close>).
\<close>

definition FEATURE_NOT_SUPPORTED :: string where "FEATURE_NOT_SUPPORTED = ''0A000''"
definition PROTOCOL_VIOLATION :: string where "PROTOCOL_VIOLATION = ''08P01''"
definition INVALID_AUTHORIZATION_SPECIFICATION :: string where "INVALID_AUTHORIZATION_SPECIFICATION = ''28000''"
definition INVALID_PASSWORD :: string where "INVALID_PASSWORD = ''28P01''"
definition INVALID_SQL_STATEMENT_NAME :: string where "INVALID_SQL_STATEMENT_NAME = ''26000''"
definition TOO_MANY_CONNECTIONS :: string where "TOO_MANY_CONNECTIONS = ''53300''"
definition SYNTAX_ERROR :: string where "SYNTAX_ERROR = ''42601''"
definition UNDEFINED_OBJECT :: string where "UNDEFINED_OBJECT = ''42704''"
definition INVALID_PARAMETER_VALUE :: string where "INVALID_PARAMETER_VALUE = ''22023''"

definition TEXT_OID :: nat where "TEXT_OID = 25"
definition INT8_OID :: nat where "INT8_OID = 20"

definition AUTHENTICATION_OK :: int where "AUTHENTICATION_OK = 0"
definition AUTHENTICATION_SASL :: int where "AUTHENTICATION_SASL = 10"
definition AUTHENTICATION_SASL_CONTINUE :: int where "AUTHENTICATION_SASL_CONTINUE = 11"
definition AUTHENTICATION_SASL_FINAL :: int where "AUTHENTICATION_SASL_FINAL = 12"

datatype EncryptionResponse = Accepted | Refused

fun EncryptionResponse_to_byte :: "EncryptionResponse \<Rightarrow> byte" where
  "EncryptionResponse_to_byte Accepted = CHR ''S''"
| "EncryptionResponse_to_byte Refused = CHR ''N''"

datatype Severity = Severity_Error | Severity_Fatal

fun Severity_as_str :: "Severity \<Rightarrow> string" where
  "Severity_as_str Severity_Error = ''ERROR''"
| "Severity_as_str Severity_Fatal = ''FATAL''"

record ErrorResponse =
  err_severity :: Severity
  err_code :: string
  err_message :: string
  err_detail :: "string option"
  err_hint :: "string option"

definition ErrorResponse_new :: "Severity \<Rightarrow> string \<Rightarrow> string \<Rightarrow> ErrorResponse" where
  "ErrorResponse_new severity code message =
     \<lparr>err_severity = severity, err_code = code, err_message = message, err_detail = None, err_hint = None\<rparr>"

definition ErrorResponse_error :: "string \<Rightarrow> string \<Rightarrow> ErrorResponse" where
  "ErrorResponse_error code message = ErrorResponse_new Severity_Error code message"

definition ErrorResponse_fatal :: "string \<Rightarrow> string \<Rightarrow> ErrorResponse" where
  "ErrorResponse_fatal code message = ErrorResponse_new Severity_Fatal code message"

definition with_detail :: "string \<Rightarrow> ErrorResponse \<Rightarrow> ErrorResponse" where
  "with_detail detail e = e\<lparr>err_detail := Some detail\<rparr>"

definition with_hint :: "string \<Rightarrow> ErrorResponse \<Rightarrow> ErrorResponse" where
  "with_hint hint e = e\<lparr>err_hint := Some hint\<rparr>"

record Column =
  col_name :: string
  col_oid :: nat
  col_size :: int

definition Column_text :: "string \<Rightarrow> Column" where
  "Column_text name = \<lparr>col_name = name, col_oid = TEXT_OID, col_size = - 1\<rparr>"

definition Column_count :: "string \<Rightarrow> Column" where
  "Column_count name = \<lparr>col_name = name, col_oid = INT8_OID, col_size = 8\<rparr>"

abbreviation backend_frame :: "BackendTag \<Rightarrow> bytes \<Rightarrow> bytes option" where
  "backend_frame t b \<equiv> encode_frame (BackendTag_byte t) b"

definition encode_encryption_response :: "EncryptionResponse \<Rightarrow> bytes" where
  "encode_encryption_response r = [EncryptionResponse_to_byte r]"

definition encode_authentication_ok :: "bytes option" where
  "encode_authentication_ok = backend_frame Authentication (put_i32 AUTHENTICATION_OK)"

definition authentication_sasl_body :: "bytes list \<Rightarrow> bytes" where
  "authentication_sasl_body mechanisms =
     put_i32 AUTHENTICATION_SASL @ concat (map (\<lambda>m. m @ [NUL]) mechanisms) @ [NUL]"

definition encode_authentication_sasl :: "bytes list \<Rightarrow> bytes option" where
  "encode_authentication_sasl mechanisms = backend_frame Authentication (authentication_sasl_body mechanisms)"

definition encode_authentication_sasl_data :: "int \<Rightarrow> bytes \<Rightarrow> bytes option" where
  "encode_authentication_sasl_data kind data = backend_frame Authentication (put_i32 kind @ data)"

definition encode_authentication_sasl_continue :: "bytes \<Rightarrow> bytes option" where
  "encode_authentication_sasl_continue data = encode_authentication_sasl_data AUTHENTICATION_SASL_CONTINUE data"

definition encode_authentication_sasl_final :: "bytes \<Rightarrow> bytes option" where
  "encode_authentication_sasl_final data = encode_authentication_sasl_data AUTHENTICATION_SASL_FINAL data"

definition encode_parameter_status :: "bytes \<Rightarrow> bytes \<Rightarrow> bytes option" where
  "encode_parameter_status name val = backend_frame ParameterStatus (name @ NUL # val @ [NUL])"

definition encode_backend_key_data :: "CancelKey \<Rightarrow> bytes option" where
  "encode_backend_key_data key =
     backend_frame BackendKeyData (put_i32 (process_id key) @ put_i32 (secret_key key))"

definition encode_ready_for_query :: "TransactionStatus \<Rightarrow> bytes option" where
  "encode_ready_for_query s = backend_frame ReadyForQuery [TransactionStatus_byte s]"

definition put_field :: "byte \<Rightarrow> bytes \<Rightarrow> bytes" where
  "put_field kind val = kind # val @ [NUL]"

definition error_response_body :: "ErrorResponse \<Rightarrow> bytes" where
  "error_response_body e =
     put_field CHR ''S'' (Severity_as_str (err_severity e))
     @ put_field CHR ''V'' (Severity_as_str (err_severity e))
     @ put_field CHR ''C'' (err_code e)
     @ put_field CHR ''M'' (err_message e)
     @ (case err_detail e of None \<Rightarrow> [] | Some d \<Rightarrow> put_field CHR ''D'' d)
     @ (case err_hint e of None \<Rightarrow> [] | Some h \<Rightarrow> put_field CHR ''H'' h)
     @ [NUL]"

definition encode_error_response :: "ErrorResponse \<Rightarrow> bytes option" where
  "encode_error_response e = backend_frame ErrorResponseTag (error_response_body e)"

text \<open>A count of columns or a length that does not fit is clamped to the largest number that does.\<close>

definition clamp_i16 :: "nat \<Rightarrow> int" where
  "clamp_i16 n = min (int n) 32767"

definition clamp_i32 :: "nat \<Rightarrow> int" where
  "clamp_i32 n = min (int n) i32_max"

definition row_description_body :: "Column list \<Rightarrow> bytes" where
  "row_description_body columns =
     put_i16 (clamp_i16 (length columns))
     @ concat (map (\<lambda>c. col_name c @ NUL # put_i32 0 @ put_i16 0 @ put_u32 (col_oid c) @ put_i16 (col_size c)
                        @ put_i32 (- 1) @ put_i16 0) columns)"

definition encode_row_description :: "Column list \<Rightarrow> bytes option" where
  "encode_row_description columns = backend_frame RowDescription (row_description_body columns)"

definition put_value :: "bytes option \<Rightarrow> bytes" where
  "put_value v = (case v of Some s \<Rightarrow> put_i32 (clamp_i32 (length s)) @ s | None \<Rightarrow> put_i32 (- 1))"

definition data_row_body :: "bytes option list \<Rightarrow> bytes" where
  "data_row_body values = put_i16 (clamp_i16 (length values)) @ concat (map put_value values)"

definition encode_data_row :: "bytes option list \<Rightarrow> bytes option" where
  "encode_data_row values = backend_frame DataRow (data_row_body values)"

definition encode_command_complete :: "bytes \<Rightarrow> bytes option" where
  "encode_command_complete t = backend_frame CommandComplete (t @ [NUL])"

definition encode_empty_query_response :: "bytes option" where
  "encode_empty_query_response = backend_frame EmptyQueryResponse []"

text \<open>Two messages written one after the other to the same buffer.\<close>

definition append_out :: "bytes option \<Rightarrow> bytes option \<Rightarrow> bytes option" where
  "append_out a b = (case (a, b) of (Some x, Some y) \<Rightarrow> Some (x @ y) | _ \<Rightarrow> None)"

section \<open>A client reads what was written\<close>

lemma backend_message_read:
  assumes "backend_frame t b = Some bs" "length b + 4 \<le> max_len"
  shows "decode_frame (bs @ rest) max_len = Inr (Some \<lparr>tag = BackendTag_byte t, body = b\<rparr>, rest)"
  using frames.decode_encoded [of max_len "\<lparr>tag = BackendTag_byte t, body = b\<rparr>" bs rest] assms
  by (simp add: write_frame_def LENGTH_FIELD_LEN_def)

lemma ready_for_query_read:
  "encode_ready_for_query s = Some bs \<Longrightarrow>
    \<exists>b. decode_frame (bs @ rest) MAX_MESSAGE = Inr (Some \<lparr>tag = BackendTag_byte ReadyForQuery, body = b\<rparr>, rest)
      \<and> parse_ready_for_query b = Inr s"
  unfolding encode_ready_for_query_def
  by (rule exI [of _ "[TransactionStatus_byte s]"])
    (simp add: backend_message_read MAX_MESSAGE_def TransactionStatus_round_trip)

end
