(* ===== verification/Ready.thy ===== *)
theory Ready
  imports Message
begin

text \<open>
  The tracker of the transaction boundary (\<open>crates/protocol/src/ready.rs\<close>): how many requests
  the server still owes a \<open>ReadyForQuery\<close>, whether an extended-query batch is open, the last
  transaction status and whether the client said goodbye. \<open>outstanding\<close> is a \<open>u32\<close> whose \<open>+ 1\<close>
  wraps around in a release build, so the tracker is exact for up to \<open>2^32 - 1\<close> requests of an
  assignment and \<open>tracks\<close> says so.

  The specification of the tracker is the history of the connection (\<open>exchange\<close>): the tags sent
  to the server and the statuses it answered with. \<open>tracks\<close> relates a tracker to a history, every
  operation refines the corresponding extension of the history, and \<open>may_release\<close> decides on the
  tracker exactly when the history is at a boundary.
\<close>

datatype ReadyEvent = Ready TransactionStatus

datatype TrackerError = UnexpectedReadyForQuery | TrackerMessage MessageError

record ReadyTracker =
  outstanding :: nat
  extended_open :: bool
  status :: TransactionStatus
  terminated :: bool

definition ReadyTracker_new :: ReadyTracker where
  "ReadyTracker_new = \<lparr>outstanding = 0, extended_open = False, status = Idle, terminated = False\<rparr>"

fun ReadyTracker_on_frontend :: "FrontendTag \<Rightarrow> ReadyTracker \<Rightarrow> ReadyTracker" where
  "ReadyTracker_on_frontend Query tr = tr\<lparr>outstanding := wrap_add32 (outstanding tr) 1\<rparr>"
| "ReadyTracker_on_frontend FunctionCall tr = tr\<lparr>outstanding := wrap_add32 (outstanding tr) 1\<rparr>"
| "ReadyTracker_on_frontend Sync tr = tr\<lparr>outstanding := wrap_add32 (outstanding tr) 1, extended_open := False\<rparr>"
| "ReadyTracker_on_frontend Parse tr = tr\<lparr>extended_open := True\<rparr>"
| "ReadyTracker_on_frontend Bind tr = tr\<lparr>extended_open := True\<rparr>"
| "ReadyTracker_on_frontend Describe tr = tr\<lparr>extended_open := True\<rparr>"
| "ReadyTracker_on_frontend Execute tr = tr\<lparr>extended_open := True\<rparr>"
| "ReadyTracker_on_frontend Close tr = tr\<lparr>extended_open := True\<rparr>"
| "ReadyTracker_on_frontend Flush tr = tr\<lparr>extended_open := True\<rparr>"
| "ReadyTracker_on_frontend Terminate tr = tr\<lparr>terminated := True\<rparr>"
| "ReadyTracker_on_frontend CopyData tr = tr"
| "ReadyTracker_on_frontend CopyDone tr = tr"
| "ReadyTracker_on_frontend CopyFail tr = tr"
| "ReadyTracker_on_frontend Password tr = tr"

definition ReadyTracker_on_backend ::
  "BackendTag \<Rightarrow> bytes \<Rightarrow> ReadyTracker \<Rightarrow> TrackerError + (ReadyEvent option \<times> ReadyTracker)" where
  "ReadyTracker_on_backend t b tr =
     (if t \<noteq> ReadyForQuery then Inr (None, tr)
      else if outstanding tr = 0 then Inl UnexpectedReadyForQuery
      else case parse_ready_for_query b of
        Inl e \<Rightarrow> Inl (TrackerMessage e)
      | Inr s \<Rightarrow> Inr (Some (Ready s), tr\<lparr>outstanding := outstanding tr - 1, status := s\<rparr>))"

definition ReadyTracker_may_release :: "ReadyTracker \<Rightarrow> bool" where
  "ReadyTracker_may_release tr \<longleftrightarrow>
     \<not> terminated tr \<and> outstanding tr = 0 \<and> \<not> extended_open tr \<and> status tr = Idle"

section \<open>The history of an assignment\<close>

record exchange =
  sent :: "FrontendTag list"
  answered :: "TransactionStatus list"

definition exchange_start :: exchange where
  "exchange_start = \<lparr>sent = [], answered = []\<rparr>"

text \<open>The requests the server answers with a \<open>ReadyForQuery\<close>, and the messages that open a batch.\<close>

fun owes_ready :: "FrontendTag \<Rightarrow> bool" where
  "owes_ready t \<longleftrightarrow> t \<in> {Query, FunctionCall, Sync}"

fun opens_batch :: "FrontendTag \<Rightarrow> bool" where
  "opens_batch t \<longleftrightarrow> t \<in> {Parse, Bind, Describe, Execute, Close, Flush}"

definition requests :: "FrontendTag list \<Rightarrow> nat" where
  "requests ts = length (filter owes_ready ts)"

definition batch_open :: "FrontendTag list \<Rightarrow> bool" where
  "batch_open ts \<longleftrightarrow> (\<exists>t \<in> set (takeWhile (\<lambda>t. t \<noteq> Sync) (rev ts)). opens_batch t)"

definition last_status :: "TransactionStatus list \<Rightarrow> TransactionStatus" where
  "last_status ss = (if ss = [] then Idle else last ss)"

definition at_boundary :: "exchange \<Rightarrow> bool" where
  "at_boundary h \<longleftrightarrow> requests (sent h) = length (answered h) \<and> \<not> batch_open (sent h)
     \<and> last_status (answered h) = Idle \<and> Terminate \<notin> set (sent h)"

definition tracks :: "ReadyTracker \<Rightarrow> exchange \<Rightarrow> bool" where
  "tracks tr h \<longleftrightarrow> (requests (sent h) \<le> u32_max \<longrightarrow>
     length (answered h) + outstanding tr = requests (sent h)
     \<and> extended_open tr = batch_open (sent h) \<and> status tr = last_status (answered h)
     \<and> terminated tr = (Terminate \<in> set (sent h)))"

lemma requests_snoc [simp]: "requests (ts @ [t]) = requests ts + (if owes_ready t then 1 else 0)"
  by (simp add: requests_def)

lemma batch_open_snoc [simp]: "batch_open (ts @ [t]) \<longleftrightarrow> t \<noteq> Sync \<and> (opens_batch t \<or> batch_open ts)"
  by (auto simp: batch_open_def simp del: opens_batch.simps)

lemma last_status_snoc [simp]: "last_status (ss @ [s]) = s"
  by (simp add: last_status_def)

lemma tracks_start [simp]: "tracks ReadyTracker_new exchange_start"
  by (simp add: tracks_def ReadyTracker_new_def exchange_start_def requests_def batch_open_def last_status_def)

lemma tracks_frontend:
  "tracks tr h \<Longrightarrow> tracks (ReadyTracker_on_frontend t tr) (h\<lparr>sent := sent h @ [t]\<rparr>)"
  by (cases t) (auto simp: tracks_def wrap_add32_id)

lemma tracks_backend:
  assumes "tracks tr h" "ReadyTracker_on_backend t b tr = Inr (ev, tr')"
  shows "tracks tr' (case ev of None \<Rightarrow> h | Some (Ready s) \<Rightarrow> h\<lparr>answered := answered h @ [s]\<rparr>)"
  using assms by (auto simp: ReadyTracker_on_backend_def tracks_def split: if_splits sum.splits)

lemma may_release_at_boundary:
  "tracks tr h \<Longrightarrow> requests (sent h) \<le> u32_max \<Longrightarrow> ReadyTracker_may_release tr \<longleftrightarrow> at_boundary h"
  by (auto simp: tracks_def ReadyTracker_may_release_def at_boundary_def)

end
