(* ===== verification/Listen.thy ===== *)
theory Listen
  imports Bytes
begin

text \<open>
  The scan for \<open>LISTEN\<close> statements (\<open>crates/protocol/src/listen.rs\<close>). The code walks an index
  over the bytes of the text; every loop is a function on the bytes and the index, terminating
  because the index grows towards the length.

  The specification is lexical: \<open>lexeme\<close> has the pieces SQL text is made of (words, literals,
  comments, separators), \<open>spell\<close> writes a piece out, and \<open>listens\<close> asks whether some statement
  starts with the word \<open>LISTEN\<close>. The scan answers \<open>listens\<close> on every text made of such pieces.
\<close>

definition LISTEN :: bytes where
  "LISTEN = ''listen''"

text \<open>\<open>slice::get\<close>, \<open>Iterator::position\<close> and \<open>slice::windows\<close>.\<close>

definition byte_at :: "bytes \<Rightarrow> nat \<Rightarrow> byte option" where
  "byte_at bs i = (if i < length bs then Some (bs ! i) else None)"

fun position :: "('a \<Rightarrow> bool) \<Rightarrow> 'a list \<Rightarrow> nat option" where
  "position P [] = None"
| "position P (x # xs) = (if P x then Some 0 else map_option Suc (position P xs))"

definition windows :: "nat \<Rightarrow> 'a list \<Rightarrow> 'a list list" where
  "windows n xs = map (\<lambda>i. take n (drop i xs)) [0..<length xs + 1 - n]"

abbreviation QUOTE :: byte where "QUOTE \<equiv> CHR 0x27"
abbreviation DQUOTE :: byte where "DQUOTE \<equiv> CHR 0x22"
abbreviation BACKSLASH :: byte where "BACKSLASH \<equiv> CHR 0x5C"
abbreviation NEWLINE :: byte where "NEWLINE \<equiv> CHR 0x0A"
abbreviation DASH :: byte where "DASH \<equiv> CHR ''-''"
abbreviation SLASH :: byte where "SLASH \<equiv> CHR ''/''"
abbreviation STAR :: byte where "STAR \<equiv> CHR ''*''"
abbreviation SEMICOLON :: byte where "SEMICOLON \<equiv> CHR '';''"
abbreviation DOLLAR :: byte where "DOLLAR \<equiv> CHR ''$''"

definition is_word :: "byte \<Rightarrow> bool" where
  "is_word b \<longleftrightarrow> is_ascii_alphanumeric b \<or> b = CHR ''_'' \<or> b = DOLLAR \<or> code_of b \<ge> 0x80"

function end_of_word :: "bytes \<Rightarrow> nat \<Rightarrow> nat" where
  "end_of_word bs i = (if i < length bs \<and> is_word (bs ! i) then end_of_word bs (i + 1) else i)"
  by pat_completeness auto
termination by (relation "measure (\<lambda>(bs, i). length bs - i)") auto

definition end_of_line_comment :: "bytes \<Rightarrow> nat \<Rightarrow> nat" where
  "end_of_line_comment bs i =
     (case position (\<lambda>b. b = NEWLINE) (drop i bs) of None \<Rightarrow> length bs | Some off \<Rightarrow> i + off + 1)"

text \<open>\<open>depth\<close> is a \<open>usize\<close>, and a decrement of zero would wrap around.\<close>

definition depth_down :: "nat \<Rightarrow> nat" where
  "depth_down depth = (if depth = 0 then u64_max else depth - 1)"

function block_loop :: "bytes \<Rightarrow> nat \<Rightarrow> nat \<Rightarrow> nat" where
  "block_loop bs depth cursor =
     (if cursor + 1 < length bs then
        (if bs ! cursor = SLASH \<and> bs ! (cursor + 1) = STAR then block_loop bs (depth + 1) (cursor + 2)
         else if bs ! cursor = STAR \<and> bs ! (cursor + 1) = SLASH then
           (if depth_down depth = 0 then cursor + 2 else block_loop bs (depth_down depth) (cursor + 2))
         else block_loop bs depth (cursor + 1))
      else length bs)"
  by pat_completeness auto
termination by (relation "measure (\<lambda>(bs, _, cursor). length bs - cursor)") auto

definition end_of_block_comment :: "bytes \<Rightarrow> nat \<Rightarrow> nat" where
  "end_of_block_comment bs i = block_loop bs 0 i"

definition escapes_backslashes :: "bytes \<Rightarrow> nat \<Rightarrow> bool" where
  "escapes_backslashes bs quote =
     (if quote = 0 then False
      else (let prefix = quote - 1 in
        if bs ! prefix \<noteq> CHR ''e'' \<and> bs ! prefix \<noteq> CHR ''E'' then False
        else prefix = 0 \<or> \<not> is_word (bs ! (prefix - 1))))"

function quoted_loop :: "bytes \<Rightarrow> byte \<Rightarrow> bool \<Rightarrow> nat \<Rightarrow> nat" where
  "quoted_loop bs quote escapes cursor =
     (if cursor < length bs then
        (if escapes \<and> bs ! cursor = BACKSLASH then quoted_loop bs quote escapes (cursor + 2)
         else if bs ! cursor \<noteq> quote then quoted_loop bs quote escapes (cursor + 1)
         else if byte_at bs (cursor + 1) = Some quote then quoted_loop bs quote escapes (cursor + 2)
         else cursor + 1)
      else length bs)"
  by pat_completeness auto
termination by (relation "measure (\<lambda>(bs, _, _, cursor). length bs - cursor)") auto

definition end_of_quoted :: "bytes \<Rightarrow> nat \<Rightarrow> bool \<Rightarrow> nat" where
  "end_of_quoted bs i escapes = quoted_loop bs (bs ! i) escapes (i + 1)"

definition is_tag :: "byte \<Rightarrow> bool \<Rightarrow> bool" where
  "is_tag b first \<longleftrightarrow>
     b = CHR ''_'' \<or> code_of b \<ge> 0x80 \<or> is_ascii_alphabetic b \<or> (\<not> first \<and> is_ascii_digit b)"

function tag_loop :: "bytes \<Rightarrow> nat \<Rightarrow> nat \<Rightarrow> nat" where
  "tag_loop bs i e = (if e < length bs \<and> is_tag (bs ! e) (e = i + 1) then tag_loop bs i (e + 1) else e)"
  by pat_completeness auto
termination by (relation "measure (\<lambda>(bs, _, e). length bs - e)") auto

definition end_of_dollar_quoted :: "bytes \<Rightarrow> nat \<Rightarrow> nat option" where
  "end_of_dollar_quoted bs i =
     (if bs ! i \<noteq> DOLLAR then None
      else (let e = tag_loop bs i (i + 1) in
        if byte_at bs e \<noteq> Some DOLLAR then None
        else (let tag = take (e + 1 - i) (drop i bs); body = e + 1 in
          case position (\<lambda>w. w = tag) (windows (length tag) (drop body bs)) of
            None \<Rightarrow> Some (length bs)
          | Some off \<Rightarrow> Some (body + off + length tag))))"

declare end_of_word.simps [simp del] block_loop.simps [simp del] quoted_loop.simps [simp del]
  tag_loop.simps [simp del]

text \<open>Every helper moves the index forward, which is what makes the scan terminate.\<close>

lemma end_of_word_ge: "i \<le> end_of_word bs i"
proof (induction bs i rule: end_of_word.induct)
  case (1 bs i)
  then show ?case by (subst end_of_word.simps) (auto dest: Suc_leD)
qed

lemma end_of_word_gt: "i < length bs \<Longrightarrow> is_word (bs ! i) \<Longrightarrow> i < end_of_word bs i"
  using end_of_word_ge [of "i + 1" bs] by (subst end_of_word.simps) simp

lemma end_of_line_comment_gt: "i < length bs \<Longrightarrow> i < end_of_line_comment bs i"
  by (simp add: end_of_line_comment_def split: option.split)

lemma block_loop_gt: "cursor < length bs \<Longrightarrow> cursor < block_loop bs depth cursor"
proof (induction bs depth cursor rule: block_loop.induct)
  case (1 bs depth cursor)
  show ?case
  proof (cases "cursor + 2 < length bs")
    case True
    with 1 show ?thesis by (subst block_loop.simps) (auto dest: Suc_lessD)
  next
    case False
    have "cursor < block_loop bs d (cursor + 2)" for d
      using False "1.prems" by (subst block_loop.simps) simp
    moreover have "cursor + 1 < length bs \<Longrightarrow> cursor < block_loop bs depth (cursor + 1)"
      using False by (subst block_loop.simps) simp
    ultimately show ?thesis using "1.prems" by (subst block_loop.simps) auto
  qed
qed

lemma quoted_loop_gt: "i < length bs \<Longrightarrow> i < cursor \<Longrightarrow> i < quoted_loop bs q e cursor"
proof (induction bs q e cursor rule: quoted_loop.induct)
  case (1 bs q e cursor)
  then show ?case by (subst quoted_loop.simps) auto
qed

lemma end_of_quoted_gt: "i < length bs \<Longrightarrow> i < end_of_quoted bs i e"
  by (simp add: end_of_quoted_def quoted_loop_gt)

lemma tag_loop_ge: "e \<le> tag_loop bs i e"
proof (induction bs i e rule: tag_loop.induct)
  case (1 bs i e)
  then show ?case by (subst tag_loop.simps) (auto dest: Suc_leD)
qed

lemma end_of_dollar_quoted_gt: "i < length bs \<Longrightarrow> end_of_dollar_quoted bs i = Some j \<Longrightarrow> i < j"
  using tag_loop_ge [of "i + 1" bs i]
  by (auto simp: end_of_dollar_quoted_def Let_def split: if_splits option.splits)

function scan :: "bytes \<Rightarrow> nat \<Rightarrow> bool \<Rightarrow> bool" where
  "scan bs i head =
     (if i < length bs then
        (let b = bs ! i in
         if b = DASH \<and> byte_at bs (i + 1) = Some DASH then scan bs (end_of_line_comment bs i) head
         else if b = SLASH \<and> byte_at bs (i + 1) = Some STAR then scan bs (end_of_block_comment bs i) head
         else if b = SEMICOLON then scan bs (i + 1) True
         else if is_ascii_whitespace b then scan bs (i + 1) head
         else if b = QUOTE then scan bs (end_of_quoted bs i (escapes_backslashes bs i)) False
         else if b = DQUOTE then scan bs (end_of_quoted bs i False) False
         else case end_of_dollar_quoted bs i of
           Some e \<Rightarrow> scan bs e False
         | None \<Rightarrow>
             if is_word b then
               (let e = end_of_word bs i in
                if head \<and> eq_ignore_ascii_case (take (e - i) (drop i bs)) LISTEN then True
                else scan bs e False)
             else scan bs (i + 1) False)
      else False)"
  by pat_completeness auto
termination
proof (relation "measure (\<lambda>(bs, i, _). length bs - i)", goal_cases)
  case (10 bs i head b e)
  then show ?case by (intro in_measure [THEN iffD2]) (simp add: diff_less_mono2 end_of_dollar_quoted_gt)
qed (simp_all add: end_of_block_comment_def diff_less_mono2 end_of_word_gt end_of_line_comment_gt
    block_loop_gt end_of_quoted_gt)

declare scan.simps [simp del]

definition has_listen :: "bytes \<Rightarrow> bool" where
  "has_listen sql = scan sql 0 True"

section \<open>Lexemes\<close>

text \<open>
  A quoted text is a list of pieces: a byte that stands for itself, the quote written twice, and in
  an \<open>E\<close>-literal a backslash with the byte it escapes. A block comment is a list of nested
  openings, closings and bytes.
\<close>

datatype qpiece = QByte byte | QQuote | QEscape byte
datatype cpiece = COpen | CShut | CByte byte

datatype lexeme =
    Space byte
  | Separator
  | LineComment bytes
  | BlockComment "cpiece list"
  | Literal "qpiece list"
  | EscapeLiteral byte "qpiece list"
  | QuotedName "qpiece list"
  | DollarLiteral bytes bytes
  | Word bytes
  | Parameter bytes
  | Mark byte

fun spell_q :: "byte \<Rightarrow> qpiece \<Rightarrow> bytes" where
  "spell_q q (QByte b) = [b]"
| "spell_q q QQuote = [q, q]"
| "spell_q q (QEscape b) = [BACKSLASH, b]"

fun spell_c :: "cpiece \<Rightarrow> bytes" where
  "spell_c COpen = [SLASH, STAR]"
| "spell_c CShut = [STAR, SLASH]"
| "spell_c (CByte b) = [b]"

abbreviation spell_qs :: "byte \<Rightarrow> qpiece list \<Rightarrow> bytes" where
  "spell_qs q ps \<equiv> concat (map (spell_q q) ps)"

abbreviation spell_cs :: "cpiece list \<Rightarrow> bytes" where
  "spell_cs ps \<equiv> concat (map spell_c ps)"

fun spell :: "lexeme \<Rightarrow> bytes" where
  "spell (Space b) = [b]"
| "spell Separator = [SEMICOLON]"
| "spell (LineComment t) = DASH # DASH # t @ [NEWLINE]"
| "spell (BlockComment ps) = SLASH # STAR # spell_cs ps @ [STAR, SLASH]"
| "spell (Literal ps) = QUOTE # spell_qs QUOTE ps @ [QUOTE]"
| "spell (EscapeLiteral e ps) = e # QUOTE # spell_qs QUOTE ps @ [QUOTE]"
| "spell (QuotedName ps) = DQUOTE # spell_qs DQUOTE ps @ [DQUOTE]"
| "spell (DollarLiteral t b) = (DOLLAR # t @ [DOLLAR]) @ b @ DOLLAR # t @ [DOLLAR]"
| "spell (Word w) = w"
| "spell (Parameter ds) = DOLLAR # ds"
| "spell (Mark b) = [b]"

abbreviation spell_all :: "lexeme list \<Rightarrow> bytes" where
  "spell_all ls \<equiv> concat (map spell ls)"

fun balanced :: "nat \<Rightarrow> cpiece list \<Rightarrow> bool" where
  "balanced d [] \<longleftrightarrow> d = 0"
| "balanced d (COpen # ps) \<longleftrightarrow> balanced (Suc d) ps"
| "balanced d (CShut # ps) \<longleftrightarrow> 0 < d \<and> balanced (d - 1) ps"
| "balanced d (CByte b # ps) \<longleftrightarrow> b \<noteq> STAR \<and> b \<noteq> SLASH \<and> balanced d ps"

fun fits_q :: "byte \<Rightarrow> bool \<Rightarrow> qpiece \<Rightarrow> bool" where
  "fits_q q escapes (QByte b) \<longleftrightarrow> b \<noteq> q \<and> (escapes \<longrightarrow> b \<noteq> BACKSLASH)"
| "fits_q q escapes QQuote \<longleftrightarrow> True"
| "fits_q q escapes (QEscape b) \<longleftrightarrow> escapes"

definition valid_tag :: "bytes \<Rightarrow> bool" where
  "valid_tag t \<longleftrightarrow> (\<forall>k < length t. is_tag (t ! k) (k = 0))"

definition closes_at_end :: "bytes \<Rightarrow> bytes \<Rightarrow> bool" where
  "closes_at_end delim b \<longleftrightarrow> (\<forall>i < length b. take (length delim) (drop i (b @ delim)) \<noteq> delim)"

definition is_E :: "byte \<Rightarrow> bool" where
  "is_E b \<longleftrightarrow> b = CHR ''e'' \<or> b = CHR ''E''"

definition opt_byte :: "(byte \<Rightarrow> bool) \<Rightarrow> byte option \<Rightarrow> bool" where
  "opt_byte P ob \<longleftrightarrow> (case ob of None \<Rightarrow> False | Some b \<Rightarrow> P b)"

text \<open>
  When a lexeme may stand between the byte before and the byte after it, so that the bytes cannot be
  read in another way: a word ends where no word byte follows, a quote is not followed by the same
  quote, a plain literal does not follow an \<open>e\<close>, a dash is not followed by a dash.
\<close>

fun placed :: "byte option \<Rightarrow> lexeme \<Rightarrow> byte option \<Rightarrow> bool" where
  "placed prev (Space b) next \<longleftrightarrow> is_ascii_whitespace b"
| "placed prev Separator next \<longleftrightarrow> True"
| "placed prev (LineComment t) next \<longleftrightarrow> NEWLINE \<notin> set t"
| "placed prev (BlockComment ps) next \<longleftrightarrow> balanced 0 ps"
| "placed prev (Literal ps) next \<longleftrightarrow>
     list_all (fits_q QUOTE False) ps \<and> \<not> opt_byte is_E prev \<and> next \<noteq> Some QUOTE"
| "placed prev (EscapeLiteral e ps) next \<longleftrightarrow>
     is_E e \<and> list_all (fits_q QUOTE True) ps \<and> \<not> opt_byte is_word prev \<and> next \<noteq> Some QUOTE"
| "placed prev (QuotedName ps) next \<longleftrightarrow> list_all (fits_q DQUOTE False) ps \<and> next \<noteq> Some DQUOTE"
| "placed prev (DollarLiteral t b) next \<longleftrightarrow> valid_tag t \<and> closes_at_end (DOLLAR # t @ [DOLLAR]) b"
| "placed prev (Word w) next \<longleftrightarrow>
     w \<noteq> [] \<and> list_all is_word w \<and> hd w \<noteq> DOLLAR \<and> \<not> opt_byte is_word next"
| "placed prev (Parameter ds) next \<longleftrightarrow>
     ds \<noteq> [] \<and> list_all is_ascii_digit ds \<and> \<not> opt_byte is_word next"
| "placed prev (Mark b) next \<longleftrightarrow>
     \<not> is_ascii_whitespace b \<and> \<not> is_word b \<and> b \<noteq> SEMICOLON \<and> b \<noteq> QUOTE \<and> b \<noteq> DQUOTE
     \<and> \<not> (b = DASH \<and> next = Some DASH) \<and> \<not> (b = SLASH \<and> next = Some STAR)"

definition first_byte :: "bytes \<Rightarrow> byte option" where
  "first_byte bs = (if bs = [] then None else Some (hd bs))"

definition last_byte :: "bytes \<Rightarrow> byte option" where
  "last_byte bs = (if bs = [] then None else Some (last bs))"

fun all_placed :: "byte option \<Rightarrow> lexeme list \<Rightarrow> bool" where
  "all_placed prev [] \<longleftrightarrow> True"
| "all_placed prev (l # ls) \<longleftrightarrow>
     placed prev l (first_byte (spell_all ls)) \<and> all_placed (last_byte (spell l)) ls"

text \<open>The statements of a text, and whether one of them registers a listener.\<close>

fun statements :: "lexeme list \<Rightarrow> lexeme list list" where
  "statements [] = [[]]"
| "statements (l # ls) =
     (if l = Separator then [] # statements ls
      else (l # hd (statements ls)) # tl (statements ls))"

fun is_blank :: "lexeme \<Rightarrow> bool" where
  "is_blank (Space b) = True"
| "is_blank (LineComment t) = True"
| "is_blank (BlockComment ps) = True"
| "is_blank _ = False"

definition starts_listen :: "lexeme list \<Rightarrow> bool" where
  "starts_listen st \<longleftrightarrow>
     (case dropWhile is_blank st of Word w # _ \<Rightarrow> eq_ignore_ascii_case w LISTEN | _ \<Rightarrow> False)"

definition listens :: "lexeme list \<Rightarrow> bool" where
  "listens ls \<longleftrightarrow> (\<exists>st \<in> set (statements ls). starts_listen st)"

section \<open>The helpers on spelled-out lexemes\<close>

lemma byte_at_append [simp]: "byte_at (pre @ bs) (length pre + k) = byte_at bs k"
  by (simp add: byte_at_def nth_append)

lemma byte_at_append0 [simp]: "byte_at (pre @ bs) (length pre) = first_byte bs"
  by (cases bs) (simp_all add: byte_at_def first_byte_def)

lemma byte_at_Cons1 [simp]: "byte_at (pre @ b # bs) (Suc (length pre)) = first_byte bs"
  using byte_at_append0 [of "pre @ [b]" bs] by simp

lemma first_byte_simps [simp]:
  "first_byte [] = None" "first_byte (b # bs) = Some b"
  by (simp_all add: first_byte_def)

lemma end_of_word_spelled:
  "list_all is_word w \<Longrightarrow> \<not> opt_byte is_word (first_byte post) \<Longrightarrow>
    end_of_word (pre @ w @ post) (length pre) = length pre + length w"
proof (induction w arbitrary: pre)
  case Nil
  then show ?case
    by (cases post) (subst end_of_word.simps, simp add: opt_byte_def)+
next
  case (Cons b w)
  from Cons.IH [of "pre @ [b]"] Cons.prems show ?case
    by (subst end_of_word.simps) simp
qed

lemma position_append: "\<forall>x \<in> set xs. \<not> P x \<Longrightarrow> P y \<Longrightarrow> position P (xs @ y # ys) = Some (length xs)"
  by (induction xs) auto

lemma position_newline: "NEWLINE \<notin> set t \<Longrightarrow> position (\<lambda>b. b = NEWLINE) (t @ NEWLINE # post) = Some (length t)"
  by (rule position_append) auto

lemma end_of_line_comment_spelled:
  "NEWLINE \<notin> set t \<Longrightarrow> end_of_line_comment (pre @ spell (LineComment t) @ post) (length pre)
     = length pre + length (spell (LineComment t))"
  by (simp add: end_of_line_comment_def position_newline)

lemma block_loop_spelled:
  "balanced k ps \<Longrightarrow> block_loop (pre @ spell_cs ps @ STAR # SLASH # post) (Suc k) (length pre)
     = length pre + length (spell_cs ps) + 2"
proof (induction k ps arbitrary: pre rule: balanced.induct)
  case (1 d)
  then show ?case by (subst block_loop.simps) (simp add: nth_append depth_down_def)
next
  case (2 d ps)
  from "2.IH" [of "pre @ [SLASH, STAR]"] "2.prems" show ?case
    by (subst block_loop.simps) (simp add: nth_append)
next
  case (3 d ps)
  from "3.IH" [of "pre @ [STAR, SLASH]"] "3.prems" show ?case
    by (subst block_loop.simps) (simp add: nth_append depth_down_def)
next
  case (4 d b ps)
  from "4.IH" [of "pre @ [b]"] "4.prems" show ?case
    by (subst block_loop.simps) (simp add: nth_append)
qed

lemma end_of_block_comment_spelled:
  "balanced 0 ps \<Longrightarrow> end_of_block_comment (pre @ spell (BlockComment ps) @ post) (length pre)
     = length pre + length (spell (BlockComment ps))"
  using block_loop_spelled [of 0 ps "pre @ [SLASH, STAR]" post]
  by (simp add: end_of_block_comment_def, subst block_loop.simps, simp add: nth_append)

lemma quoted_loop_spelled:
  "list_all (fits_q q e) ps \<Longrightarrow> q \<noteq> BACKSLASH \<Longrightarrow> first_byte post \<noteq> Some q \<Longrightarrow>
    quoted_loop (pre @ spell_qs q ps @ q # post) q e (length pre) = length pre + length (spell_qs q ps) + 1"
proof (induction ps arbitrary: pre)
  case Nil
  then show ?case by (subst quoted_loop.simps) simp
next
  case (Cons p ps)
  from Cons.IH [of "pre @ spell_q q p"] Cons.prems show ?case
    by (subst quoted_loop.simps) (cases p; auto simp: nth_append)
qed

lemma end_of_quoted_spelled:
  assumes "list_all (fits_q q e) ps" "q \<noteq> BACKSLASH" "first_byte post \<noteq> Some q"
  shows "end_of_quoted (pre @ q # spell_qs q ps @ q # post) (length pre) e = length pre + length (spell_qs q ps) + 2"
  using quoted_loop_spelled [OF assms, of "pre @ [q]"] by (simp add: end_of_quoted_def)

lemma tag_loop_spelled:
  assumes "\<forall>k < length t. is_tag (t ! k) (length pre + k = i + 1)"
  shows "tag_loop (pre @ t @ DOLLAR # post) i (length pre) = length pre + length t"
  using assms
proof (induction t arbitrary: pre)
  case Nil
  have "\<not> is_tag DOLLAR first" for first
    by (simp add: is_tag_def is_ascii_alphabetic_def is_ascii_digit_def in_range_def)
  then show ?case by (subst tag_loop.simps) simp
next
  case (Cons b t)
  have "tag_loop ((pre @ [b]) @ t @ DOLLAR # post) i (length (pre @ [b])) = length (pre @ [b]) + length t"
    by (rule Cons.IH) (use Cons.prems in \<open>auto simp: nth_Cons dest: spec [of _ "Suc _"]\<close>)
  with Cons.prems show ?case by (subst tag_loop.simps) (auto dest: spec [of _ 0])
qed

lemma position_windows:
  assumes "closes_at_end delim b"
  shows "position (\<lambda>w. w = delim) (windows (length delim) (b @ delim @ post)) = Some (length b)"
proof -
  let ?w = "\<lambda>i. take (length delim) (drop i (b @ delim @ post))"
  have "windows (length delim) (b @ delim @ post) = map ?w [0..<length b] @ map ?w [length b..<length b + length post + 1]"
  proof -
    have "length (b @ delim @ post) + 1 - length delim = length b + (length post + 1)" by simp
    then show ?thesis
      unfolding windows_def by (simp only: upt_add_eq_append [OF le0] map_append add.assoc)
  qed
  also have "\<dots> = map ?w [0..<length b] @ ?w (length b) # map ?w [Suc (length b)..<length b + length post + 1]"
    by (subst upt_conv_Cons) simp_all
  finally have *: "windows (length delim) (b @ delim @ post)
    = map ?w [0..<length b] @ ?w (length b) # map ?w [Suc (length b)..<length b + length post + 1]" .
  have "?w i = take (length delim) (drop i (b @ delim))" if "i < length b" for i
    using that by simp
  with assms have "\<forall>x \<in> set (map ?w [0..<length b]). x \<noteq> delim"
    unfolding closes_at_end_def by auto
  then show ?thesis unfolding * by (subst position_append) simp_all
qed

lemma end_of_dollar_quoted_spelled:
  assumes "valid_tag t" "closes_at_end (DOLLAR # t @ [DOLLAR]) b"
  shows "end_of_dollar_quoted (pre @ spell (DollarLiteral t b) @ post) (length pre)
    = Some (length pre + length (spell (DollarLiteral t b)))"
proof -
  let ?d = "DOLLAR # t @ [DOLLAR]"
  let ?bs = "pre @ ?d @ b @ ?d @ post"
  have e: "tag_loop ?bs (length pre) (length pre + 1) = length pre + 1 + length t"
    using tag_loop_spelled [of t "pre @ [DOLLAR]" "length pre" "b @ ?d @ post"] assms(1)
    by (simp add: valid_tag_def)
  have "byte_at ?bs (length pre + (1 + length t)) = Some DOLLAR"
    unfolding byte_at_append by (simp add: byte_at_def nth_append)
  with e position_windows [OF assms(2), of post] show ?thesis
    by (simp add: end_of_dollar_quoted_def Let_def nth_append)
qed

lemma no_dollar_quote:
  "b \<noteq> DOLLAR \<Longrightarrow> end_of_dollar_quoted (pre @ b # bs) (length pre) = None"
  by (simp add: end_of_dollar_quoted_def)

lemma no_dollar_parameter:
  assumes "is_ascii_digit d"
  shows "end_of_dollar_quoted (pre @ DOLLAR # d # bs) (length pre) = None"
proof -
  have "\<not> is_tag d True" "d \<noteq> DOLLAR"
    using assms by (auto simp: is_tag_def is_ascii_alphabetic_def is_ascii_digit_def in_range_def)
  then show ?thesis
    by (simp add: end_of_dollar_quoted_def tag_loop.simps [of "pre @ DOLLAR # d # bs" "length pre" "Suc (length pre)"]
        nth_append byte_at_def)
qed

section \<open>The scan on spelled-out lexemes\<close>

text \<open>What the scan does with one lexeme: skip it, or answer at once, and whether a statement may start after it.\<close>

fun head_after :: "lexeme \<Rightarrow> bool \<Rightarrow> bool" where
  "head_after Separator head = True"
| "head_after l head = (is_blank l \<and> head)"

fun answers :: "lexeme \<Rightarrow> bool \<Rightarrow> bool" where
  "answers (Word w) head = (head \<and> eq_ignore_ascii_case w LISTEN)"
| "answers l head = False"

lemma word_not_special:
  assumes "is_word b"
  shows "b \<noteq> DASH" "b \<noteq> SLASH" "b \<noteq> SEMICOLON" "\<not> is_ascii_whitespace b" "b \<noteq> QUOTE" "b \<noteq> DQUOTE"
  using assms by (auto simp: is_word_def is_ascii_alphanumeric_def is_ascii_digit_def
      is_ascii_alphabetic_def in_range_def is_ascii_whitespace_def)

lemma dollar_word: "is_word DOLLAR"
  by (simp add: is_word_def)

lemma digit_word: "is_ascii_digit b \<Longrightarrow> is_word b"
  by (simp add: is_word_def is_ascii_alphanumeric_def)

lemma E_word: "is_E b \<Longrightarrow> is_word b \<and> b \<noteq> DOLLAR \<and> \<not> eq_ignore_ascii_case [b] LISTEN"
  by (auto simp: is_E_def is_word_def is_ascii_alphanumeric_def is_ascii_alphabetic_def in_range_def
      eq_ignore_ascii_case_def LISTEN_def)

lemma scan_word:
  assumes "w \<noteq> []" "list_all is_word w" "\<not> opt_byte is_word (first_byte post)"
    and "end_of_dollar_quoted (pre @ w @ post) (length pre) = None"
  shows "scan (pre @ w @ post) (length pre) head =
    ((head \<and> eq_ignore_ascii_case w LISTEN) \<or> scan (pre @ w @ post) (length pre + length w) False)"
proof -
  from assms(1,2) obtain b v where w: "w = b # v" and b: "is_word b" by (cases w) auto
  show ?thesis
    using word_not_special [OF b] b assms(4) end_of_word_spelled [OF assms(2,3), of pre]
    by (subst scan.simps) (auto simp: w Let_def)
qed

lemma quote_not_word: "\<not> is_word QUOTE"
  by (auto dest: word_not_special)

lemma escapes_at:
  "escapes_backslashes (pre @ QUOTE # bs) (length pre) \<longleftrightarrow>
     (\<exists>q e. pre = q @ [e] \<and> is_E e \<and> \<not> opt_byte is_word (last_byte q))"
proof (cases pre rule: rev_cases)
  case Nil
  then show ?thesis by (simp add: escapes_backslashes_def)
next
  case (snoc q e)
  show ?thesis
    by (cases q rule: rev_cases)
      (simp_all add: snoc escapes_backslashes_def Let_def is_E_def nth_append last_byte_def opt_byte_def)
qed

lemma scan_literal:
  assumes "list_all (fits_q QUOTE (escapes_backslashes (pre @ QUOTE # spell_qs QUOTE ps @ QUOTE # post) (length pre))) ps"
    and "first_byte post \<noteq> Some QUOTE"
  shows "scan (pre @ QUOTE # spell_qs QUOTE ps @ QUOTE # post) (length pre) head =
    scan (pre @ QUOTE # spell_qs QUOTE ps @ QUOTE # post) (length pre + length (spell_qs QUOTE ps) + 2) False"
  using end_of_quoted_spelled [OF assms(1) _ assms(2), of pre]
  by (subst scan.simps) (simp add: Let_def is_ascii_whitespace_def)

lemma scan_escape:
  assumes e: "is_E e" and ps: "list_all (fits_q QUOTE True) ps" "first_byte post \<noteq> Some QUOTE"
    and prev: "\<not> opt_byte is_word (last_byte pre)"
  shows "scan (pre @ e # QUOTE # spell_qs QUOTE ps @ QUOTE # post) (length pre) head
    = scan (pre @ e # QUOTE # spell_qs QUOTE ps @ QUOTE # post) (Suc (Suc (Suc (length pre + length (spell_qs QUOTE ps))))) False"
proof -
  let ?lit = "QUOTE # spell_qs QUOTE ps @ QUOTE # post"
  have "scan (pre @ [e] @ ?lit) (length pre) head = scan (pre @ [e] @ ?lit) (length pre + 1) False"
    using E_word [OF e] scan_word [of "[e]" ?lit pre head] no_dollar_quote [of e pre ?lit]
    by (simp add: opt_byte_def quote_not_word)
  moreover have "escapes_backslashes ((pre @ [e]) @ ?lit) (length (pre @ [e]))"
    unfolding escapes_at using e prev by auto
  with ps have "scan ((pre @ [e]) @ ?lit) (length (pre @ [e])) False
      = scan ((pre @ [e]) @ ?lit) (length (pre @ [e]) + length (spell_qs QUOTE ps) + 2) False"
    by (intro scan_literal) simp_all
  ultimately show ?thesis by simp
qed

lemma scan_parameter:
  assumes "ds \<noteq> []" "list_all is_ascii_digit ds" "\<not> opt_byte is_word (first_byte post)"
  shows "scan (pre @ DOLLAR # ds @ post) (length pre) head = scan (pre @ DOLLAR # ds @ post) (length pre + Suc (length ds)) False"
proof -
  from assms(1,2) obtain d ds' where d: "ds = d # ds'" "is_ascii_digit d" by (cases ds) auto
  have "\<not> eq_ignore_ascii_case (DOLLAR # ds) LISTEN"
    by (simp add: eq_ignore_ascii_case_def LISTEN_def to_ascii_lowercase_def in_range_def)
  moreover have "list_all is_word (DOLLAR # ds)"
    using assms(2) dollar_word digit_word by (auto simp: list_all_iff)
  ultimately show ?thesis
    using assms(3) scan_word [of "DOLLAR # ds" post pre head] no_dollar_parameter [of d pre "ds' @ post"] d
    by simp
qed

lemma scan_lexeme:
  assumes "placed (last_byte pre) l (first_byte post)"
  shows "scan (pre @ spell l @ post) (length pre) head =
    (answers l head \<or> scan (pre @ spell l @ post) (length pre + length (spell l)) (head_after l head))"
proof (cases l)
  case (Space b)
  with assms show ?thesis
    by (subst scan.simps) (auto simp: Let_def is_ascii_whitespace_def)
next
  case Separator
  then show ?thesis by (subst scan.simps) (simp add: Let_def)
next
  case (LineComment t)
  with assms end_of_line_comment_spelled [of t pre post] show ?thesis
    by (subst scan.simps) (simp add: Let_def)
next
  case (BlockComment ps)
  with assms end_of_block_comment_spelled [of ps pre post] show ?thesis
    by (subst scan.simps) (simp add: Let_def)
next
  case (Literal ps)
  have "\<not> escapes_backslashes (pre @ QUOTE # spell_qs QUOTE ps @ QUOTE # post) (length pre)"
    using assms unfolding escapes_at by (auto simp: Literal last_byte_def opt_byte_def)
  with assms scan_literal [of pre ps post head] show ?thesis by (simp add: Literal)
next
  case (EscapeLiteral e ps)
  with assms scan_escape [of e ps post pre head] show ?thesis by simp
next
  case (QuotedName ps)
  with assms end_of_quoted_spelled [of DQUOTE False ps post pre] show ?thesis
    by (subst scan.simps) (simp add: Let_def is_ascii_whitespace_def)
next
  case (DollarLiteral t b)
  with assms end_of_dollar_quoted_spelled [of t b pre post] word_not_special [OF dollar_word] show ?thesis
    by (subst scan.simps) (simp add: Let_def)
next
  case (Word w)
  with assms obtain b v where "w = b # v" "b \<noteq> DOLLAR" by (cases w) auto
  with assms Word scan_word [of w post pre head] no_dollar_quote [of b pre "v @ post"] show ?thesis by simp
next
  case (Parameter ds)
  with assms scan_parameter [of ds post pre head] show ?thesis by auto
next
  case (Mark b)
  then have "b \<noteq> DOLLAR" using assms dollar_word by auto
  with assms Mark show ?thesis
    by (subst scan.simps) (auto simp: Let_def no_dollar_quote)
qed

lemma scan_end: "scan bs (length bs) head = False"
  by (subst scan.simps) simp

fun listens_from :: "bool \<Rightarrow> lexeme list \<Rightarrow> bool" where
  "listens_from head [] = False"
| "listens_from head (l # ls) = (answers l head \<or> listens_from (head_after l head) ls)"

lemma spell_nonempty: "placed prev l next \<Longrightarrow> spell l \<noteq> []"
  by (cases l) auto

lemma last_byte_append: "spell l \<noteq> [] \<Longrightarrow> last_byte (pre @ spell l) = last_byte (spell l)"
  by (simp add: last_byte_def)

lemma scan_lexemes:
  "all_placed (last_byte pre) ls \<Longrightarrow> scan (pre @ spell_all ls) (length pre) head = listens_from head ls"
proof (induction ls arbitrary: pre head)
  case Nil
  then show ?case using scan_end [of pre head] by simp
next
  case (Cons l ls)
  then have p: "placed (last_byte pre) l (first_byte (spell_all ls))" by simp
  from Cons.prems have "all_placed (last_byte (pre @ spell l)) ls"
    by (simp add: last_byte_append [OF spell_nonempty [OF p]])
  from Cons.IH [OF this, of "head_after l head"] scan_lexeme [OF p, of head] show ?case by simp
qed

text \<open>The scanning order agrees with the division into statements.\<close>

lemma starts_listen_Cons:
  "starts_listen (l # st) \<longleftrightarrow> (if is_blank l then starts_listen st else answers l True)"
  by (cases l) (simp_all add: starts_listen_def)

lemma statements_nonempty [simp]: "statements ls \<noteq> []"
  by (cases ls) auto

lemma listens_from_statements:
  "listens_from head ls \<longleftrightarrow>
     (head \<and> starts_listen (hd (statements ls))) \<or> (\<exists>st \<in> set (tl (statements ls)). starts_listen st)"
proof (induction ls arbitrary: head)
  case Nil
  then show ?case by (simp add: starts_listen_def)
next
  case (Cons l ls)
  obtain st sts where "statements ls = st # sts" by (cases "statements ls") auto
  then show ?case
    by (cases l) (auto simp: Cons.IH starts_listen_Cons, auto simp: starts_listen_def)
qed

lemma listens_from_True: "listens_from True ls = listens ls"
  unfolding listens_from_statements listens_def by (cases "statements ls") auto



text \<open>
  A line comment ends for the scan at a line feed only. PostgreSQL's lexer ends it at a carriage
  return as well, and since version 16 it takes a vertical tab for white space; the scan answers
  no for a \<open>LISTEN\<close> that follows either.
\<close>

theorem has_listen_misses:
  "\<not> has_listen (''--'' @ CHR 0x0D # ''LISTEN c'') \<and> \<not> has_listen (CHR 0x0B # ''LISTEN c'')"
  by code_simp

end
