(* ===== verification/Prepared.thy ===== *)
theory Prepared
  imports Frontend Listen
begin

text \<open>
  What a client may ask of an assigned server connection (\<open>crates/protocol/src/prepared.rs\<close>): the
  statements parsed on it and whether a refusal has the rest of the window discarded. The set of
  names is only inserted into, removed from and asked for membership, so it is a set.

  The specification is the list of messages that were forwarded: \<open>live\<close> are the statements they
  have left prepared. The invariant \<open>knows\<close> ties the state to it.
\<close>

datatype Verdict = Forward | Skip | Reject bytes | RejectListen

record PreparedStatements =
  parsed :: "bytes set"
  refused :: bool

definition PreparedStatements_new :: PreparedStatements where
  "PreparedStatements_new = \<lparr>parsed = {}, refused = False\<rparr>"

definition discard_until_sync :: "PreparedStatements \<Rightarrow> PreparedStatements" where
  "discard_until_sync ps = ps\<lparr>refused := True\<rparr>"

definition PreparedStatements_on_frontend ::
  "FrontendTag \<Rightarrow> bytes \<Rightarrow> PreparedStatements \<Rightarrow> FrontendError + (Verdict \<times> PreparedStatements)" where
  "PreparedStatements_on_frontend t b ps =
     (if refused ps then
        (if t \<noteq> Sync then Inr (Skip, ps) else Inr (Forward, ps\<lparr>refused := False\<rparr>))
      else case t of
        Query \<Rightarrow>
          (case decode_query b of
             Inl e \<Rightarrow> Inl e
           | Inr q \<Rightarrow> if has_listen q then Inr (RejectListen, ps) else Inr (Forward, ps))
      | Parse \<Rightarrow>
          (case decode_parse b of
             Inl e \<Rightarrow> Inl e
           | Inr p \<Rightarrow>
               if has_listen (parse_query p) then Inr (RejectListen, ps)
               else Inr (Forward, ps\<lparr>parsed := insert (parse_statement p) (parsed ps)\<rparr>))
      | Bind \<Rightarrow>
          (case decode_bind b of
             Inl e \<Rightarrow> Inl e
           | Inr st \<Rightarrow>
               if st \<notin> parsed ps then Inr (Reject st, ps\<lparr>refused := True\<rparr>) else Inr (Forward, ps))
      | Close \<Rightarrow>
          (case decode_close b of
             Inl e \<Rightarrow> Inl e
           | Inr (CloseStatement name) \<Rightarrow> Inr (Forward, ps\<lparr>parsed := parsed ps - {name}\<rparr>)
           | Inr (ClosePortal _) \<Rightarrow> Inr (Forward, ps))
      | _ \<Rightarrow> Inr (Forward, ps))"

section \<open>What the forwarded messages leave prepared\<close>

type_synonym message = "FrontendTag \<times> bytes"

fun effect :: "message \<Rightarrow> bytes set \<Rightarrow> bytes set" where
  "effect (Parse, b) names =
     (case decode_parse b of Inl _ \<Rightarrow> names | Inr p \<Rightarrow> insert (parse_statement p) names)"
| "effect (Close, b) names =
     (case decode_close b of Inr (CloseStatement name) \<Rightarrow> names - {name} | _ \<Rightarrow> names)"
| "effect _ names = names"

definition live :: "message list \<Rightarrow> bytes set" where
  "live log = fold effect log {}"

fun asks_listen :: "message \<Rightarrow> bool" where
  "asks_listen (Query, b) = (case decode_query b of Inl _ \<Rightarrow> False | Inr q \<Rightarrow> has_listen q)"
| "asks_listen (Parse, b) = (case decode_parse b of Inl _ \<Rightarrow> False | Inr p \<Rightarrow> has_listen (parse_query p))"
| "asks_listen _ = False"

fun binds :: "message \<Rightarrow> bytes option" where
  "binds (Bind, b) = (case decode_bind b of Inl _ \<Rightarrow> None | Inr st \<Rightarrow> Some st)"
| "binds _ = None"

text \<open>
  \<open>admissible\<close> says of a list of forwarded messages that each of them was fit to reach the server
  when it was forwarded.
\<close>

inductive admissible :: "message list \<Rightarrow> bool" where
  none: "admissible []"
| more: "admissible (log @ [m])"
    if "admissible log" "\<not> asks_listen m" "\<And>st. binds m = Some st \<Longrightarrow> st \<in> live log"

definition knows :: "PreparedStatements \<Rightarrow> message list \<Rightarrow> bool" where
  "knows ps log \<longleftrightarrow> parsed ps = live log \<and> admissible log"

lemma live_snoc [simp]: "live (log @ [m]) = effect m (live log)"
  by (simp add: live_def)

lemma knows_new [simp]: "knows PreparedStatements_new []"
  by (simp add: knows_def PreparedStatements_new_def live_def admissible.none)

lemma sync_harmless: "effect (Sync, b) names = names" "\<not> asks_listen (Sync, b)" "binds (Sync, b) = None"
  by simp_all

lemma knows_on_frontend:
  assumes "knows ps log" "PreparedStatements_on_frontend t b ps = Inr (v, ps')"
  shows "knows ps' (if v = Forward then log @ [(t, b)] else log)"
proof -
  have "v = Forward \<Longrightarrow> \<not> asks_listen (t, b) \<and> (\<forall>st. binds (t, b) = Some st \<longrightarrow> st \<in> parsed ps)
      \<and> parsed ps' = effect (t, b) (parsed ps)"
    and "v \<noteq> Forward \<Longrightarrow> parsed ps' = parsed ps"
    using assms(2) by (cases t; auto simp: PreparedStatements_on_frontend_def
        split: if_splits sum.splits CloseTarget.splits)+
  with assms(1) show ?thesis
    by (auto simp: knows_def intro: admissible.more)
qed

lemma knows_discard [simp]: "knows (discard_until_sync ps) log \<longleftrightarrow> knows ps log"
  by (simp add: knows_def discard_until_sync_def)

text \<open>An error leaves everything as it was, and so does the refusal of a \<open>LISTEN\<close>: the message can be judged again.\<close>

lemma reject_listen_unchanged:
  "PreparedStatements_on_frontend t b ps = Inr (RejectListen, ps') \<Longrightarrow> ps' = ps \<and> \<not> refused ps \<and> (t = Query \<or> t = Parse)"
  by (cases t) (auto simp: PreparedStatements_on_frontend_def split: if_splits sum.splits CloseTarget.splits)

lemma refused_until_sync:
  "refused ps \<Longrightarrow> PreparedStatements_on_frontend t b ps =
     (if t = Sync then Inr (Forward, ps\<lparr>refused := False\<rparr>) else Inr (Skip, ps))"
  by (simp add: PreparedStatements_on_frontend_def)

end
