(* ===== verification/Relay.thy ===== *)
theory Relay
  imports Backend Ready Prepared
begin

text \<open>
  One assignment of a server connection to a client in transaction mode
  (\<open>crates/core/src/relay.rs\<close>): the messages of the client are judged and forwarded, the replies
  of the server are copied back, and the assignment ends at a transaction boundary.

  The loop of \<open>serve_assignment\<close> is driven by what its \<open>select!\<close> receives, so \<open>serve\<close> takes the
  sequence of those events: bytes read from the client and bytes read from the server, an empty
  read being the end of that stream. \<open>relay\<close> is the state between two events, with the bytes
  written so far to the server and to the client and the bytes read from the server; an
  \<open>expect\<close> that fails is the error \<open>RelayPanic\<close>. Reading and writing may also fail, which ends
  the assignment with an error whatever the state; that is the event \<open>IoFailure\<close>.
\<close>

datatype RelayError =
    RelayIo
  | RelayFrame FrameError
  | RelayMessage MessageError
  | RelayFrontend FrontendError
  | RelayTracker TrackerError
  | ServerClosed
  | RelayPanic

datatype Boundary = Released | ClientClosed bool

datatype Requests = Drained | Answered | Terminated

definition listen_unsupported :: ErrorResponse where
  "listen_unsupported =
     with_hint
       ''Run this tenant in session mode if the client has to listen, or poll for the change the notification announces. NOTIFY needs no registration and crosses unchanged.''
       (with_detail
         ''PgSteward hands the server connection to the next client at every transaction boundary in transaction mode, and the reset in between runs UNLISTEN *: a registration made here would stop receiving notifications with nothing to show for it.''
         (ErrorResponse_error FEATURE_NOT_SUPPORTED ''LISTEN is not supported on a pooled server connection''))"

definition no_such_statement :: "bytes \<Rightarrow> ErrorResponse" where
  "no_such_statement statement =
     with_hint
       ''Turn them off in the client (Prisma: ?pgbouncer=true, JDBC: prepareThreshold=0, asyncpg: statement_cache_size=0, sqlx: statement_cache_capacity=0), or run this tenant in session mode.''
       (with_detail
         ''PgSteward does not support server-side prepared statements in transaction mode: a connection is handed to the next client at every transaction boundary, and the reset in between deallocates whatever was prepared on it.''
         (ErrorResponse_error INVALID_SQL_STATEMENT_NAME
           (''prepared statement '' @ [DQUOTE] @ statement @ [DQUOTE] @ '' does not exist on this server connection'')))"

section \<open>Forwarding the client's requests\<close>

text \<open>The variables of \<open>forward_requests\<close>.\<close>

record forwarding =
  fw_pending :: bytes
  fw_tracker :: ReadyTracker
  fw_statements :: PreparedStatements
  fw_out :: bytes
  fw_refusals :: bytes
  fw_requests :: Requests

definition push :: "bytes option \<Rightarrow> bytes \<Rightarrow> RelayError + bytes" where
  "push written out = (case written of None \<Rightarrow> Inl RelayPanic | Some bs \<Rightarrow> Inr (out @ bs))"

definition hold :: "Frame \<Rightarrow> bytes \<Rightarrow> RelayError + bytes" where
  "hold frame rest = map_sum id (\<lambda>held. held @ rest) (push (encode_frame (tag frame) (body frame)) [])"

definition refuse :: "bytes option \<Rightarrow> forwarding \<Rightarrow> RelayError + forwarding" where
  "refuse written f = map_sum id (\<lambda>r. f\<lparr>fw_refusals := r\<rparr>) (push written (fw_refusals f))"

text \<open>The body of the loop: go on (\<open>True\<close>) or leave it (\<open>False\<close>).\<close>

definition forward_one :: "Frame \<Rightarrow> forwarding \<Rightarrow> RelayError + (bool \<times> forwarding)" where
  "forward_one frame f =
     (case FrontendTag_try_from (tag frame) of
        Inl e \<Rightarrow> Inl (RelayMessage e)
      | Inr t \<Rightarrow>
          if t = Terminate then Inr (False, f\<lparr>fw_requests := Terminated\<rparr>)
          else case PreparedStatements_on_frontend t (body frame) (fw_statements f) of
            Inl e \<Rightarrow> Inl (RelayFrontend e)
          | Inr (verdict, ps) \<Rightarrow>
              (let f = f\<lparr>fw_statements := ps\<rparr> in
               case verdict of
                 Forward \<Rightarrow>
                   (case push (encode_frame (tag frame) (body frame)) (fw_out f) of
                      Inl e \<Rightarrow> Inl e
                    | Inr out \<Rightarrow>
                        Inr (True, f\<lparr>fw_tracker := ReadyTracker_on_frontend t (fw_tracker f), fw_out := out\<rparr>))
               | Skip \<Rightarrow> Inr (True, f)
               | Reject statement \<Rightarrow>
                   map_sum id (Pair True) (refuse (encode_error_response (no_such_statement statement)) f)
               | RejectListen \<Rightarrow>
                   if t = Query then
                     (if outstanding (fw_tracker f) > 0 then
                        (case hold frame (fw_pending f) of
                           Inl e \<Rightarrow> Inl e
                         | Inr held \<Rightarrow> Inr (False, f\<lparr>fw_pending := held\<rparr>))
                      else case refuse (encode_error_response listen_unsupported) f of
                        Inl e \<Rightarrow> Inl e
                      | Inr f \<Rightarrow>
                          (case refuse (encode_ready_for_query (status (fw_tracker f))) f of
                             Inl e \<Rightarrow> Inl e
                           | Inr f \<Rightarrow> Inr (True, f\<lparr>fw_requests := Answered\<rparr>)))
                   else map_sum id (Pair True)
                     (refuse (encode_error_response listen_unsupported)
                       (f\<lparr>fw_statements := discard_until_sync (fw_statements f)\<rparr>))))"

lemma refuse_InrD: "refuse w f = Inr f' \<Longrightarrow> \<exists>r. f' = f\<lparr>fw_refusals := r\<rparr>"
  by (auto simp: refuse_def push_def split: option.splits)

lemma map_sum_Inr: "map_sum id g x = Inr y \<longleftrightarrow> (\<exists>z. x = Inr z \<and> y = g z)"
  by (cases x) auto

lemma forward_one_goes_on: "forward_one frame f = Inr (True, f') \<Longrightarrow> fw_pending f' = fw_pending f"
  by (auto simp: forward_one_def Let_def map_sum_Inr split: sum.splits if_splits Verdict.splits
      dest!: refuse_InrD)

function forward_loop :: "forwarding \<Rightarrow> RelayError + forwarding" where
  "forward_loop f =
     (case decode_frame (fw_pending f) MAX_MESSAGE of
        Inl e \<Rightarrow> Inl (RelayFrame e)
      | Inr (None, _) \<Rightarrow> Inr f
      | Inr (Some frame, rest) \<Rightarrow>
          (case forward_one frame (f\<lparr>fw_pending := rest\<rparr>) of
             Inl e \<Rightarrow> Inl e
           | Inr (go_on, f') \<Rightarrow> if go_on then forward_loop f' else Inr f'))"
  by pat_completeness auto
termination
  by (relation "measure (\<lambda>f. length (fw_pending f))")
    (auto dest!: forward_one_goes_on frames.decode_smaller)

declare forward_loop.simps [simp del]

section \<open>Copying the server's replies\<close>

function relay_replies :: "Frame \<Rightarrow> bytes \<Rightarrow> ReadyTracker \<Rightarrow> bytes \<Rightarrow> RelayError + (bool \<times> bytes \<times> ReadyTracker \<times> bytes)" where
  "relay_replies frame buf tr out =
     (case (case BackendTag_try_from (tag frame) of
              Inl _ \<Rightarrow> Inr (False, tr)
            | Inr t \<Rightarrow>
                (case ReadyTracker_on_backend t (body frame) tr of
                   Inl e \<Rightarrow> Inl (RelayTracker e)
                 | Inr (ev, tr') \<Rightarrow> Inr (ev \<noteq> None, tr'))) of
        Inl e \<Rightarrow> Inl e
      | Inr (ready, tr') \<Rightarrow>
          (case push (encode_frame (tag frame) (body frame)) out of
             Inl e \<Rightarrow> Inl e
           | Inr out' \<Rightarrow>
               if ready \<and> ReadyTracker_may_release tr' then Inr (True, buf, tr', out')
               else case decode_frame buf MAX_MESSAGE of
                 Inl _ \<Rightarrow> Inl RelayIo
               | Inr (None, _) \<Rightarrow> Inr (False, buf, tr', out')
               | Inr (Some next, rest) \<Rightarrow> relay_replies next rest tr' out'))"
  by pat_completeness auto
termination
  by (relation "measure (\<lambda>(_, buf, _, _). length buf)") (auto dest: frames.decode_smaller)

declare relay_replies.simps [simp del]

section \<open>Serving an assignment\<close>

datatype client_out = Relayed bytes | Refusal bytes

record relay =
  pending :: bytes
  read_buf :: bytes
  tracker :: ReadyTracker
  prepared :: PreparedStatements
  to_server :: bytes
  to_client :: "client_out list"
  server_in :: bytes

datatype relay_event = ClientRead bytes | ServerRead bytes | IoFailure

datatype outcome = Waiting relay | Ended Boundary relay | Broken RelayError

definition relay_start :: "bytes \<Rightarrow> bytes \<Rightarrow> relay" where
  "relay_start client_bytes server_bytes =
     \<lparr>pending = client_bytes, read_buf = server_bytes, tracker = ReadyTracker_new,
      prepared = PreparedStatements_new, to_server = [], to_client = [], server_in = server_bytes\<rparr>"

definition forward_requests :: "relay \<Rightarrow> RelayError + (Requests \<times> relay)" where
  "forward_requests s =
     (case forward_loop \<lparr>fw_pending = pending s, fw_tracker = tracker s, fw_statements = prepared s,
                         fw_out = [], fw_refusals = [], fw_requests = Drained\<rparr> of
        Inl e \<Rightarrow> Inl e
      | Inr f \<Rightarrow>
          Inr (fw_requests f,
            s\<lparr>pending := fw_pending f, tracker := fw_tracker f, prepared := fw_statements f,
              to_server := to_server s @ fw_out f,
              to_client := to_client s @ (if fw_refusals f = [] then [] else [Refusal (fw_refusals f)])\<rparr>))"

text \<open>The head of the loop: forward what is pending, then leave at a boundary or wait.\<close>

definition loop_head :: "relay \<Rightarrow> outcome" where
  "loop_head s =
     (case forward_requests s of
        Inl e \<Rightarrow> Broken e
      | Inr (Terminated, s') \<Rightarrow> Ended (ClientClosed (ReadyTracker_may_release (tracker s'))) s'
      | Inr (Answered, s') \<Rightarrow>
          if ReadyTracker_may_release (tracker s') then Ended Released s' else Waiting s'
      | Inr (Drained, s') \<Rightarrow> Waiting s')"

definition on_replies :: "Frame \<Rightarrow> relay \<Rightarrow> outcome" where
  "on_replies frame s =
     (case relay_replies frame (read_buf s) (tracker s) [] of
        Inl e \<Rightarrow> Broken e
      | Inr (released, buf, tr, out) \<Rightarrow>
          (let s' = s\<lparr>read_buf := buf, tracker := tr, to_client := to_client s @ [Relayed out]\<rparr> in
           if released then Ended Released s' else loop_head s'))"

text \<open>
  \<open>read_frame\<close>, polled once: a frame that is already buffered comes without a read, and after a
  read the buffer is looked at again. The argument of \<open>ServerRead\<close> is what a read would return.
\<close>

fun on_event :: "relay_event \<Rightarrow> relay \<Rightarrow> outcome" where
  "on_event IoFailure s = Broken RelayIo"
| "on_event (ClientRead chunk) s =
     (if chunk = [] then Ended (ClientClosed (ReadyTracker_may_release (tracker s))) s
      else loop_head (s\<lparr>pending := pending s @ chunk\<rparr>))"
| "on_event (ServerRead chunk) s =
     (case decode_frame (read_buf s) MAX_MESSAGE of
        Inl _ \<Rightarrow> Broken RelayIo
      | Inr (Some frame, rest) \<Rightarrow> on_replies frame (s\<lparr>read_buf := rest\<rparr>)
      | Inr (None, _) \<Rightarrow>
          if chunk = [] then Broken ServerClosed
          else (let s = s\<lparr>read_buf := read_buf s @ chunk, server_in := server_in s @ chunk\<rparr> in
            case decode_frame (read_buf s) MAX_MESSAGE of
              Inl _ \<Rightarrow> Broken RelayIo
            | Inr (Some frame, rest) \<Rightarrow> on_replies frame (s\<lparr>read_buf := rest\<rparr>)
            | Inr (None, _) \<Rightarrow> Waiting s))"

fun serve_events :: "relay_event list \<Rightarrow> outcome \<Rightarrow> outcome" where
  "serve_events (e # es) (Waiting s) = serve_events es (on_event e s)"
| "serve_events _ out = out"

definition serve_assignment :: "relay_event list \<Rightarrow> bytes \<Rightarrow> bytes \<Rightarrow> outcome" where
  "serve_assignment es client_bytes server_bytes =
     serve_events es (loop_head (relay_start client_bytes server_bytes))"

text \<open>What \<open>transaction_mode\<close> does with the server connection afterwards, and whether it serves on.\<close>

datatype Disposal = Release_and_go_on | Release_and_stop | Discard_and_stop

fun after_serve :: "outcome \<Rightarrow> Disposal option" where
  "after_serve (Ended Released _) = Some Release_and_go_on"
| "after_serve (Ended (ClientClosed True) _) = Some Release_and_stop"
| "after_serve (Ended (ClientClosed False) _) = Some Discard_and_stop"
| "after_serve (Broken _) = Some Discard_and_stop"
| "after_serve (Waiting _) = None"

section \<open>The history of an assignment\<close>

text \<open>
  \<open>relay_inv s ms rs\<close>: the bytes written to the server are exactly the messages \<open>ms\<close>, each of them
  fit to be forwarded; the replies copied to the client are exactly the frames \<open>rs\<close>, and with
  what is still buffered they are exactly what was read from the server; and the tracker stands for
  the exchange of \<open>ms\<close> and the \<open>ReadyForQuery\<close> frames among \<open>rs\<close>.
\<close>

fun msg_frame :: "message \<Rightarrow> Frame" where
  "msg_frame (t, b) = \<lparr>tag = FrontendTag_byte t, body = b\<rparr>"

fun ready_of :: "Frame list \<Rightarrow> TransactionStatus list" where
  "ready_of [] = []"
| "ready_of (f # fs) =
     (if tag f = BackendTag_byte ReadyForQuery
      then (case parse_ready_for_query (body f) of Inl _ \<Rightarrow> [] | Inr s \<Rightarrow> [s]) else []) @ ready_of fs"

fun relayed :: "client_out list \<Rightarrow> bytes" where
  "relayed [] = []"
| "relayed (Relayed bs # os) = bs @ relayed os"
| "relayed (Refusal bs # os) = relayed os"

abbreviation written :: "Frame list \<Rightarrow> bytes \<Rightarrow> bool" where
  "written fs bs \<equiv> encode_all (write_frame MAX_MESSAGE) fs = Some bs"

abbreviation exchange_of :: "message list \<Rightarrow> Frame list \<Rightarrow> exchange" where
  "exchange_of ms rs \<equiv> \<lparr>sent = map fst ms, answered = ready_of rs\<rparr>"

definition relay_inv :: "relay \<Rightarrow> message list \<Rightarrow> Frame list \<Rightarrow> bool" where
  "relay_inv s ms rs \<longleftrightarrow> written (map msg_frame ms) (to_server s) \<and> knows (prepared s) ms
     \<and> written rs (relayed (to_client s)) \<and> relayed (to_client s) @ read_buf s = server_in s
     \<and> tracks (tracker s) (exchange_of ms rs)"

lemma ready_of_append [simp]: "ready_of (fs @ gs) = ready_of fs @ ready_of gs"
  by (induction fs) auto

lemma relayed_append [simp]: "relayed (os @ ps) = relayed os @ relayed ps"
  by (induction os rule: relayed.induct) auto

lemma push_InrD: "push w out = Inr out' \<Longrightarrow> \<exists>bs. w = Some bs \<and> out' = out @ bs"
  by (auto simp: push_def split: option.splits)

lemma relay_inv_start: "relay_inv (relay_start c b) [] []"
  using tracks_start by (simp add: relay_inv_def relay_start_def exchange_start_def)

subsection \<open>Forwarding\<close>

definition fw_inv :: "bytes \<Rightarrow> TransactionStatus list \<Rightarrow> message list \<Rightarrow> forwarding \<Rightarrow> bool" where
  "fw_inv base ss ms f \<longleftrightarrow> written (map msg_frame ms) (base @ fw_out f) \<and> knows (fw_statements f) ms
     \<and> tracks (fw_tracker f) \<lparr>sent = map fst ms, answered = ss\<rparr>"

lemma fw_inv_refuse: "refuse w f = Inr f' \<Longrightarrow> fw_inv base ss ms f' = fw_inv base ss ms f"
  by (auto simp: fw_inv_def dest!: refuse_InrD)

lemma fw_inv_statements:
  "fw_inv base ss ms f \<Longrightarrow> knows ps ms \<Longrightarrow> fw_inv base ss ms (f\<lparr>fw_statements := ps\<rparr>)"
  by (simp add: fw_inv_def)

lemma fw_inv_forward:
  assumes "fw_inv base ss ms f" "write_frame MAX_MESSAGE \<lparr>tag = FrontendTag_byte t, body = b\<rparr> = Some bs"
    and "knows ps (ms @ [(t, b)])"
  shows "fw_inv base ss (ms @ [(t, b)])
    (f\<lparr>fw_statements := ps, fw_tracker := ReadyTracker_on_frontend t (fw_tracker f), fw_out := fw_out f @ bs\<rparr>)"
proof -
  have "written (map msg_frame ms @ [msg_frame (t, b)]) ((base @ fw_out f) @ bs)"
    by (rule encode_all_snoc) (use assms in \<open>simp_all add: fw_inv_def\<close>)
  with assms tracks_frontend [of "fw_tracker f" "\<lparr>sent = map fst ms, answered = ss\<rparr>" t] show ?thesis
    by (simp add: fw_inv_def)
qed

lemma fw_inv_one:
  assumes inv: "fw_inv base ss ms f" and w: "write_frame MAX_MESSAGE frame = Some bs"
    and one: "forward_one frame f = Inr (go_on, f')"
  shows "\<exists>ms'. fw_inv base ss ms' f'"
proof -
  from one obtain t where t: "tag frame = FrontendTag_byte t"
    by (auto simp: forward_one_def FrontendTag_try_from_Inr split: sum.splits)
  then have tag: "FrontendTag_try_from (tag frame) = Inr t" by (simp add: FrontendTag_try_from_Inr)
  have enc: "encode_frame (tag frame) (body frame) = Some bs"
    using w by (simp add: write_frame_def split: if_splits)
  show ?thesis
  proof (cases "t = Terminate")
    case True
    with one inv show ?thesis by (auto simp: forward_one_def tag fw_inv_def)
  next
    case False
    with one obtain v ps where
      j: "PreparedStatements_on_frontend t (body frame) (fw_statements f) = Inr (v, ps)"
      by (auto simp: forward_one_def tag split: sum.splits)
    have k: "knows ps (if v = Forward then ms @ [(t, body frame)] else ms)"
      using inv j by (intro knows_on_frontend) (simp_all add: fw_inv_def)
    show ?thesis
    proof (cases v)
      case Forward
      with one j False enc have "f' = f\<lparr>fw_statements := ps,
          fw_tracker := ReadyTracker_on_frontend t (fw_tracker f), fw_out := fw_out f @ bs\<rparr>"
        by (auto simp: forward_one_def tag push_def)
      moreover have "write_frame MAX_MESSAGE \<lparr>tag = FrontendTag_byte t, body = body frame\<rparr> = Some bs"
        using t w by (cases frame) simp
      moreover have "knows ps (ms @ [(t, body frame)])" using k Forward by simp
      ultimately show ?thesis using fw_inv_forward [OF inv] by blast
    next
      case Skip
      with one j False k fw_inv_statements [OF inv, of ps] show ?thesis
        by (auto simp: forward_one_def tag)
    next
      case (Reject st)
      with one j False k fw_inv_statements [OF inv, of ps] show ?thesis
        by (auto simp: forward_one_def tag map_sum_Inr fw_inv_refuse)
    next
      case RejectListen
      then have "knows (discard_until_sync ps) ms" "knows ps ms" using k by simp_all
      then have i: "fw_inv base ss ms (f\<lparr>fw_statements := ps\<rparr>)"
        "fw_inv base ss ms (f\<lparr>fw_statements := discard_until_sync ps\<rparr>)"
        using inv by (simp_all add: fw_inv_statements)
      with one j False RejectListen show ?thesis
        by (auto simp: forward_one_def tag Let_def map_sum_Inr fw_inv_refuse split: if_splits sum.splits)
          (auto simp: fw_inv_def dest!: refuse_InrD)
    qed
  qed
qed

lemma fw_inv_pending [simp]: "fw_inv base ss ms (f\<lparr>fw_pending := p\<rparr>) = fw_inv base ss ms f"
  by (simp add: fw_inv_def)

lemma fw_inv_loop:
  "fw_inv base ss ms f \<Longrightarrow> forward_loop f = Inr f' \<Longrightarrow> \<exists>ms'. fw_inv base ss ms' f'"
proof (induction f arbitrary: ms f' rule: forward_loop.induct)
  case (1 f)
  show ?case
  proof (cases "\<exists>frame rest. decode_frame (fw_pending f) MAX_MESSAGE = Inr (Some frame, rest)")
    case False
    with "1.prems"(2) have "f' = f"
      by (subst (asm) forward_loop.simps) (auto split: sum.splits option.splits)
    with "1.prems"(1) show ?thesis by blast
  next
    case True
    then obtain frame rest where d: "decode_frame (fw_pending f) MAX_MESSAGE = Inr (Some frame, rest)" by blast
    with "1.prems"(2) obtain go_on f1 where
      one: "forward_one frame (f\<lparr>fw_pending := rest\<rparr>) = Inr (go_on, f1)"
      and rest: "(if go_on then forward_loop f1 else Inr f1) = Inr f'"
      by (subst (asm) forward_loop.simps) (auto split: sum.splits)
    obtain bs where "write_frame MAX_MESSAGE frame = Some bs" using frames.decode_written [OF d] by blast
    from fw_inv_one [OF _ this one] "1.prems"(1) obtain ms1 where "fw_inv base ss ms1 f1" by fastforce
    with "1.IH" [OF d refl refl one refl] rest show ?thesis by (auto split: if_splits)
  qed
qed

lemma relay_inv_forward:
  assumes "relay_inv s ms rs" "forward_requests s = Inr (r, s')"
  shows "\<exists>ms'. relay_inv s' ms' rs"
proof -
  let ?f = "\<lparr>fw_pending = pending s, fw_tracker = tracker s, fw_statements = prepared s,
     fw_out = [], fw_refusals = [], fw_requests = Drained\<rparr>"
  from assms(2) obtain f where loop: "forward_loop ?f = Inr f"
    and s': "s' = s\<lparr>pending := fw_pending f, tracker := fw_tracker f, prepared := fw_statements f,
      to_server := to_server s @ fw_out f,
      to_client := to_client s @ (if fw_refusals f = [] then [] else [Refusal (fw_refusals f)])\<rparr>"
    by (auto simp: forward_requests_def split: sum.splits)
  have "fw_inv (to_server s) (ready_of rs) ms ?f"
    using assms(1) by (simp add: relay_inv_def fw_inv_def)
  from fw_inv_loop [OF this loop] obtain ms' where "fw_inv (to_server s) (ready_of rs) ms' f" by blast
  with assms(1) have "relay_inv s' ms' rs" by (simp add: relay_inv_def fw_inv_def s')
  then show ?thesis by blast
qed

subsection \<open>Replies\<close>

text \<open>One reply: the tracker follows the exchange, and only a \<open>ReadyForQuery\<close> can be a boundary.\<close>

lemma tracks_reply:
  assumes "tracks tr \<lparr>sent = ts, answered = ready_of rs\<rparr>"
    and "(case BackendTag_try_from (tag frame) of
            Inl _ \<Rightarrow> Inr (False, tr)
          | Inr t \<Rightarrow>
              (case ReadyTracker_on_backend t (body frame) tr of
                 Inl e \<Rightarrow> Inl (RelayTracker e)
               | Inr (ev, tr') \<Rightarrow> Inr (ev \<noteq> None, tr'))) = Inr (ready, tr')"
  shows "tracks tr' \<lparr>sent = ts, answered = ready_of (rs @ [frame])\<rparr>"
proof (cases "BackendTag_try_from (tag frame)")
  case (Inl e)
  then have "tag frame \<noteq> BackendTag_byte ReadyForQuery" by (auto simp: codec_simps)
  with assms Inl show ?thesis by simp
next
  case (Inr t)
  then have t: "tag frame = BackendTag_byte t" by (simp add: BackendTag_try_from_Inr)
  have same: "tag frame = BackendTag_byte ReadyForQuery \<longleftrightarrow> t = ReadyForQuery"
    by (simp add: t BackendTag_byte_def backend_tags.tag_byte_inj)
  from assms(2) Inr obtain ev where ev: "ReadyTracker_on_backend t (body frame) tr = Inr (ev, tr')"
    by (auto split: sum.splits)
  from tracks_backend [OF assms(1) ev] ev show ?thesis
    by (auto simp: same ReadyTracker_on_backend_def split: if_splits sum.splits)
qed

lemma relay_replies_inv:
  assumes "relay_replies frame buf tr out = Inr (released, buf', tr', out')"
    and "write_frame MAX_MESSAGE frame = Some bs" "written rs (base @ out)"
    and "tracks tr (exchange_of ms rs)"
  shows "\<exists>rs'. written rs' (base @ out') \<and> tracks tr' (exchange_of ms rs')
    \<and> out' @ buf' = out @ bs @ buf \<and> (released \<longrightarrow> ReadyTracker_may_release tr')"
  using assms
proof (induction frame buf tr out arbitrary: bs rs rule: relay_replies.induct)
  case (1 frame buf tr out)
  have enc: "encode_frame (tag frame) (body frame) = Some bs"
    using "1.prems"(2) by (simp add: write_frame_def split: if_splits)
  from "1.prems"(1) obtain ready tr1 where
    one: "(case BackendTag_try_from (tag frame) of
            Inl _ \<Rightarrow> Inr (False, tr)
          | Inr t \<Rightarrow>
              (case ReadyTracker_on_backend t (body frame) tr of
                 Inl e \<Rightarrow> Inl (RelayTracker e)
               | Inr (ev, tr') \<Rightarrow> Inr (ev \<noteq> None, tr'))) = Inr (ready, tr1)"
    by (subst (asm) relay_replies.simps) (auto split: sum.splits)
  have tr1: "tracks tr1 (exchange_of ms (rs @ [frame]))"
    using tracks_reply [OF "1.prems"(4) one] .
  have out1: "written (rs @ [frame]) (base @ out @ bs)"
    using encode_all_snoc [OF "1.prems"(3,2)] by simp
  have rec: "(if ready \<and> ReadyTracker_may_release tr1 then Inr (True, buf, tr1, out @ bs)
       else case decode_frame buf MAX_MESSAGE of
          Inl _ \<Rightarrow> Inl RelayIo
        | Inr (None, _) \<Rightarrow> Inr (False, buf, tr1, out @ bs)
        | Inr (Some next, rest) \<Rightarrow> relay_replies next rest tr1 (out @ bs)) = Inr (released, buf', tr', out')"
    using "1.prems"(1) unfolding relay_replies.simps [of frame buf tr out] one by (simp add: enc push_def)
  show ?case
  proof (cases "\<exists>next rest. \<not> (ready \<and> ReadyTracker_may_release tr1)
      \<and> decode_frame buf MAX_MESSAGE = Inr (Some next, rest)")
    case False
    with rec tr1 out1 show ?thesis
      by (intro exI [of _ "rs @ [frame]"]) (auto split: if_splits sum.splits option.splits)
  next
    case True
    then obtain nxt rest where n: "\<not> (ready \<and> ReadyTracker_may_release tr1)"
      "decode_frame buf MAX_MESSAGE = Inr (Some nxt, rest)" by blast
    from frames.decode_written [OF n(2)] obtain bs1 where
      bs1: "write_frame MAX_MESSAGE nxt = Some bs1" "buf = bs1 @ rest" by blast
    have p: "push (encode_frame (tag frame) (body frame)) out = Inr (out @ bs)"
      by (simp add: enc push_def)
    from n rec have "relay_replies nxt rest tr1 (out @ bs) = Inr (released, buf', tr', out')" by auto
    from "1.IH" [OF one refl p n(1) n(2) refl refl this bs1(1) out1 tr1] show ?thesis by (simp add: bs1(2))
  qed
qed

subsection \<open>The loop\<close>

fun outcome_inv :: "outcome \<Rightarrow> bool" where
  "outcome_inv (Waiting s) \<longleftrightarrow> (\<exists>ms rs. relay_inv s ms rs)"
| "outcome_inv (Ended b s) \<longleftrightarrow>
     (\<exists>ms rs. relay_inv s ms rs) \<and> (b \<noteq> ClientClosed False \<longrightarrow> ReadyTracker_may_release (tracker s))"
| "outcome_inv (Broken e) \<longleftrightarrow> True"

lemma loop_head_inv:
  assumes "relay_inv s ms rs"
  shows "outcome_inv (loop_head s)"
proof (cases "forward_requests s")
  case (Inr x)
  then obtain r s' where x: "forward_requests s = Inr (r, s')" by (cases x) auto
  from relay_inv_forward [OF assms x] show ?thesis
    by (auto simp: loop_head_def x split: Requests.splits)
qed (simp add: loop_head_def)

lemma on_replies_inv:
  assumes "relay_inv (s\<lparr>read_buf := bs @ read_buf s\<rparr>) ms rs" "write_frame MAX_MESSAGE frame = Some bs"
  shows "outcome_inv (on_replies frame s)"
proof (cases "relay_replies frame (read_buf s) (tracker s) []")
  case (Inr x)
  then obtain released buf tr out where
    x: "relay_replies frame (read_buf s) (tracker s) [] = Inr (released, buf, tr, out)" by (cases x) auto
  have "written rs (relayed (to_client s) @ [])" "tracks (tracker s) (exchange_of ms rs)"
    using assms(1) by (simp_all add: relay_inv_def)
  from relay_replies_inv [OF x assms(2) this] obtain rs' where
    rs': "written rs' (relayed (to_client s) @ out)" "tracks tr (exchange_of ms rs')"
      "out @ buf = bs @ read_buf s" "released \<longrightarrow> ReadyTracker_may_release tr" by auto
  let ?s = "s\<lparr>read_buf := buf, tracker := tr, to_client := to_client s @ [Relayed out]\<rparr>"
  have "relay_inv ?s ms rs'"
    using assms(1) rs' by (simp add: relay_inv_def)
  with rs'(4) loop_head_inv [OF this] show ?thesis by (auto simp: on_replies_def x Let_def)
qed (simp add: on_replies_def)

lemma relay_inv_read: "relay_inv s ms rs \<Longrightarrow>
    relay_inv (s\<lparr>read_buf := read_buf s @ chunk, server_in := server_in s @ chunk\<rparr>) ms rs"
  by (simp add: relay_inv_def flip: append_assoc)

lemma buffered_inv:
  assumes "relay_inv s ms rs" "decode_frame (read_buf s) MAX_MESSAGE = Inr (Some frame, rest)"
  shows "outcome_inv (on_replies frame (s\<lparr>read_buf := rest\<rparr>))"
proof -
  from frames.decode_written [OF assms(2)] obtain bs where
    bs: "write_frame MAX_MESSAGE frame = Some bs" "read_buf s = bs @ rest" by blast
  from bs(2) have "s\<lparr>read_buf := bs @ rest\<rparr> = s" by simp
  with assms(1) bs(1) show ?thesis by (intro on_replies_inv) auto
qed

lemma on_event_inv:
  assumes "relay_inv s ms rs"
  shows "outcome_inv (on_event e s)"
proof (cases e)
  case (ClientRead chunk)
  have "relay_inv (s\<lparr>pending := p\<rparr>) ms rs" for p using assms by (simp add: relay_inv_def)
  from loop_head_inv [OF this] assms show ?thesis by (auto simp: ClientRead)
next
  case (ServerRead chunk)
  let ?s = "s\<lparr>read_buf := read_buf s @ chunk, server_in := server_in s @ chunk\<rparr>"
  from buffered_inv [OF assms] buffered_inv [OF relay_inv_read [OF assms, of chunk]]
    relay_inv_read [OF assms, of chunk]
  show ?thesis
    by (auto simp: ServerRead Let_def split: sum.splits option.splits)
qed simp

lemma serve_events_inv: "outcome_inv out \<Longrightarrow> outcome_inv (serve_events es out)"
proof (induction es out rule: serve_events.induct)
  case (1 e es s)
  from "1.prems" obtain ms rs where "relay_inv s ms rs" by auto
  from "1.IH" [OF on_event_inv [OF this]] show ?case by simp
qed simp_all

lemma serve_assignment_inv: "outcome_inv (serve_assignment es c b)"
  unfolding serve_assignment_def by (intro serve_events_inv loop_head_inv [OF relay_inv_start])

subsection \<open>No panic\<close>

lemma encode_frame_small: "length b \<le> 2000000000 \<Longrightarrow> \<exists>bs. encode_frame t b = Some bs"
  by (simp add: encode_frame_def length_field_def Let_def LENGTH_FIELD_LEN_def i32_max_def)

lemma written_small: "write_frame MAX_MESSAGE frame = Some bs \<Longrightarrow> length (body frame) \<le> 1073741820"
  by (auto simp: write_frame_def MAX_MESSAGE_def LENGTH_FIELD_LEN_def split: if_splits)

lemma no_such_statement_small:
  "length st \<le> 1073741820 \<Longrightarrow> length (error_response_body (no_such_statement st)) \<le> 2000000000"
  by (simp add: error_response_body_def no_such_statement_def with_hint_def with_detail_def ErrorResponse_error_def
      ErrorResponse_new_def put_field_def INVALID_SQL_STATEMENT_NAME_def)

lemma listen_unsupported_small: "length (error_response_body listen_unsupported) \<le> 2000000000"
  by (simp add: error_response_body_def listen_unsupported_def with_hint_def with_detail_def ErrorResponse_error_def
      ErrorResponse_new_def put_field_def FEATURE_NOT_SUPPORTED_def)

lemma rejected_statement:
  "PreparedStatements_on_frontend t b ps = Inr (Reject st, ps') \<Longrightarrow> length st \<le> length b"
  by (cases t) (auto simp: PreparedStatements_on_frontend_def decode_bind_Inr
      split: if_splits sum.splits CloseTarget.splits)

lemma hold_restores:
  assumes "decode_frame p MAX_MESSAGE = Inr (Some frame, rest)"
  shows "hold frame rest = Inr p"
  using frames.decode_written [OF assms] by (auto simp: write_frame_def hold_def push_def split: if_splits)

lemma refuse_written: "refuse (Some bs) f = Inr (f\<lparr>fw_refusals := fw_refusals f @ bs\<rparr>)"
  by (simp add: refuse_def push_def)

lemma forward_one_no_panic:
  assumes "write_frame MAX_MESSAGE frame = Some bs"
  shows "forward_one frame f \<noteq> Inl RelayPanic"
proof -
  have small: "length (body frame) \<le> 1073741820" using written_small [OF assms] .
  have p: "push (encode_frame (tag frame) (body frame)) out = Inr (out @ bs)" for out
    using assms by (simp add: write_frame_def push_def split: if_splits)
  then have h: "hold frame rest = Inr (bs @ rest)" for rest by (simp add: hold_def)
  obtain lb where lb: "encode_error_response listen_unsupported = Some lb"
    using encode_frame_small [OF listen_unsupported_small] unfolding encode_error_response_def by blast
  obtain rb where rb: "encode_ready_for_query (status (fw_tracker f)) = Some rb"
    using encode_frame_small [of "[TransactionStatus_byte (status (fw_tracker f))]"]
    unfolding encode_ready_for_query_def by force
  have nb: "\<exists>nb. encode_error_response (no_such_statement st) = Some nb"
    if "PreparedStatements_on_frontend t (body frame) ps = Inr (Reject st, ps')" for st t ps ps'
    unfolding encode_error_response_def
    by (rule encode_frame_small, rule no_such_statement_small, rule le_trans [OF rejected_statement [OF that] small])
  show ?thesis
  proof (cases "FrontendTag_try_from (tag frame)")
    case (Inr t)
    show ?thesis
    proof (cases "PreparedStatements_on_frontend t (body frame) (fw_statements f)")
      case (Inr x)
      obtain v ps where "x = (v, ps)" by fastforce
      with Inr nb [of t "fw_statements f" _ ps] show ?thesis
        by (cases v) (auto simp: forward_one_def \<open>FrontendTag_try_from (tag frame) = Inr t\<close>
            Let_def p h lb rb refuse_written)
    qed (simp add: forward_one_def Inr)
  qed (simp add: forward_one_def)
qed

lemma forward_loop_no_panic: "forward_loop f \<noteq> Inl RelayPanic"
proof (induction f rule: forward_loop.induct)
  case (1 f)
  have "forward_one frame (f\<lparr>fw_pending := rest\<rparr>) \<noteq> Inl RelayPanic"
    if "decode_frame (fw_pending f) MAX_MESSAGE = Inr (Some frame, rest)" for frame rest
    using frames.decode_written [OF that] forward_one_no_panic by blast
  with 1 show ?case
    by (subst forward_loop.simps) (auto split: sum.splits option.splits)
qed

lemma relay_replies_no_panic:
  "write_frame MAX_MESSAGE frame = Some bs \<Longrightarrow> relay_replies frame buf tr out \<noteq> Inl RelayPanic"
proof (induction frame buf tr out arbitrary: bs rule: relay_replies.induct)
  case (1 frame buf tr out)
  have p: "push (encode_frame (tag frame) (body frame)) out = Inr (out @ bs)"
    using "1.prems" by (simp add: write_frame_def push_def split: if_splits)
  let ?one = "case BackendTag_try_from (tag frame) of
            Inl _ \<Rightarrow> Inr (False, tr)
          | Inr t \<Rightarrow>
              (case ReadyTracker_on_backend t (body frame) tr of
                 Inl e \<Rightarrow> Inl (RelayTracker e)
               | Inr (ev, tr') \<Rightarrow> Inr (ev \<noteq> None, tr'))"
  show ?case
  proof (cases ?one)
    case (Inl e)
    then have "e \<noteq> RelayPanic" by (auto split: sum.splits)
    with Inl show ?thesis by (subst relay_replies.simps) simp
  next
    case (Inr y)
    then obtain ready tr1 where one: "?one = Inr (ready, tr1)" by (cases y) auto
    have "relay_replies nxt rest tr1 (out @ bs) \<noteq> Inl RelayPanic"
      if "decode_frame buf MAX_MESSAGE = Inr (Some nxt, rest)" "\<not> (ready \<and> ReadyTracker_may_release tr1)" for nxt rest
      using frames.decode_written [OF that(1)] "1.IH" [OF one refl p that(2,1) refl refl] by blast
    then show ?thesis
      unfolding relay_replies.simps [of frame buf tr out] one p by (auto split: sum.splits option.splits)
  qed
qed

lemma loop_head_no_panic: "loop_head s \<noteq> Broken RelayPanic"
  using forward_loop_no_panic
  by (auto simp: loop_head_def forward_requests_def split: sum.splits Requests.splits)

lemma on_replies_no_panic:
  "write_frame MAX_MESSAGE frame = Some bs \<Longrightarrow> on_replies frame s \<noteq> Broken RelayPanic"
  using relay_replies_no_panic [of frame bs "read_buf s" "tracker s" "[]"]
  by (auto simp: on_replies_def Let_def loop_head_no_panic split: sum.split)

lemma on_event_no_panic: "on_event e s \<noteq> Broken RelayPanic"
proof (cases e)
  case (ServerRead chunk)
  have "on_replies frame s' \<noteq> Broken RelayPanic"
    if "decode_frame buf MAX_MESSAGE = Inr (Some frame, rest)" for buf frame rest s'
    using frames.decode_written [OF that] on_replies_no_panic by blast
  then show ?thesis by (auto simp: ServerRead Let_def split: sum.splits option.splits)
qed (simp_all add: loop_head_no_panic)

lemma serve_events_no_panic: "out \<noteq> Broken RelayPanic \<Longrightarrow> serve_events es out \<noteq> Broken RelayPanic"
  by (induction es out rule: serve_events.induct) (simp_all add: on_event_no_panic)

section \<open>Properties\<close>

text \<open>
  C3: a connection goes back to the pool only at a transaction boundary. Whatever the client and
  the server send and however it is cut into reads, when an assignment ends with the connection
  released and not discarded, every request forwarded has been answered by a \<open>ReadyForQuery\<close> that
  was copied to the client, the last of them with an idle transaction, and no extended-query batch
  is open (for fewer than \<open>2^32\<close> requests in one assignment).
\<close>

theorem released_at_boundary:
  assumes "after_serve (serve_assignment es client_bytes server_bytes) \<in> {Some Release_and_go_on, Some Release_and_stop}"
  shows "\<exists>boundary s ms rs. serve_assignment es client_bytes server_bytes = Ended boundary s
    \<and> encode_all (write_frame MAX_MESSAGE) (map msg_frame ms) = Some (to_server s)
    \<and> encode_all (write_frame MAX_MESSAGE) rs = Some (relayed (to_client s))
    \<and> (requests (map fst ms) \<le> u32_max \<longrightarrow> at_boundary \<lparr>sent = map fst ms, answered = ready_of rs\<rparr>)"
proof -
  from assms obtain boundary s where e: "serve_assignment es client_bytes server_bytes = Ended boundary s"
    and b: "boundary \<noteq> ClientClosed False"
    by (cases "serve_assignment es client_bytes server_bytes" rule: after_serve.cases) auto
  from serve_assignment_inv [of es client_bytes server_bytes] e b obtain ms rs where
    i: "relay_inv s ms rs" "ReadyTracker_may_release (tracker s)" by auto
  then have "requests (map fst ms) \<le> u32_max \<longrightarrow> at_boundary (exchange_of ms rs)"
    using may_release_at_boundary [of "tracker s" "exchange_of ms rs"] by (simp add: relay_inv_def)
  with i e show ?thesis unfolding relay_inv_def by blast
qed

text \<open>A session of one query, with the reply arriving in two pieces.\<close>

definition demo_query :: bytes where
  "demo_query = CHR ''Q'' # put_i32 13 @ ''select 1'' @ [NUL]"

definition demo_ready :: bytes where
  "demo_ready = CHR ''Z'' # put_i32 5 @ ''I''"

theorem released_at_boundary_witness:
  "\<exists>boundary s ms rs. serve_assignment [ServerRead (take 3 demo_ready), ServerRead (drop 3 demo_ready)] demo_query []
      = Ended boundary s
    \<and> encode_all (write_frame MAX_MESSAGE) (map msg_frame ms) = Some (to_server s)
    \<and> encode_all (write_frame MAX_MESSAGE) rs = Some (relayed (to_client s))
    \<and> (requests (map fst ms) \<le> u32_max \<longrightarrow> at_boundary \<lparr>sent = map fst ms, answered = ready_of rs\<rparr>)"
proof -
  have "after_serve (serve_assignment [ServerRead (take 3 demo_ready), ServerRead (drop 3 demo_ready)] demo_query [])
    \<in> {Some Release_and_go_on, Some Release_and_stop}"
    by code_simp
  then show ?thesis by (rule released_at_boundary)
qed



text \<open>
  No input makes the relay panic. The encoders abort on a body that does not fit a 32-bit
  length; a frame that was decoded and a refusal that quotes a name out of one always fit.
\<close>

theorem serve_never_panics: "serve_assignment es client_bytes server_bytes \<noteq> Broken RelayPanic"
  unfolding serve_assignment_def by (intro serve_events_no_panic loop_head_no_panic)

text \<open>
  A refused \<open>LISTEN\<close> query waits for the answers in flight. While the server owes an answer, a
  \<open>LISTEN\<close> query at the head of the client's bytes changes nothing at all: it is put back where it
  was read, nothing is forwarded and nothing is answered.
\<close>

theorem listen_waits_for_answers:
  assumes "decode_frame (fw_pending f) MAX_MESSAGE = Inr (Some frame, rest)"
    and "tag frame = FrontendTag_byte Query" "asks_listen (Query, body frame)"
    and "\<not> refused (fw_statements f)" "outstanding (fw_tracker f) > 0"
  shows "forward_loop f = Inr f"
proof -
  have "PreparedStatements_on_frontend Query (body frame) (fw_statements f) = Inr (RejectListen, fw_statements f)"
    using assms(3,4) by (auto simp: PreparedStatements_on_frontend_def split: sum.splits)
  then have "forward_one frame (f\<lparr>fw_pending := rest\<rparr>) = Inr (False, f)"
    using assms(2,5) hold_restores [OF assms(1)]
    by (simp add: forward_one_def codec_simps Let_def)
  with assms(1) show ?thesis by (subst forward_loop.simps) simp
qed

theorem listen_waits_for_answers_witness:
  "let f = \<lparr>fw_pending = CHR ''Q'' # put_i32 13 @ ''listen c'' @ [NUL], fw_tracker = ReadyTracker_new\<lparr>outstanding := 1\<rparr>,
      fw_statements = PreparedStatements_new, fw_out = [], fw_refusals = [], fw_requests = Drained\<rparr>
   in forward_loop f = Inr f"
proof -
  let ?f = "\<lparr>fw_pending = CHR ''Q'' # put_i32 13 @ ''listen c'' @ [NUL], fw_tracker = ReadyTracker_new\<lparr>outstanding := 1\<rparr>,
      fw_statements = PreparedStatements_new, fw_out = [], fw_refusals = [], fw_requests = Drained\<rparr>"
  have d: "decode_frame (fw_pending ?f) MAX_MESSAGE = Inr (Some \<lparr>tag = CHR ''Q'', body = ''listen c'' @ [NUL]\<rparr>, [])"
    by code_simp
  have "tag \<lparr>tag = CHR ''Q'', body = ''listen c'' @ [NUL]\<rparr> = FrontendTag_byte Query" by code_simp
  moreover have "asks_listen (Query, body \<lparr>tag = CHR ''Q'', body = ''listen c'' @ [NUL]\<rparr>)" by code_simp
  moreover have "\<not> refused (fw_statements ?f)" "outstanding (fw_tracker ?f) > 0" by code_simp+
  ultimately have "forward_loop ?f = Inr ?f" by (rule listen_waits_for_answers [OF d])
  then show ?thesis by (simp only: Let_def)
qed

text \<open>
  The refusal of a \<open>Bind\<close> does not wait: with a query in flight, the client is sent the refusal
  of a later \<open>Bind\<close> at once, ahead of the answer the server still owes.
\<close>

theorem bind_refusal_overtakes:
  "case serve_assignment [] (demo_query @ CHR ''B'' # put_i32 7 @ [NUL] @ ''u'' @ [NUL]) [] of
     Waiting s \<Rightarrow> outstanding (tracker s) = 1 \<and> relayed (to_client s) = [] \<and> length (to_client s) = 1
   | _ \<Rightarrow> False"
  by code_simp

end
