(* ===== verification/Cancel.thy ===== *)
theory Cancel
  imports Startup
begin

text \<open>
  Cancel keys (\<open>crates/core/src/cancel.rs\<close>): the tag of a proxy, the keys this node has issued and
  what each of them currently points at. The lock makes every operation one step. The secret of a
  key comes from the random number generator and is an argument of \<open>issue\<close>; nothing is assumed
  about it except where a theorem says so. The serial is an atomic \<open>u32\<close>, which wraps around.

  The clients of the registry are the holders of tickets. \<open>cancel_sys\<close> puts the registry beside
  its tickets and what each client is being served by; its steps are the operations in any order.
\<close>

unbundle bit_operations_syntax

definition SERIAL_BITS :: nat where "SERIAL_BITS = 19"
definition SERIAL_MASK :: "32 word" where "SERIAL_MASK = push_bit SERIAL_BITS 1 - 1"

datatype ProxyTag = ProxyTag (tag_value: nat)

definition ProxyTag_MAX :: nat where
  "ProxyTag_MAX = 2 ^ (31 - SERIAL_BITS) - 1"

definition ProxyTag_new :: "nat \<Rightarrow> ProxyTag option" where
  "ProxyTag_new val = (if val \<le> ProxyTag_MAX then Some (ProxyTag val) else None)"

definition twelve_bits :: "32 word \<Rightarrow> nat" where
  "twelve_bits bits = unat (bits AND of_nat ProxyTag_MAX)"

fun hash_bytes :: "bytes \<Rightarrow> 32 word \<Rightarrow> 32 word" where
  "hash_bytes [] hash = hash"
| "hash_bytes (b # bs) hash = hash_bytes bs ((hash XOR of_nat (code_of b)) * 0x01000193)"

definition ProxyTag_of :: "ProxyId \<Rightarrow> ProxyTag" where
  "ProxyTag_of proxy =
     (case proxy of ProxyId name \<Rightarrow>
        (let hash = hash_bytes name 0x811c9dc5 in ProxyTag (twelve_bits (drop_bit 16 hash XOR hash))))"

definition ProxyTag_in_key :: "CancelKey \<Rightarrow> ProxyTag" where
  "ProxyTag_in_key key = ProxyTag (twelve_bits (drop_bit SERIAL_BITS (word_of_int (process_id key))))"

record Target =
  target_instance :: InstanceId
  target_backend :: CancelKey

record CancelRegistry =
  reg_tag :: ProxyTag
  reg_serial :: "32 word"
  reg_live :: "CancelKey \<Rightarrow> Target option option"

definition CancelRegistry_new :: "ProxyTag \<Rightarrow> CancelRegistry" where
  "CancelRegistry_new t = \<lparr>reg_tag = t, reg_serial = 0, reg_live = (\<lambda>_. None)\<rparr>"

text \<open>\<open>i32::try_from\<close> of the bits panics if the sign bit is set; \<open>issued_id_range\<close> shows it is not.\<close>

definition issued_id :: "ProxyTag \<Rightarrow> 32 word \<Rightarrow> int" where
  "issued_id t serial =
     uint (push_bit SERIAL_BITS (of_nat (tag_value t)) OR (serial AND SERIAL_MASK))"

definition issue :: "int \<Rightarrow> CancelRegistry \<Rightarrow> CancelKey \<times> CancelRegistry" where
  "issue secret r =
     (let key = \<lparr>process_id = issued_id (reg_tag r) (reg_serial r), secret_key = secret\<rparr> in
      (key, r\<lparr>reg_serial := reg_serial r + 1, reg_live := (reg_live r)(key := Some None)\<rparr>))"

definition target :: "CancelKey \<Rightarrow> CancelRegistry \<Rightarrow> Target option" where
  "target key r = (case reg_live r key of None \<Rightarrow> None | Some t \<Rightarrow> t)"

definition aim :: "CancelKey \<Rightarrow> InstanceId \<Rightarrow> CancelKey \<Rightarrow> CancelRegistry \<Rightarrow> CancelRegistry" where
  "aim key i backend r =
     r\<lparr>reg_live := (reg_live r)(key := Some (Some \<lparr>target_instance = i, target_backend = backend\<rparr>))\<rparr>"

definition stand_down :: "CancelKey \<Rightarrow> CancelRegistry \<Rightarrow> CancelRegistry" where
  "stand_down key r = r\<lparr>reg_live := (reg_live r)(key := Some None)\<rparr>"

definition drop_ticket :: "CancelKey \<Rightarrow> CancelRegistry \<Rightarrow> CancelRegistry" where
  "drop_ticket key r = r\<lparr>reg_live := (reg_live r)(key := None)\<rparr>"

text \<open>What \<open>forward_cancel\<close> writes on a connection of its own.\<close>

definition forward_cancel :: "CancelKey \<Rightarrow> bytes option" where
  "forward_cancel backend = encode_startup (Startup.Cancel backend)"

section \<open>The tag in a key\<close>

lemma tag_max: "ProxyTag_MAX = 4095"
  by (simp add: ProxyTag_MAX_def SERIAL_BITS_def)

lemma serial_mask: "SERIAL_MASK = mask 19"
  by (simp add: SERIAL_MASK_def SERIAL_BITS_def mask_eq_exp_minus_1)

lemma twelve_bits_take: "twelve_bits w = unat (take_bit 12 w)"
proof -
  have "(of_nat ProxyTag_MAX :: 32 word) = mask 12" by (simp add: tag_max mask_eq_exp_minus_1)
  then show ?thesis by (simp add: twelve_bits_def take_bit_eq_mask)
qed

lemma small_tag:
  assumes "t \<le> ProxyTag_MAX"
  shows "unat (take_bit 12 (of_nat t :: 32 word)) = t" "take_bit 12 (of_nat t :: 32 word) = of_nat t"
proof -
  have "unat (of_nat t :: 32 word) = t"
    using assms by (simp add: tag_max unat_of_nat)
  moreover have "take_bit 12 t = t" using assms by (simp add: tag_max take_bit_nat_eq_self)
  ultimately show "unat (take_bit 12 (of_nat t :: 32 word)) = t" by (simp add: unsigned_take_bit_eq)
  then show "take_bit 12 (of_nat t :: 32 word) = of_nat t"
    using \<open>unat (of_nat t :: 32 word) = t\<close> by (metis word_unat_eq_iff)
qed

abbreviation key_bits :: "nat \<Rightarrow> 32 word \<Rightarrow> 32 word" where
  "key_bits t serial \<equiv> push_bit 19 (of_nat t) OR (serial AND SERIAL_MASK)"

lemma key_bits_tag: "take_bit 12 (drop_bit 19 (key_bits t serial)) = take_bit 12 (of_nat t)"
  by (rule bit_eqI) (auto simp: serial_mask bit_simps)

lemma key_bits_sign:
  assumes "t \<le> ProxyTag_MAX"
  shows "take_bit 31 (key_bits t serial) = key_bits t serial"
proof (rule bit_eqI)
  fix n
  have "\<not> bit (of_nat t :: 32 word) (n - 19)" if "31 \<le> n"
  proof -
    have "\<not> bit (take_bit 12 (of_nat t :: 32 word)) (n - 19)"
    proof -
      have "12 \<le> n - 19" using that by arith
      then show ?thesis unfolding bit_take_bit_iff by simp
    qed
    then show ?thesis using small_tag(2) [OF assms] by simp
  qed
  then show "bit (take_bit 31 (key_bits t serial)) n = bit (key_bits t serial) n"
    by (auto simp: serial_mask bit_simps)
qed

lemma issued_id_range: "tag_value t \<le> ProxyTag_MAX \<Longrightarrow> 0 \<le> issued_id t serial \<and> issued_id t serial \<le> i32_max"
proof -
  assume "tag_value t \<le> ProxyTag_MAX"
  from key_bits_sign [OF this, of serial] have "issued_id t serial = uint (take_bit 31 (key_bits (tag_value t) serial))"
    by (simp add: issued_id_def SERIAL_BITS_def)
  also have "\<dots> = take_bit 31 (uint (key_bits (tag_value t) serial))" by (rule unsigned_take_bit_eq)
  also have "\<dots> < 2 ^ 31" by (rule take_bit_int_less_exp)
  finally show ?thesis by (simp add: issued_id_def i32_max_def)
qed

lemma issued_tag:
  assumes "tag_value t \<le> ProxyTag_MAX"
  shows "ProxyTag_in_key \<lparr>process_id = issued_id t serial, secret_key = s\<rparr> = t"
proof -
  have "twelve_bits (drop_bit 19 (key_bits (tag_value t) serial)) = tag_value t"
    unfolding twelve_bits_take key_bits_tag by (rule small_tag [OF assms])
  then show ?thesis by (cases t) (simp add: ProxyTag_in_key_def issued_id_def SERIAL_BITS_def)
qed

lemma twelve_bits_bound: "twelve_bits w \<le> ProxyTag_MAX"
  using take_bit_nat_less_exp [of 12 "unat w"] by (simp add: twelve_bits_take unsigned_take_bit_eq tag_max)

lemma ProxyTag_of_bound: "tag_value (ProxyTag_of p) \<le> ProxyTag_MAX"
  by (cases p) (simp add: ProxyTag_of_def twelve_bits_bound Let_def)

section \<open>Tickets\<close>

record cancel_sys =
  cs_registry :: CancelRegistry
  cs_tickets :: "nat \<Rightarrow> (CancelKey \<times> Target option) option"

definition cancel_start :: "ProxyTag \<Rightarrow> cancel_sys" where
  "cancel_start t = \<lparr>cs_registry = CancelRegistry_new t, cs_tickets = (\<lambda>_. None)\<rparr>"

text \<open>With \<open>fresh\<close>, a key is issued only if no ticket holds it already.\<close>

inductive cancel_step :: "bool \<Rightarrow> cancel_sys \<Rightarrow> cancel_sys \<Rightarrow> bool" for fresh where
  issued: "cancel_step fresh s (s\<lparr>cs_registry := r, cs_tickets := (cs_tickets s)(c := Some (key, None))\<rparr>)"
    if "cs_tickets s c = None" "issue secret (cs_registry s) = (key, r)"
      "fresh \<longrightarrow> reg_live (cs_registry s) key = None"
| aimed: "cancel_step fresh s (s\<lparr>cs_registry := aim key i backend (cs_registry s),
      cs_tickets := (cs_tickets s)(c := Some (key, Some \<lparr>target_instance = i, target_backend = backend\<rparr>))\<rparr>)"
    if "cs_tickets s c = Some (key, served)"
| stood_down: "cancel_step fresh s (s\<lparr>cs_registry := stand_down key (cs_registry s),
      cs_tickets := (cs_tickets s)(c := Some (key, None))\<rparr>)"
    if "cs_tickets s c = Some (key, served)"
| dropped: "cancel_step fresh s (s\<lparr>cs_registry := drop_ticket key (cs_registry s),
      cs_tickets := (cs_tickets s)(c := None)\<rparr>)"
    if "cs_tickets s c = Some (key, served)"

inductive cancel_reachable :: "ProxyTag \<Rightarrow> bool \<Rightarrow> cancel_sys \<Rightarrow> bool" for t fresh where
  cancel_init: "cancel_reachable t fresh (cancel_start t)"
| cancel_next: "cancel_reachable t fresh s \<Longrightarrow> cancel_step fresh s s' \<Longrightarrow> cancel_reachable t fresh s'"

interpretation cancels: transition_system "\<lambda>s. s = cancel_start t" "cancel_step fresh" "cancel_reachable t fresh" for t fresh
proof
  fix s and P :: "cancel_sys \<Rightarrow> bool"
  assume "cancel_reachable t fresh s" "\<And>u. u = cancel_start t \<Longrightarrow> P u"
    "\<And>u v. cancel_reachable t fresh u \<Longrightarrow> P u \<Longrightarrow> cancel_step fresh u v \<Longrightarrow> P v"
  then show "P s" by (induction rule: cancel_reachable.induct) blast+
qed

definition aimed_by_owner :: "cancel_sys \<Rightarrow> bool" where
  "aimed_by_owner s \<longleftrightarrow>
     (\<forall>key t. reg_live (cs_registry s) key = Some (Some t) \<longrightarrow> (\<exists>c. cs_tickets s c = Some (key, Some t)))"

definition one_owner :: "cancel_sys \<Rightarrow> bool" where
  "one_owner s \<longleftrightarrow>
     (\<forall>c key served. cs_tickets s c = Some (key, served) \<longrightarrow> reg_live (cs_registry s) key = Some served)
     \<and> (\<forall>c d key served served'. cs_tickets s c = Some (key, served) \<longrightarrow> cs_tickets s d = Some (key, served') \<longrightarrow> c = d)"

lemmas cancel_ops = issue_def aim_def stand_down_def drop_ticket_def Let_def

text \<open>What a write to the entry of one key does to the invariants.\<close>

lemma aimed_by_owner_write:
  assumes "aimed_by_owner s" "\<And>k served. cs_tickets s c = Some (k, served) \<Longrightarrow> k = key"
    and "\<And>t. entry = Some (Some t) \<Longrightarrow> ticket = Some (key, Some t)"
    and "reg_live r = (reg_live (cs_registry s))(key := entry)"
  shows "aimed_by_owner (s\<lparr>cs_registry := r, cs_tickets := (cs_tickets s)(c := ticket)\<rparr>)"
  unfolding aimed_by_owner_def
proof (intro allI impI)
  fix k t
  assume *: "reg_live (cs_registry (s\<lparr>cs_registry := r, cs_tickets := (cs_tickets s)(c := ticket)\<rparr>)) k = Some (Some t)"
  show "\<exists>d. cs_tickets (s\<lparr>cs_registry := r, cs_tickets := (cs_tickets s)(c := ticket)\<rparr>) d = Some (k, Some t)"
  proof (cases "k = key")
    case True
    with * assms(3,4) show ?thesis by (intro exI [of _ c]) simp
  next
    case False
    with * assms(1,4) obtain d where d: "cs_tickets s d = Some (k, Some t)" by (auto simp: aimed_by_owner_def)
    with False assms(2) [of k "Some t"] have "d \<noteq> c" by auto
    with d show ?thesis by (intro exI [of _ d]) simp
  qed
qed

lemma aimed_by_owner_step: "cancel_step fresh s s' \<Longrightarrow> aimed_by_owner s \<Longrightarrow> aimed_by_owner s'"
proof (induction rule: cancel_step.induct)
  case (issued s c secret key r)
  then show ?case
    by (intro aimed_by_owner_write [where key = key and entry = "Some None"]) (auto simp: issue_def Let_def)
next
  case (aimed s c key served i backend)
  then show ?case
    by (intro aimed_by_owner_write [where key = key and entry = "Some (Some \<lparr>target_instance = i, target_backend = backend\<rparr>)"])
      (auto simp: aim_def)
next
  case (stood_down s c key served)
  then show ?case
    by (intro aimed_by_owner_write [where key = key and entry = "Some None"]) (auto simp: stand_down_def)
next
  case (dropped s c key served)
  then show ?case
    by (intro aimed_by_owner_write [where key = key and entry = None]) (auto simp: drop_ticket_def)
qed

lemma aimed_by_owner_reachable: "cancel_reachable t fresh s \<Longrightarrow> aimed_by_owner s"
  by (rule cancels.invariant [where I = aimed_by_owner], assumption)
    (simp add: aimed_by_owner_def cancel_start_def CancelRegistry_new_def, rule aimed_by_owner_step)

lemma one_owner_write:
  assumes "one_owner s" "\<And>d served. cs_tickets s d = Some (key, served) \<Longrightarrow> d = c"
    and "\<And>k served. cs_tickets s c = Some (k, served) \<Longrightarrow> k = key"
    and "ticket = map_option (Pair key) entry" "reg_live r = (reg_live (cs_registry s))(key := entry)"
  shows "one_owner (s\<lparr>cs_registry := r, cs_tickets := (cs_tickets s)(c := ticket)\<rparr>)"
  using assms unfolding one_owner_def by (auto split: if_splits)

lemma one_owner_step: "cancel_step True s s' \<Longrightarrow> one_owner s \<Longrightarrow> one_owner s'"
proof (induction rule: cancel_step.induct)
  case (issued s c secret key r)
  have "cs_tickets s d = Some (key, served) \<Longrightarrow> d = c" for d served
    using issued by (auto simp: one_owner_def)
  with issued show ?case
    by (intro one_owner_write [where key = key and entry = "Some None"]) (auto simp: issue_def Let_def)
next
  case (aimed s c key served i backend)
  then have "cs_tickets s d = Some (key, served') \<Longrightarrow> d = c" for d served'
    by (auto simp: one_owner_def)
  with aimed show ?case
    by (intro one_owner_write [where key = key and entry = "Some (Some \<lparr>target_instance = i, target_backend = backend\<rparr>)"])
      (auto simp: aim_def)
next
  case (stood_down s c key served)
  then have "cs_tickets s d = Some (key, served') \<Longrightarrow> d = c" for d served'
    by (auto simp: one_owner_def)
  with stood_down show ?case
    by (intro one_owner_write [where key = key and entry = "Some None"]) (auto simp: stand_down_def)
next
  case (dropped s c key served)
  then have "cs_tickets s d = Some (key, served') \<Longrightarrow> d = c" for d served'
    by (auto simp: one_owner_def)
  with dropped show ?case
    by (intro one_owner_write [where key = key and entry = None]) (auto simp: drop_ticket_def)
qed

lemma one_owner_reachable: "cancel_reachable t True s \<Longrightarrow> one_owner s"
  by (rule cancels.invariant [where I = one_owner], assumption)
    (simp add: one_owner_def cancel_start_def, rule one_owner_step)

section \<open>Properties\<close>

text \<open>
  C39: a cancel request stops only what its owner is running. In every reachable state, whatever
  the secrets drawn, a key resolves to a backend only while a client that holds a ticket for that
  key is being served by that backend; between requests and after the client has gone it resolves
  to nothing. If no key is issued twice at the same time, a client being served can always cancel.
\<close>

theorem cancel_hits_only_own:
  assumes "cancel_reachable t fresh s"
  shows "(target key (cs_registry s) = Some x \<longrightarrow> (\<exists>c. cs_tickets s c = Some (key, Some x)))
    \<and> (fresh \<and> cs_tickets s c = Some (key, served) \<longrightarrow> target key (cs_registry s) = served)"
proof -
  have "\<exists>c. cs_tickets s c = Some (key, Some x)" if "target key (cs_registry s) = Some x"
    using that aimed_by_owner_reachable [OF assms] by (auto simp: target_def aimed_by_owner_def split: option.splits)
  moreover have "target key (cs_registry s) = served" if fresh "cs_tickets s c = Some (key, served)"
    using that one_owner_reachable [of t s] assms by (auto simp: target_def one_owner_def)
  ultimately show ?thesis by blast
qed

theorem cancel_hits_only_own_witness:
  "let key = \<lparr>process_id = issued_id (ProxyTag 5) 0, secret_key = 99\<rparr>; b = \<lparr>process_id = 7, secret_key = 8\<rparr>;
       r = aim key (InstanceId ''db'') b (snd (issue 99 (CancelRegistry_new (ProxyTag 5))))
   in target key r = Some \<lparr>target_instance = InstanceId ''db'', target_backend = b\<rparr>"
proof -
  let ?t = "ProxyTag 5" and ?b = "\<lparr>process_id = 7, secret_key = 8\<rparr>"
  let ?key = "\<lparr>process_id = issued_id ?t 0, secret_key = 99\<rparr>"
  let ?r = "snd (issue 99 (CancelRegistry_new ?t))"
  let ?s1 = "(cancel_start ?t)\<lparr>cs_registry := ?r, cs_tickets := (cs_tickets (cancel_start ?t))(0 := Some (?key, None))\<rparr>"
  have "cancel_step True (cancel_start ?t) ?s1"
    by (rule issued [of _ _ 99]) (simp_all add: cancel_start_def issue_def Let_def CancelRegistry_new_def)
  from cancel_next [OF cancel_init this] have r1: "cancel_reachable ?t True ?s1" .
  have "cs_tickets ?s1 0 = Some (?key, None)" by simp
  note r2 = cancel_next [OF r1 aimed [OF this, where i = "InstanceId ''db''" and backend = ?b]]
  from cancel_hits_only_own [OF r2, where key = ?key and c = 0 and
        served = "Some \<lparr>target_instance = InstanceId ''db'', target_backend = ?b\<rparr>"]
  show ?thesis by (simp add: Let_def)
qed

text \<open>
  Every node can tell whose a cancel key is. The process id of an issued key fits a positive
  \<open>i32\<close>, and the tag read out of the key is the tag of the proxy that issued it, for the tags
  \<open>ProxyTag::new\<close> accepts and \<open>ProxyTag::of\<close> computes.
\<close>

theorem key_carries_tag:
  assumes "reg_tag r = ProxyTag_of p \<or> ProxyTag_new n = Some (reg_tag r)"
  shows "ProxyTag_in_key (fst (issue secret r)) = reg_tag r
    \<and> 0 \<le> process_id (fst (issue secret r)) \<and> process_id (fst (issue secret r)) \<le> i32_max"
proof -
  have "tag_value (reg_tag r) \<le> ProxyTag_MAX"
    using assms ProxyTag_of_bound [of p] by (auto simp: ProxyTag_new_def split: if_splits) (metis ProxyTag.sel)
  with issued_tag issued_id_range show ?thesis by (simp add: issue_def Let_def)
qed

theorem key_carries_tag_witness:
  "ProxyTag_in_key (fst (issue 1 (CancelRegistry_new (ProxyTag_of (ProxyId ''p''))))) = ProxyTag_of (ProxyId ''p'')"
  using key_carries_tag [of "CancelRegistry_new (ProxyTag_of (ProxyId ''p''))" "ProxyId ''p''" 0 1]
  by (simp add: CancelRegistry_new_def)

text \<open>What is forwarded to the instance is a cancel request for exactly the backend.\<close>

lemma forward_cancel_read:
  assumes "is_i32 (process_id b)" "is_i32 (secret_key b)"
  shows "\<exists>bs. forward_cancel b = Some bs \<and> decode_startup_frame bs 16 = Inr (Some (startup_body (Startup.Cancel b)), [])
    \<and> decode_startup (startup_body (Startup.Cancel b)) = Inr (Startup.Cancel b)"
proof -
  obtain bs where bs: "forward_cancel b = Some bs"
    by (simp add: forward_cancel_def encode_startup_def encode_startup_frame_def length_field_def Let_def
        LENGTH_FIELD_LEN_def i32_max_def)
  then have "write_startup 16 (startup_body (Startup.Cancel b)) = Some bs"
    by (simp add: forward_cancel_def encode_startup_def write_startup_def framing_consts)
  from startups.decode_encoded [OF this, of "[]"] bs decode_startup_written [of "Startup.Cancel b"] assms
  show ?thesis by simp
qed

end
