(* ===== verification/Server.thy ===== *)
theory Server
  imports Framing Startup
begin

text \<open>
  The connection to a server (\<open>crates/core/src/server.rs\<close>, with the modes of
  \<open>crates/core/src/tls.rs\<close>): the request for encryption, the handshake as a state machine, and a
  simple query. The parser of server messages is a library (\<open>postgres_protocol\<close>): what arrives is a
  sequence of parsed messages, whose accessors that may fail are options. The client side of SCRAM,
  the MD5 answer and the encoders of that library are the fields of the record \<open>client_lib\<close>; what
  is sent is recorded as a value of \<open>sent\<close>. Writes are taken to succeed.
\<close>

section \<open>Text that may not be UTF-8\<close>

text \<open>
  \<open>String::from_utf8_lossy\<close>: each longest prefix of a character that is not completed is replaced
  by one \<open>U+FFFD\<close>. \<open>broken_len\<close> is the number of bytes of that prefix.
\<close>

definition REPLACEMENT :: bytes where
  "REPLACEMENT = [CHR 0xEF, CHR 0xBF, CHR 0xBD]"

definition second_ok :: "byte \<Rightarrow> byte \<Rightarrow> bool" where
  "second_ok a b \<longleftrightarrow>
     code_of a = 0xE0 \<and> in_range 0xA0 0xBF b
     \<or> (in_range 0xE1 0xEC a \<or> in_range 0xEE 0xEF a) \<and> is_tail b
     \<or> code_of a = 0xED \<and> in_range 0x80 0x9F b
     \<or> code_of a = 0xF0 \<and> in_range 0x90 0xBF b
     \<or> in_range 0xF1 0xF3 a \<and> is_tail b
     \<or> code_of a = 0xF4 \<and> in_range 0x80 0x8F b"

definition broken_len :: "byte \<Rightarrow> bytes \<Rightarrow> nat" where
  "broken_len a bs =
     (case bs of
        [] \<Rightarrow> 1
      | b # cs \<Rightarrow>
          if \<not> second_ok a b then 1
          else (case cs of [] \<Rightarrow> 2 | c # _ \<Rightarrow> if in_range 0xF0 0xF4 a \<and> is_tail c then 3 else 2))"

function from_utf8_lossy :: "bytes \<Rightarrow> bytes" where
  "from_utf8_lossy [] = []"
| "from_utf8_lossy (a # bs) =
     (case utf8_rest a bs of
        Some rest \<Rightarrow> take (Suc (length bs) - length rest) (a # bs) @ from_utf8_lossy rest
      | None \<Rightarrow> REPLACEMENT @ from_utf8_lossy (drop (broken_len a bs - 1) bs))"
  by pat_completeness auto
termination by (relation "measure length") (auto dest: utf8_rest_shorter)

lemma utf8_rest_suffix: "utf8_rest a bs = Some rest \<Longrightarrow> \<exists>p. bs = p @ rest \<and> utf8_rest a p = Some []"
  by (auto simp: utf8_rest_def split: if_splits list.splits)

lemma lossy_valid: "valid_utf8 (from_utf8_lossy s)"
proof (induction s rule: from_utf8_lossy.induct)
  case (2 a bs)
  have r: "valid_utf8 REPLACEMENT" by code_simp
  show ?case
  proof (cases "utf8_rest a bs")
    case None
    with 2 valid_utf8_append [OF r] show ?thesis by simp
  next
    case (Some rest)
    from utf8_rest_suffix [OF Some] obtain p where p: "bs = p @ rest" "utf8_rest a p = Some []" by blast
    then have "valid_utf8 (a # p)" by simp
    from valid_utf8_append [OF this 2(2) [OF Some]] show ?thesis using Some p(1) by simp
  qed
qed simp

lemma lossy_id: "valid_utf8 s \<Longrightarrow> from_utf8_lossy s = s"
proof (induction s rule: from_utf8_lossy.induct)
  case (2 a bs)
  then obtain rest where rest: "utf8_rest a bs = Some rest" "valid_utf8 rest" by (auto split: option.splits)
  from utf8_rest_suffix [OF rest(1)] obtain p where "bs = p @ rest" by blast
  with 2(2) [OF rest(1) rest(2)] rest(1) show ?case by simp
qed simp

section \<open>Names, errors, credentials\<close>

definition PREFIX :: string where "PREFIX = ''pgsteward-''"

datatype ApplicationName = ApplicationName (ApplicationName_as_str: string)

definition ApplicationName_new :: "string \<Rightarrow> ApplicationName" where
  "ApplicationName_new identifier = ApplicationName (PREFIX @ identifier)"

record ServerCredentials =
  sc_login :: string
  sc_database :: string
  sc_secret :: "string option"

datatype HandshakeError =
    HandshakeIo
  | HandshakeServer bytes bytes
  | UnsupportedAuthentication string
  | PasswordRequired string
  | HandshakeScram
  | HandshakeUnexpected string
  | HandshakeClosed

datatype QueryError =
    QueryIo
  | QueryServer bytes bytes
  | QueryUnexpected string
  | QueryClosed

datatype ConnectError =
    Unreachable
  | ConnectHandshake HandshakeError
  | EncryptionRefused
  | EncryptionAnswer byte
  | ConnectEncryption

type_synonym row = "bytes option list"

section \<open>Messages\<close>

datatype Message =
    MReadyForQuery byte
  | MErrorResponse "(byte \<times> bytes) list"
  | MNoticeResponse
  | MParameterStatus "bytes option" "bytes option"
  | MBackendKeyData int int
  | MAuthenticationOk
  | MSasl "bytes option list"
  | MSaslContinue bytes
  | MSaslFinal bytes
  | MMd5Password bytes
  | MCleartextPassword
  | MGss
  | MScmCredential
  | MDataRow "bytes option list option"
  | MRowDescription
  | MCommandComplete
  | MEmptyQueryResponse
  | MOther

datatype sent =
    SentStartup StartupRequest
  | SentSaslInitial bytes bytes
  | SentSaslResponse bytes
  | SentPassword bytes
  | SentQuery bytes
  | SentTerminate

text \<open>What is read: a message, or a failure of the stream; when nothing is left it was closed.\<close>

datatype arrival = Arrived Message | ReadFailed

record 'k client_lib =
  scram_new :: "bytes \<Rightarrow> 'k"
  scram_message :: "'k \<Rightarrow> bytes"
  scram_update :: "bytes \<Rightarrow> 'k \<Rightarrow> 'k option"
  scram_finish :: "bytes \<Rightarrow> 'k \<Rightarrow> 'k option"
  md5_hash :: "bytes \<Rightarrow> bytes \<Rightarrow> bytes \<Rightarrow> bytes"
  encodes :: "sent \<Rightarrow> bool"

definition SCRAM_SHA_256 :: bytes where "SCRAM_SHA_256 = ''SCRAM-SHA-256''"
definition SQLSTATE_FIELD :: byte where "SQLSTATE_FIELD = CHR ''C''"
definition MESSAGE_FIELD :: byte where "MESSAGE_FIELD = CHR ''M''"
definition IDLE :: byte where "IDLE = CHR ''I''"

fun error_field :: "(byte \<times> bytes) list \<Rightarrow> byte \<Rightarrow> bytes" where
  "error_field [] wanted = []"
| "error_field ((t, val) # fs) wanted = (if t = wanted then from_utf8_lossy val else error_field fs wanted)"

fun offers_scram_sha_256 :: "bytes option list \<Rightarrow> HandshakeError + bool" where
  "offers_scram_sha_256 [] = Inr False"
| "offers_scram_sha_256 (None # _) = Inl HandshakeIo"
| "offers_scram_sha_256 (Some m # ms) = (if m = SCRAM_SHA_256 then Inr True else offers_scram_sha_256 ms)"

definition startup_request :: "ServerCredentials \<Rightarrow> ApplicationName \<Rightarrow> StartupRequest" where
  "startup_request c name =
     Startup \<lparr>version = V3_0, parameters =
       [(''user'', sc_login c), (''database'', sc_database c), (''application_name'', ApplicationName_as_str name)]\<rparr>"

section \<open>The handshake\<close>

datatype 'k ScramProgress = ScramAbsent | ScramInProgress 'k | ScramProved

record 'k StartupState =
  su_parameters :: "(bytes, bytes) btree_map"
  su_backend_key :: "CancelKey option"
  su_authenticated :: bool
  su_scram :: "'k ScramProgress"

definition StartupState_default :: "'k StartupState" where
  "StartupState_default = \<lparr>su_parameters = [], su_backend_key = None, su_authenticated = False, su_scram = ScramAbsent\<rparr>"

definition authentication_ok :: "'k StartupState \<Rightarrow> HandshakeError + 'k StartupState" where
  "authentication_ok s =
     (case su_scram s of
        ScramInProgress _ \<Rightarrow> Inl (HandshakeUnexpected
          ''AuthenticationOk before the server proved itself with a SASL final message'')
      | _ \<Rightarrow> Inr (s\<lparr>su_authenticated := True\<rparr>))"

definition scram_in_progress :: "'k StartupState \<Rightarrow> HandshakeError + 'k" where
  "scram_in_progress s =
     (case su_scram s of
        ScramInProgress k \<Rightarrow> Inr k
      | _ \<Rightarrow> Inl (HandshakeUnexpected ''SASL continuation without a SASL exchange''))"

definition StartupState_ready :: "byte \<Rightarrow> 'k StartupState \<Rightarrow> HandshakeError + CancelKey" where
  "StartupState_ready st s =
     (if \<not> su_authenticated s then Inl (HandshakeUnexpected ''ReadyForQuery before AuthenticationOk'')
      else case su_backend_key s of
        None \<Rightarrow> Inl (HandshakeUnexpected ''ReadyForQuery before BackendKeyData'')
      | Some key \<Rightarrow>
          if st \<noteq> IDLE then Inl (HandshakeUnexpected ''ReadyForQuery with a non-idle transaction status at startup'')
          else Inr key)"

definition send :: "('k, 'z) client_lib_scheme \<Rightarrow> sent \<Rightarrow> 's \<Rightarrow> HandshakeError + sent list \<times> 's" where
  "send L m s = (if encodes L m then Inr ([m], s) else Inl HandshakeIo)"

fun answer_authentication :: "('k, 'z) client_lib_scheme \<Rightarrow> ServerCredentials \<Rightarrow> Message \<Rightarrow> 'k StartupState
    \<Rightarrow> HandshakeError + sent list \<times> 'k StartupState" where
  "answer_authentication L c (MSasl mechanisms) s =
     (case offers_scram_sha_256 mechanisms of
        Inl e \<Rightarrow> Inl e
      | Inr False \<Rightarrow> Inl (UnsupportedAuthentication ''SASL without the SCRAM-SHA-256 mechanism'')
      | Inr True \<Rightarrow>
          (case sc_secret c of
             None \<Rightarrow> Inl (PasswordRequired SCRAM_SHA_256)
           | Some password \<Rightarrow>
               (let k = scram_new L password in
                send L (SentSaslInitial SCRAM_SHA_256 (scram_message L k)) (s\<lparr>su_scram := ScramInProgress k\<rparr>))))"
| "answer_authentication L c (MSaslContinue data) s =
     (case scram_in_progress s of
        Inl e \<Rightarrow> Inl e
      | Inr k \<Rightarrow>
          (case scram_update L data k of
             None \<Rightarrow> Inl HandshakeScram
           | Some k' \<Rightarrow> send L (SentSaslResponse (scram_message L k')) (s\<lparr>su_scram := ScramInProgress k'\<rparr>)))"
| "answer_authentication L c (MSaslFinal data) s =
     (case scram_in_progress s of
        Inl e \<Rightarrow> Inl e
      | Inr k \<Rightarrow>
          (case scram_finish L data k of
             None \<Rightarrow> Inl HandshakeScram
           | Some _ \<Rightarrow> Inr ([], s\<lparr>su_scram := ScramProved\<rparr>)))"
| "answer_authentication L c (MMd5Password salt) s =
     (case sc_secret c of
        None \<Rightarrow> Inl (PasswordRequired ''MD5'')
      | Some password \<Rightarrow> send L (SentPassword (md5_hash L (sc_login c) password salt)) s)"
| "answer_authentication L c MCleartextPassword s = Inl (UnsupportedAuthentication ''cleartext password'')"
| "answer_authentication L c MGss s = Inl (UnsupportedAuthentication ''GSSAPI/Kerberos'')"
| "answer_authentication L c MScmCredential s = Inl (UnsupportedAuthentication ''SCM credential'')"
| "answer_authentication L c _ s = Inl (HandshakeUnexpected
     ''message other than authentication, ParameterStatus, BackendKeyData, ReadyForQuery or ErrorResponse before ReadyForQuery'')"

text \<open>One message of the startup; the left alternative of the result ends the handshake.\<close>

definition handshake_message :: "('k, 'z) client_lib_scheme \<Rightarrow> ServerCredentials \<Rightarrow> Message \<Rightarrow> 'k StartupState
    \<Rightarrow> (HandshakeError + CancelKey) + sent list \<times> 'k StartupState" where
  "handshake_message L c m s =
     (case m of
        MReadyForQuery st \<Rightarrow> Inl (StartupState_ready st s)
      | MErrorResponse fs \<Rightarrow>
          Inl (Inl (HandshakeServer (error_field fs SQLSTATE_FIELD) (error_field fs MESSAGE_FIELD)))
      | MNoticeResponse \<Rightarrow> Inr ([], s)
      | MParameterStatus (Some name) (Some val) \<Rightarrow> Inr ([], s\<lparr>su_parameters := bt_insert name val (su_parameters s)\<rparr>)
      | MParameterStatus _ _ \<Rightarrow> Inl (Inl HandshakeIo)
      | MBackendKeyData pid key \<Rightarrow>
          Inr ([], s\<lparr>su_backend_key := Some \<lparr>process_id = pid, secret_key = key\<rparr>\<rparr>)
      | MAuthenticationOk \<Rightarrow> (case authentication_ok s of Inl e \<Rightarrow> Inl (Inl e) | Inr s' \<Rightarrow> Inr ([], s'))
      | _ \<Rightarrow> (case answer_authentication L c m s of Inl e \<Rightarrow> Inl (Inl e) | Inr r \<Rightarrow> Inr r))"

record ServerConnection =
  cn_parameters :: "(bytes, bytes) btree_map"
  cn_backend_key :: CancelKey
  cn_arrivals :: "arrival list"
  cn_sent :: "sent list"

fun handshake_loop :: "('k, 'z) client_lib_scheme \<Rightarrow> ServerCredentials \<Rightarrow> arrival list \<Rightarrow> 'k StartupState \<Rightarrow> sent list
    \<Rightarrow> HandshakeError + ServerConnection" where
  "handshake_loop L c [] s out = Inl HandshakeClosed"
| "handshake_loop L c (ReadFailed # _) s out = Inl HandshakeIo"
| "handshake_loop L c (Arrived m # arrivals) s out =
     (case handshake_message L c m s of
        Inl (Inl e) \<Rightarrow> Inl e
      | Inl (Inr key) \<Rightarrow>
          Inr \<lparr>cn_parameters = su_parameters s, cn_backend_key = key, cn_arrivals = arrivals, cn_sent = out\<rparr>
      | Inr (ms, s') \<Rightarrow> handshake_loop L c arrivals s' (out @ ms))"

definition handshake :: "('k, 'z) client_lib_scheme \<Rightarrow> ServerCredentials \<Rightarrow> ApplicationName \<Rightarrow> arrival list
    \<Rightarrow> HandshakeError + ServerConnection" where
  "handshake L c name arrivals =
     handshake_loop L c arrivals StartupState_default [SentStartup (startup_request c name)]"

section \<open>A simple query\<close>

fun row_values :: "bytes option list option \<Rightarrow> QueryError + row" where
  "row_values None = Inl QueryIo"
| "row_values (Some ranges) = Inr (map (map_option from_utf8_lossy) ranges)"

text \<open>One message of the answer; the left alternative of the result ends the query.\<close>

definition query_message :: "Message \<Rightarrow> row list \<Rightarrow> QueryError option \<Rightarrow> (bytes, bytes) btree_map
    \<Rightarrow> (QueryError + row list) + row list \<times> QueryError option \<times> (bytes, bytes) btree_map" where
  "query_message m rows refusal ps =
     (case m of
        MReadyForQuery _ \<Rightarrow> Inl (case refusal of None \<Rightarrow> Inr rows | Some e \<Rightarrow> Inl e)
      | MDataRow ranges \<Rightarrow>
          (case row_values ranges of
             Inl e \<Rightarrow> Inl (Inl e)
           | Inr r \<Rightarrow> Inr (rows @ [r], refusal, ps))
      | MRowDescription \<Rightarrow> Inr (rows, refusal, ps)
      | MCommandComplete \<Rightarrow> Inr (rows, refusal, ps)
      | MEmptyQueryResponse \<Rightarrow> Inr (rows, refusal, ps)
      | MErrorResponse fs \<Rightarrow>
          Inr (rows, Some (QueryServer (error_field fs SQLSTATE_FIELD) (error_field fs MESSAGE_FIELD)), ps)
      | MNoticeResponse \<Rightarrow> Inr (rows, refusal, ps)
      | MParameterStatus (Some name) (Some val) \<Rightarrow> Inr (rows, refusal, bt_insert name val ps)
      | MParameterStatus _ _ \<Rightarrow> Inl (Inl QueryIo)
      | _ \<Rightarrow> Inl (Inl (QueryUnexpected
          ''message other than a row, a completion, ParameterStatus, NoticeResponse, ErrorResponse or ReadyForQuery in a simple query result'')))"

fun query_loop :: "arrival list \<Rightarrow> row list \<Rightarrow> QueryError option \<Rightarrow> ServerConnection \<Rightarrow> (QueryError + row list) \<times> ServerConnection" where
  "query_loop [] rows refusal s = (Inl QueryClosed, s\<lparr>cn_arrivals := []\<rparr>)"
| "query_loop (ReadFailed # as) rows refusal s = (Inl QueryIo, s\<lparr>cn_arrivals := as\<rparr>)"
| "query_loop (Arrived m # as) rows refusal s =
     (case query_message m rows refusal (cn_parameters s) of
        Inl r \<Rightarrow> (r, s\<lparr>cn_arrivals := as\<rparr>)
      | Inr (rows', refusal', ps) \<Rightarrow> query_loop as rows' refusal' (s\<lparr>cn_parameters := ps\<rparr>))"

definition simple_query :: "('k, 'z) client_lib_scheme \<Rightarrow> bytes \<Rightarrow> ServerConnection \<Rightarrow> (QueryError + row list) \<times> ServerConnection" where
  "simple_query L sql s =
     (if encodes L (SentQuery sql) then query_loop (cn_arrivals s) [] None (s\<lparr>cn_sent := cn_sent s @ [SentQuery sql]\<rparr>)
      else (Inl QueryIo, s))"

section \<open>Encryption towards the server\<close>

datatype SslMode = SslDisable | SslPrefer | SslRequire | SslVerifyCa | SslVerifyFull

definition demands_encryption :: "SslMode \<Rightarrow> bool" where
  "demands_encryption m \<longleftrightarrow> m = SslRequire \<or> m = SslVerifyCa \<or> m = SslVerifyFull"

definition SslMode_verifies :: "SslMode \<Rightarrow> bool" where
  "SslMode_verifies m \<longleftrightarrow> m = SslVerifyCa \<or> m = SslVerifyFull"

definition SslMode_default :: SslMode where
  "SslMode_default = SslPrefer"

fun SslMode_display :: "SslMode \<Rightarrow> string" where
  "SslMode_display SslDisable = ''disable''"
| "SslMode_display SslPrefer = ''prefer''"
| "SslMode_display SslRequire = ''require''"
| "SslMode_display SslVerifyCa = ''verify-ca''"
| "SslMode_display SslVerifyFull = ''verify-full''"

text \<open>
  \<open>answer\<close> is the one byte read back, absent when the read fails, and \<open>handshake_ok\<close> what the TLS
  library makes of the host's certificate. The result says whether the stream is encrypted, beside
  what was written to it in the clear.
\<close>

definition request_encryption :: "SslMode \<Rightarrow> (string \<Rightarrow> bool) \<Rightarrow> string \<Rightarrow> byte option \<Rightarrow> (ConnectError + bool) \<times> sent list" where
  "request_encryption mode handshake_ok host reply =
     (if mode = SslDisable then (Inr False, [])
      else
        (case reply of
           None \<Rightarrow> Inl (ConnectHandshake HandshakeIo)
         | Some b \<Rightarrow>
             if b = CHR ''S'' then (if handshake_ok host then Inr True else Inl ConnectEncryption)
             else if b = CHR ''N'' then (if demands_encryption mode then Inl EncryptionRefused else Inr False)
             else Inl (EncryptionAnswer b),
         [SentStartup Ssl]))"

text \<open>\<open>str::parse::<u16>\<close>, and the host of an address.\<close>

definition parse_u16 :: "bytes \<Rightarrow> nat option" where
  "parse_u16 s = (case parse_u32 s of Some n \<Rightarrow> if n \<le> 65535 then Some n else None | None \<Rightarrow> None)"

fun rsplit_colon :: "bytes \<Rightarrow> (bytes \<times> bytes) option" where
  "rsplit_colon [] = None"
| "rsplit_colon (b # bs) =
     (case rsplit_colon bs of
        Some (l, r) \<Rightarrow> Some (b # l, r)
      | None \<Rightarrow> if b = CHR '':'' then Some ([], bs) else None)"

definition host_of :: "bytes \<Rightarrow> bytes" where
  "host_of addr =
     (let plain =
        (case rsplit_colon addr of
           Some (host, port) \<Rightarrow> if parse_u16 port \<noteq> None then host else addr
         | None \<Rightarrow> addr) in
      case addr of
        [] \<Rightarrow> plain
      | b # rest \<Rightarrow>
          if b = CHR ''['' then
            (if CHR '']'' \<in> set rest then takeWhile (\<lambda>c. c \<noteq> CHR '']'') rest else addr)
          else plain)"

text \<open>The whole of \<open>connect\<close>; \<open>reached\<close> says whether the network reaches the address.\<close>

definition connect :: "('k, 'z) client_lib_scheme \<Rightarrow> bool \<Rightarrow> bytes \<Rightarrow> ServerCredentials \<Rightarrow> ApplicationName \<Rightarrow> SslMode
    \<Rightarrow> (string \<Rightarrow> bool) \<Rightarrow> byte option \<Rightarrow> arrival list \<Rightarrow> ConnectError + bool \<times> ServerConnection" where
  "connect L reached addr c name mode handshake_ok reply arrivals =
     (if \<not> reached then Inl Unreachable
      else case request_encryption mode handshake_ok (host_of addr) reply of
        (Inl e, _) \<Rightarrow> Inl e
      | (Inr enc, _) \<Rightarrow>
          (case handshake L c name arrivals of
             Inl e \<Rightarrow> Inl (ConnectHandshake e)
           | Inr s \<Rightarrow> Inr (enc, s)))"

section \<open>What a finished handshake means\<close>

text \<open>What the messages of a startup say, read off their sequence.\<close>

definition sasl_open :: "Message list \<Rightarrow> bool" where
  "sasl_open ms = foldl (\<lambda>open m. case m of MSasl _ \<Rightarrow> True | MSaslFinal _ \<Rightarrow> False | _ \<Rightarrow> open) False ms"

fun key_of :: "Message \<Rightarrow> CancelKey list" where
  "key_of (MBackendKeyData pid key) = [\<lparr>process_id = pid, secret_key = key\<rparr>]"
| "key_of _ = []"

fun parameter_of :: "Message \<Rightarrow> (bytes \<times> bytes) list" where
  "parameter_of (MParameterStatus (Some name) (Some val)) = [(name, val)]"
| "parameter_of _ = []"

definition startup_keys :: "Message list \<Rightarrow> CancelKey list" where
  "startup_keys ms = concat (map key_of ms)"

definition startup_parameters :: "Message list \<Rightarrow> (bytes \<times> bytes) list" where
  "startup_parameters ms = concat (map parameter_of ms)"

definition proved_before_ok :: "Message list \<Rightarrow> bool" where
  "proved_before_ok ms \<longleftrightarrow> (\<forall>a b. ms = a @ MAuthenticationOk # b \<longrightarrow> \<not> sasl_open a)"

definition finals_checked :: "('k, 'z) client_lib_scheme \<Rightarrow> Message list \<Rightarrow> bool" where
  "finals_checked L ms \<longleftrightarrow> (\<forall>data. MSaslFinal data \<in> set ms \<longrightarrow> (\<exists>k. scram_finish L data k \<noteq> None))"

definition startup_inv :: "('k, 'z) client_lib_scheme \<Rightarrow> Message list \<Rightarrow> 'k StartupState \<Rightarrow> bool" where
  "startup_inv L ms s \<longleftrightarrow>
     (sasl_open ms \<longleftrightarrow> (case su_scram s of ScramInProgress _ \<Rightarrow> True | _ \<Rightarrow> False))
     \<and> su_backend_key s = (if startup_keys ms = [] then None else Some (last (startup_keys ms)))
     \<and> (\<forall>n. bt_get (su_parameters s) n = map_of (rev (startup_parameters ms)) n)
     \<and> (su_authenticated s \<longleftrightarrow> MAuthenticationOk \<in> set ms) \<and> proved_before_ok ms \<and> finals_checked L ms"

lemma startup_inv_default: "startup_inv L [] StartupState_default"
  by (simp add: startup_inv_def StartupState_default_def sasl_open_def startup_keys_def startup_parameters_def
      proved_before_ok_def finals_checked_def)

lemma proved_before_ok_snoc:
  "proved_before_ok (ms @ [m]) \<longleftrightarrow> proved_before_ok ms \<and> (m = MAuthenticationOk \<longrightarrow> \<not> sasl_open ms)"
proof -
  have "(\<exists>b. ms @ [m] = a @ MAuthenticationOk # b)
      \<longleftrightarrow> (\<exists>b. ms = a @ MAuthenticationOk # b) \<or> m = MAuthenticationOk \<and> a = ms" for a
  proof
    assume "\<exists>b. ms @ [m] = a @ MAuthenticationOk # b"
    then obtain b where "ms @ [m] = a @ MAuthenticationOk # b" by blast
    then show "(\<exists>b. ms = a @ MAuthenticationOk # b) \<or> m = MAuthenticationOk \<and> a = ms"
      by (cases b rule: rev_cases) auto
  qed auto
  then show ?thesis unfolding proved_before_ok_def by blast
qed

lemma snoc_simps:
  "sasl_open (ms @ [m]) = (case m of MSasl _ \<Rightarrow> True | MSaslFinal _ \<Rightarrow> False | _ \<Rightarrow> sasl_open ms)"
  "startup_keys (ms @ [m]) = startup_keys ms @ key_of m"
  "startup_parameters (ms @ [m]) = startup_parameters ms @ parameter_of m"
  "finals_checked L (ms @ [m]) \<longleftrightarrow>
     finals_checked L ms \<and> (\<forall>data. m = MSaslFinal data \<longrightarrow> (\<exists>k. scram_finish L data k \<noteq> None))"
  by (cases m; simp add: sasl_open_def)
    (auto simp: startup_keys_def startup_parameters_def finals_checked_def)

lemmas snoc_rules = snoc_simps proved_before_ok_snoc

lemma send_Inr: "send L m s = Inr (out, s') \<Longrightarrow> s' = s"
  by (simp add: send_def split: if_splits)

lemma answer_authentication_Inr:
  assumes "answer_authentication L c m s = Inr (out, s')"
  shows "(\<exists>mechanisms k. m = MSasl mechanisms \<and> s' = s\<lparr>su_scram := ScramInProgress k\<rparr>)
    \<or> (\<exists>data k k'. m = MSaslContinue data \<and> su_scram s = ScramInProgress k \<and> s' = s\<lparr>su_scram := ScramInProgress k'\<rparr>)
    \<or> (\<exists>data k. m = MSaslFinal data \<and> su_scram s = ScramInProgress k \<and> scram_finish L data k \<noteq> None
         \<and> s' = s\<lparr>su_scram := ScramProved\<rparr>)
    \<or> (\<exists>salt. m = MMd5Password salt \<and> s' = s)"
  using assms
  by (cases m) (auto simp: scram_in_progress_def Let_def dest!: send_Inr
      split: sum.splits bool.splits option.splits ScramProgress.splits)

lemma startup_inv_step:
  assumes "startup_inv L ms s" "handshake_message L c m s = Inr (out, s')"
  shows "startup_inv L (ms @ [m]) s'"
proof -
  have auth: "startup_inv L (ms @ [m]) s'"
    if "answer_authentication L c m s = Inr (out, s')"
    using answer_authentication_Inr [OF that] assms(1)
    by (elim disjE exE conjE) (auto simp: startup_inv_def snoc_rules)
  show ?thesis
  proof (cases m)
    case (MParameterStatus n v)
    with assms show ?thesis
      by (cases n; cases v) (auto simp: handshake_message_def startup_inv_def snoc_rules)
  next
    case MAuthenticationOk
    with assms show ?thesis
      by (cases "su_scram s") (auto simp: handshake_message_def authentication_ok_def startup_inv_def snoc_rules)
  next
    case (MBackendKeyData pid key)
    with assms show ?thesis by (auto simp: handshake_message_def startup_inv_def snoc_rules)
  next
    case MNoticeResponse
    with assms show ?thesis by (auto simp: handshake_message_def startup_inv_def snoc_rules)
  qed (use assms(2) auth in \<open>auto simp: handshake_message_def split: sum.splits\<close>)
qed

lemma handshake_loop_inv:
  assumes "startup_inv L pre s" "handshake_loop L c as s out = Inr conn"
  shows "\<exists>ms st s'. as = map Arrived (ms @ [MReadyForQuery st]) @ cn_arrivals conn \<and> startup_inv L (pre @ ms) s'
    \<and> StartupState_ready st s' = Inr (cn_backend_key conn) \<and> cn_parameters conn = su_parameters s'"
  using assms
proof (induction L c as s out arbitrary: pre rule: handshake_loop.induct)
  case (3 L c m as s out)
  show ?case
  proof (cases "handshake_message L c m s")
    case (Inl r)
    with 3(3) obtain key where r: "r = Inr key" by (cases r) auto
    then obtain st where "m = MReadyForQuery st" "StartupState_ready st s = Inr key"
      using Inl by (auto simp: handshake_message_def split: Message.splits sum.splits option.splits)
    with 3(2,3) Inl r show ?thesis by (intro exI [of _ "[]"]) auto
  next
    case (Inr r)
    then obtain ms1 s1 where h: "handshake_message L c m s = Inr (ms1, s1)" by (cases r) simp
    from 3(3) h have l: "handshake_loop L c as s1 (out @ ms1) = Inr conn" by simp
    from "3.IH" [OF h refl startup_inv_step [OF 3(2) h] l] obtain ms st s' where
      "as = map Arrived (ms @ [MReadyForQuery st]) @ cn_arrivals conn" "startup_inv L (pre @ m # ms) s'"
      "StartupState_ready st s' = Inr (cn_backend_key conn)" "cn_parameters conn = su_parameters s'" by auto
    then show ?thesis by (intro exI [of _ "m # ms"]) auto
  qed
qed simp_all

text \<open>
  C17: What a finished handshake means. A connection is handed out only after the server said
  AuthenticationOk, never while a SCRAM exchange was open, so a server that asked for SCRAM has
  proved with its final message that it knows the password; the session is idle, its cancel key is
  the last one announced and its parameters have the last values reported.
\<close>

theorem handshake_means:
  assumes "handshake L c name arrivals = Inr conn"
  shows "\<exists>ms. arrivals = map Arrived (ms @ [MReadyForQuery IDLE]) @ cn_arrivals conn
    \<and> MAuthenticationOk \<in> set ms
    \<and> (\<forall>a b. ms = a @ MAuthenticationOk # b \<longrightarrow> \<not> sasl_open a)
    \<and> (\<forall>data. MSaslFinal data \<in> set ms \<longrightarrow> (\<exists>k. scram_finish L data k \<noteq> None))
    \<and> startup_keys ms \<noteq> [] \<and> cn_backend_key conn = last (startup_keys ms)
    \<and> (\<forall>n. bt_get (cn_parameters conn) n = map_of (rev (startup_parameters ms)) n)"
proof -
  from handshake_loop_inv [OF startup_inv_default assms [unfolded handshake_def]] obtain ms st s where
    *: "arrivals = map Arrived (ms @ [MReadyForQuery st]) @ cn_arrivals conn" "startup_inv L ms s"
      "StartupState_ready st s = Inr (cn_backend_key conn)" "cn_parameters conn = su_parameters s" by auto
  then have "st = IDLE" by (auto simp: StartupState_ready_def split: if_splits option.splits)
  with * show ?thesis
    by (intro exI [of _ ms])
      (auto simp: startup_inv_def StartupState_ready_def proved_before_ok_def finals_checked_def split: if_splits option.splits)
qed

text \<open>A library whose server proof is the password read backwards, to evaluate a handshake with.\<close>

definition demo_lib :: "bytes client_lib" where
  "demo_lib = \<lparr>scram_new = (\<lambda>pw. pw), scram_message = (\<lambda>k. k), scram_update = (\<lambda>d k. Some k),
     scram_finish = (\<lambda>d k. if d = rev k then Some k else None), md5_hash = (\<lambda>u p s. rev p @ s), encodes = (\<lambda>_. True)\<rparr>"

definition demo_login :: ServerCredentials where
  "demo_login = \<lparr>sc_login = ''app'', sc_database = ''db'', sc_secret = Some ''pw''\<rparr>"

definition demo_startup :: "Message list" where
  "demo_startup = [MSasl [Some ''SCRAM-SHA-256-PLUS'', Some ''SCRAM-SHA-256''], MSaslContinue ''first'', MSaslFinal ''wp'',
     MAuthenticationOk, MParameterStatus (Some ''TimeZone'') (Some ''UTC''), MBackendKeyData 7 8]"

theorem handshake_means_witness:
  "\<exists>conn ms. handshake demo_lib demo_login (ApplicationName_new ''proxy'')
       (map Arrived (demo_startup @ [MReadyForQuery CHR ''I''])) = Inr conn
    \<and> map Arrived (demo_startup @ [MReadyForQuery CHR ''I'']) = map Arrived (ms @ [MReadyForQuery IDLE]) @ cn_arrivals conn
    \<and> cn_backend_key conn = last (startup_keys ms)"
proof -
  let ?h = "handshake demo_lib demo_login (ApplicationName_new ''proxy'') (map Arrived (demo_startup @ [MReadyForQuery CHR ''I'']))"
  have "\<not> isl ?h" by code_simp
  then obtain conn where h: "?h = Inr conn" by (cases ?h) auto
  from handshake_means [OF h] h show ?thesis by blast
qed

section \<open>What a simple query returns\<close>

fun in_result :: "Message \<Rightarrow> bool" where
  "in_result (MDataRow (Some _)) = True"
| "in_result (MErrorResponse _) = True"
| "in_result (MParameterStatus (Some _) (Some _)) = True"
| "in_result m \<longleftrightarrow> m \<in> {MRowDescription, MCommandComplete, MEmptyQueryResponse, MNoticeResponse}"

fun rows_in :: "Message \<Rightarrow> row list" where
  "rows_in (MDataRow (Some ranges)) = [map (map_option from_utf8_lossy) ranges]"
| "rows_in _ = []"

fun error_in :: "Message \<Rightarrow> QueryError list" where
  "error_in (MErrorResponse fs) = [QueryServer (error_field fs SQLSTATE_FIELD) (error_field fs MESSAGE_FIELD)]"
| "error_in _ = []"

definition query_outcome :: "QueryError list \<Rightarrow> row list \<Rightarrow> QueryError + row list" where
  "query_outcome errors rows = (if errors = [] then Inr rows else Inl (last errors))"

lemma query_outcome_last: "query_outcome (es @ e # fs) rows = query_outcome (e # fs) rows"
  by (simp add: query_outcome_def)

lemma query_loop_result:
  assumes "list_all in_result ms"
  shows "\<exists>s'. query_loop (map Arrived ms @ Arrived (MReadyForQuery st) # rest) rows refusal s =
       (query_outcome ((case refusal of None \<Rightarrow> [] | Some e \<Rightarrow> [e]) @ concat (map error_in ms)) (rows @ concat (map rows_in ms)), s')
     \<and> cn_arrivals s' = rest \<and> cn_sent s' = cn_sent s \<and> cn_backend_key s' = cn_backend_key s"
  using assms
proof (induction ms arbitrary: rows refusal s)
  case Nil
  then show ?case by (cases refusal) (simp_all add: query_outcome_def query_message_def)
next
  case (Cons m ms)
  then have ih: "list_all in_result ms" and m: "in_result m" by simp_all
  note IH = Cons.IH [OF ih]
  show ?case
  proof (cases m)
    case (MDataRow r)
    with m obtain ranges where r: "r = Some ranges" by (cases r) auto
    show ?thesis
      using IH [of "rows @ [map (map_option from_utf8_lossy) ranges]" refusal s] by (simp add: MDataRow r query_message_def)
  next
    case (MErrorResponse fs)
    show ?thesis
      using IH [of rows "Some (QueryServer (error_field fs SQLSTATE_FIELD) (error_field fs MESSAGE_FIELD))" s]
      by (cases refusal) (simp_all add: MErrorResponse query_message_def query_outcome_last [of "[_]", simplified])
  next
    case (MParameterStatus n v)
    with m obtain n' v' where nv: "n = Some n'" "v = Some v'" by (cases n; cases v) auto
    show ?thesis
      using IH [of rows refusal "s\<lparr>cn_parameters := bt_insert n' v' (cn_parameters s)\<rparr>"]
      by (simp add: MParameterStatus nv query_message_def)
  qed (use m IH [of rows refusal s] in \<open>simp_all add: query_message_def\<close>)
qed

lemma simple_query_result:
  assumes "list_all in_result ms" "encodes L (SentQuery sql)"
    and "cn_arrivals s = map Arrived ms @ Arrived (MReadyForQuery st) # rest"
  shows "fst (simple_query L sql s) =
      (if concat (map error_in ms) = [] then Inr (concat (map rows_in ms)) else Inl (last (concat (map error_in ms))))
    \<and> cn_arrivals (snd (simple_query L sql s)) = rest
    \<and> cn_sent (snd (simple_query L sql s)) = cn_sent s @ [SentQuery sql]"
  using query_loop_result [OF assms(1), of st rest "[]" None "s\<lparr>cn_sent := cn_sent s @ [SentQuery sql]\<rparr>"]
  by (auto simp: simple_query_def assms(2,3) query_outcome_def)

text \<open>
  A simple query returns all of its rows or the error. When the server answers with rows,
  completions, notices, parameters and errors in any order up to ReadyForQuery, the query returns
  every row in order with every value, or, if there was an error, the last one; the answer is
  consumed up to its end and not beyond, so the connection is ready for the next query.
\<close>

theorem simple_query_returns:
  assumes "list_all in_result ms" "encodes L (SentQuery sql)"
    and "cn_arrivals s = map Arrived ms @ Arrived (MReadyForQuery st) # rest"
  shows "fst (simple_query L sql s) =
      (if concat (map error_in ms) = [] then Inr (concat (map rows_in ms)) else Inl (last (concat (map error_in ms))))
    \<and> cn_arrivals (snd (simple_query L sql s)) = rest
    \<and> cn_sent (snd (simple_query L sql s)) = cn_sent s @ [SentQuery sql]"
  using assms by (rule simple_query_result)

theorem simple_query_returns_witness:
  "fst (simple_query demo_lib ''SHOW x'' \<lparr>cn_parameters = [], cn_backend_key = \<lparr>process_id = 1, secret_key = 2\<rparr>,
      cn_arrivals = map Arrived [MRowDescription, MDataRow (Some [Some ''7'', None]), MCommandComplete]
        @ Arrived (MReadyForQuery CHR ''I'') # [], cn_sent = []\<rparr>) = Inr [[Some ''7'', None]]"
proof -
  let ?ms = "[MRowDescription, MDataRow (Some [Some ''7'', None]), MCommandComplete]"
  let ?s = "\<lparr>cn_parameters = [], cn_backend_key = \<lparr>process_id = 1, secret_key = 2\<rparr>,
    cn_arrivals = map Arrived ?ms @ Arrived (MReadyForQuery CHR ''I'') # [], cn_sent = []\<rparr>"
  have "list_all in_result ?ms" "encodes demo_lib (SentQuery ''SHOW x'')" by code_simp+
  moreover have "cn_arrivals ?s = map Arrived ?ms @ Arrived (MReadyForQuery CHR ''I'') # []" by simp
  moreover have "from_utf8_lossy ''7'' = ''7''" by code_simp
  ultimately show ?thesis using simple_query_returns [of ?ms demo_lib "''SHOW x''" ?s] by simp
qed

section \<open>Encryption that is demanded is had\<close>

lemma connect_encrypted:
  assumes "demands_encryption mode"
    and "connect L reached addr c name mode handshake_ok reply arrivals = Inr (enc, s)"
  shows "enc \<and> handshake_ok (host_of addr) \<and> reply = Some CHR ''S''
    \<and> snd (request_encryption mode handshake_ok (host_of addr) reply) = [SentStartup Ssl]"
  using assms
  by (auto simp: connect_def request_encryption_def demands_encryption_def
      split: if_splits prod.splits sum.splits option.splits)

end
