(* ===== verification/Transaction.thy ===== *)
theory Transaction
  imports Relay Cancel Server Pool
begin

text \<open>
  A client session on pooled connections (\<open>transaction_mode\<close> of \<open>crates/core/src/relay.rs\<close>) with the
  handles of the pool it uses (\<open>acquire\<close>, \<open>release\<close> and \<open>discard\<close> of \<open>crates/core/src/pool.rs\<close>).

  The pool and the registry of cancel keys are shared with other clients, so a session is the
  sequence of what it does to them and to its two streams: a list of \<open>act\<close>s. What it meets is a
  script: what \<open>acquire\<close> answers, what is read from the client, what happens during an assignment and
  how the reset ends, one \<open>turn\<close> per turn of the loop. A script that runs out is a session that is
  still waiting. A message too long to be written is the error \<open>RelayPanic\<close>, as in the theory Relay.

  The protocol a session has to keep towards the pool is the step relation \<open>tx_step\<close>; the properties
  show that every session is a run of it.
\<close>

section \<open>Handles of the pool\<close>

definition RESET :: string where "RESET = ''DISCARD ALL''"

datatype PoolError = WaitTimeout nat | PoolOpen ConnectError | PoolClosed

record InstanceOpener =
  op_addr :: string
  op_credentials :: ServerCredentials
  op_application_name :: ApplicationName

record PoolLimits =
  pl_limit_slots :: nat
  pl_limit_wait_timeout :: nat

text \<open>
  Opening into a reservation: it is fulfilled, or dropped when the opening fails, which passes the
  slot on. The last result is the waiter the slot went to.
\<close>

definition open_into :: "(nat \<Rightarrow> bool) \<Rightarrow> ConnectError + 'c \<Rightarrow> 'c Pool \<Rightarrow> (PoolError + 'c) \<times> 'c Pool \<times> nat option" where
  "open_into alive r p =
     (case r of
        Inl e \<Rightarrow> (case drop_reservation alive p of (p', w) \<Rightarrow> (Inl (PoolOpen e), p', w))
      | Inr c \<Rightarrow> (Inr c, fulfil p, None))"

text \<open>
  How the wait of a queued client ends: by a handoff, by its sender being dropped, or by the timeout,
  with what the channel holds then. Whichever way it ends, the client is taken out of the queue
  (\<open>Queued\<close>).
\<close>

datatype 'c wait_end = WaitHanded "'c Handoff" | WaitDropped | WaitExpired nat "'c Handoff option"

definition wait :: "nat \<Rightarrow> 'c wait_end \<Rightarrow> 'c Pool \<Rightarrow> (PoolError + 'c Handoff) \<times> 'c Pool" where
  "wait ticket e p =
     (case e of
        WaitHanded h \<Rightarrow> (Inr h, fst (give_up ticket p))
      | WaitDropped \<Rightarrow> (Inl PoolClosed, fst (give_up ticket p))
      | WaitExpired waited received \<Rightarrow>
          (let (p, queued) = give_up ticket p in
           (if queued then Inl (WaitTimeout waited)
            else case received of None \<Rightarrow> Inl (WaitTimeout waited) | Some h \<Rightarrow> Inr h,
            fst (give_up ticket p))))"

text \<open>
  The whole of \<open>acquire\<close>. While a client waits and while its connection is opened other clients use
  the pool: \<open>waiting\<close> and \<open>opening\<close> are what they do to it in that time, \<open>ended\<close> how the wait of a
  ticket ends and \<open>connected\<close> what opening answers.
\<close>

definition acquire :: "(nat \<Rightarrow> bool) \<Rightarrow> (nat \<Rightarrow> 'c wait_end) \<Rightarrow> ConnectError + 'c \<Rightarrow> ('c Pool \<Rightarrow> 'c Pool) \<Rightarrow> ('c Pool \<Rightarrow> 'c Pool)
    \<Rightarrow> 'c Pool \<Rightarrow> (PoolError + 'c) \<times> 'c Pool \<times> nat option" where
  "acquire alive ended connected waiting opening p =
     (case request p of
        (p, Request_assigned c) \<Rightarrow> (Inr c, p, None)
      | (p, Request_reserved) \<Rightarrow> open_into alive connected (opening p)
      | (p, Request_queued ticket) \<Rightarrow>
          (case wait ticket (ended ticket) (waiting p) of
             (Inl e, p) \<Rightarrow> (Inl e, p, None)
           | (Inr (Handoff_connection c), p) \<Rightarrow> (Inr c, p, None)
           | (Inr Handoff_slot, p) \<Rightarrow> open_into alive connected (opening p)))"

text \<open>
  A client that is let in without waiting adds one assignment, to an idle connection or to a slot
  that was free; one whose wait expires leaves the queue as if it had never come.
\<close>

lemma acquire_at_once:
  assumes "pl_idle p \<noteq> [] \<or> Pool_occupied p < pl_slots p" "acquire alive ended (Inr c) waiting id p = (r, p', w)"
  shows "\<exists>c'. r = Inr c'" "pl_in_use p' = pl_in_use p + 1" "pl_waiters p' = pl_waiters p"
    "Pool_occupied p' = Pool_occupied p + (if pl_idle p = [] then 1 else 0)"
  using assms
  by (auto simp: acquire_def request_def vec_pop_def open_into_def fulfil_def Pool_occupied_def split: if_splits)

lemma acquire_expires:
  assumes "pl_idle p = []" "\<not> Pool_occupied p < pl_slots p" "queue_ordered p"
    and "ended (pl_next_ticket p) = WaitExpired waited received"
  shows "acquire alive ended connected id opening p
    = (Inl (WaitTimeout waited), p\<lparr>pl_next_ticket := pl_next_ticket p + 1\<rparr>, None)"
proof -
  have "filter (\<lambda>w. w \<noteq> pl_next_ticket p) (pl_waiters p) = pl_waiters p"
    using assms(3) by (auto simp: queue_ordered_def filter_id_conv)
  with assms(1,2,4) show ?thesis
    by (simp add: acquire_def request_def vec_pop_def wait_def give_up_def Let_def)
qed

text \<open>
  A release resets the connection first; \<open>reset\<close> is what its simple query answers. A connection
  whose reset failed is discarded and its slot passed on.
\<close>

definition Assigned_release :: "(nat \<Rightarrow> bool) \<Rightarrow> QueryError + row list \<Rightarrow> 'c \<Rightarrow> 'c Pool \<Rightarrow> 'c Pool \<times> nat option" where
  "Assigned_release alive reset c p = (case reset of Inr _ \<Rightarrow> release alive p c | Inl _ \<Rightarrow> discard alive p)"

section \<open>The greeting\<close>

text \<open>A server connection as the session sees it, with a number that tells connections apart.\<close>

record server_conn =
  sv_id :: nat
  sv_parameters :: "(bytes, bytes) btree_map"
  sv_key :: CancelKey
  sv_buf :: bytes

text \<open>
  The parameters every client is greeted with: a once-only cell. The first client borrows a
  connection and gives it straight back; \<open>meanwhile\<close> is what another client has set in the meantime.
\<close>

type_synonym Welcome = "(bytes \<times> bytes) list option"

definition Welcome_parameters :: "PoolError + server_conn \<Rightarrow> Welcome \<Rightarrow> Welcome
    \<Rightarrow> (PoolError + (bytes \<times> bytes) list) \<times> Welcome \<times> server_conn option" where
  "Welcome_parameters acquired meanwhile w =
     (case w of
        Some ps \<Rightarrow> (Inr ps, w, None)
      | None \<Rightarrow>
          (case acquired of
             Inl e \<Rightarrow> (Inl e, None, None)
           | Inr c \<Rightarrow>
               (let ps = (case meanwhile of Some ps \<Rightarrow> ps | None \<Rightarrow> sv_parameters c) in
                (Inr ps, Some ps, Some c))))"

definition client_greeting :: "(bytes \<times> bytes) list \<Rightarrow> CancelKey \<Rightarrow> bytes option" where
  "client_greeting ps key =
     append_out
       (append_out (fold (\<lambda>(name, val) out. append_out out (encode_parameter_status name val)) ps (Some []))
         (encode_backend_key_data key))
       (encode_ready_for_query Idle)"

text \<open>
  Session mode, up to the copy in both directions: what is written to the client and to the server
  from what both had sent before.
\<close>

definition session_mode :: "server_conn \<Rightarrow> bytes \<Rightarrow> (RelayError + bytes \<times> bytes)" where
  "session_mode server from_client =
     (case client_greeting (sv_parameters server) (sv_key server) of
        None \<Rightarrow> Inl RelayPanic
      | Some g \<Rightarrow> Inr (g @ sv_buf server, from_client))"

section \<open>The session\<close>

datatype act =
    Acquired server_conn
  | Returned_untouched server_conn
  | Issued CancelKey
  | Aimed InstanceId CancelKey
  | Exchanged server_conn bytes "client_out list"
  | Stood_down
  | Reset_done server_conn
  | Put_back server_conn
  | Closed server_conn
  | Greeted bytes
  | Told bytes

record turn =
  tn_fill :: "bytes option"
  tn_waiting :: "bytes option list"
  tn_acquired :: "PoolError + server_conn"
  tn_events :: "relay_event list"
  tn_reset :: "QueryError + row list"

datatype TxError = TxRelay RelayError | TxPool PoolError

datatype tx_end = TxRunning | TxDone | TxFailed TxError

text \<open>
  Waiting for a slot: the reads that finish before \<open>acquire\<close> does. A client that goes away, by the
  end of its stream or an error, gives no assignment.
\<close>

fun slot_for :: "bytes option list \<Rightarrow> PoolError + server_conn \<Rightarrow> bytes \<Rightarrow> (PoolError + server_conn option) \<times> bytes" where
  "slot_for [] acquired buf = (map_sum id Some acquired, buf)"
| "slot_for (None # _) acquired buf = (Inr None, buf)"
| "slot_for (Some chunk # rs) acquired buf =
     (if chunk = [] then (Inr None, buf) else slot_for rs acquired (buf @ chunk))"

text \<open>\<open>debug\<close> is the text of a duration.\<close>

definition wait_timed_out :: "(nat \<Rightarrow> string) \<Rightarrow> nat \<Rightarrow> ErrorResponse" where
  "wait_timed_out debug waited =
     with_hint ''Retry, or ask for more connection slots for this tenant.''
       (ErrorResponse_fatal TOO_MANY_CONNECTIONS
         (''no server connection became free within '' @ debug waited))"

definition tx_give_up :: "(nat \<Rightarrow> string) \<Rightarrow> PoolError \<Rightarrow> tx_end \<times> act list" where
  "tx_give_up debug e =
     (case e of
        WaitTimeout waited \<Rightarrow>
          (case encode_error_response (wait_timed_out debug waited) of
             None \<Rightarrow> (TxFailed (TxRelay RelayPanic), [])
           | Some out \<Rightarrow> (TxDone, [Told out]))
      | _ \<Rightarrow> (TxFailed (TxPool e), []))"

definition tx_release :: "QueryError + row list \<Rightarrow> server_conn \<Rightarrow> act list" where
  "tx_release reset c = (case reset of Inr _ \<Rightarrow> [Reset_done c, Put_back c] | Inl _ \<Rightarrow> [Closed c])"

text \<open>One assignment: how the session ends with it, or what is pending for the next turn.\<close>

definition tx_assignment :: "InstanceId \<Rightarrow> turn \<Rightarrow> server_conn \<Rightarrow> bytes \<Rightarrow> (tx_end + bytes) \<times> act list" where
  "tx_assignment i t c buf =
     (let start = [Acquired c, Aimed i (sv_key c)] in
      case serve_assignment (tn_events t) buf (sv_buf c) of
        Waiting s \<Rightarrow> (Inl TxRunning, start @ [Exchanged c (to_server s) (to_client s)])
      | Ended boundary s \<Rightarrow>
          (let c' = c\<lparr>sv_buf := read_buf s\<rparr>;
               served = start @ [Exchanged c (to_server s) (to_client s), Stood_down] in
           case boundary of
             Released \<Rightarrow> (Inr (pending s), served @ tx_release (tn_reset t) c')
           | ClientClosed True \<Rightarrow> (Inl TxDone, served @ tx_release (tn_reset t) c')
           | ClientClosed False \<Rightarrow> (Inl TxDone, served @ [Closed c']))
      | Broken e \<Rightarrow> (Inl (TxFailed (TxRelay e)), start @ [Stood_down, Closed c]))"

definition tx_turn :: "(nat \<Rightarrow> string) \<Rightarrow> InstanceId \<Rightarrow> turn \<Rightarrow> bytes \<Rightarrow> (tx_end + bytes) \<times> act list" where
  "tx_turn debug i t buf =
     (case (if buf = [] then tn_fill t else Some buf) of
        None \<Rightarrow> (Inl (TxFailed (TxRelay RelayIo)), [])
      | Some [] \<Rightarrow> (Inl TxDone, [])
      | Some (b # bs) \<Rightarrow>
          if b = FrontendTag_byte Terminate then (Inl TxDone, [])
          else (case slot_for (tn_waiting t) (tn_acquired t) (b # bs) of
              (Inl e, _) \<Rightarrow> (case tx_give_up debug e of (r, acts) \<Rightarrow> (Inl r, acts))
            | (Inr None, _) \<Rightarrow> (Inl TxDone, [])
            | (Inr (Some c), buf) \<Rightarrow> tx_assignment i t c buf))"

fun tx_loop :: "(nat \<Rightarrow> string) \<Rightarrow> InstanceId \<Rightarrow> turn list \<Rightarrow> bytes \<Rightarrow> tx_end \<times> act list" where
  "tx_loop debug i [] buf = (TxRunning, [])"
| "tx_loop debug i (t # ts) buf =
     (case tx_turn debug i t buf of
        (Inl r, acts) \<Rightarrow> (r, acts)
      | (Inr buf', acts) \<Rightarrow> (case tx_loop debug i ts buf' of (r, more_acts) \<Rightarrow> (r, acts @ more_acts)))"

text \<open>The whole session; \<open>key\<close> is the key its ticket was issued.\<close>

definition welcomed :: "CancelKey \<Rightarrow> server_conn option \<Rightarrow> act list" where
  "welcomed key borrowed =
     Issued key # (case borrowed of Some c \<Rightarrow> [Acquired c, Returned_untouched c] | None \<Rightarrow> [])"

definition transaction_mode :: "(nat \<Rightarrow> string) \<Rightarrow> InstanceId \<Rightarrow> CancelKey \<Rightarrow> PoolError + server_conn \<Rightarrow> Welcome
    \<Rightarrow> turn list \<Rightarrow> bytes \<Rightarrow> Welcome \<Rightarrow> (tx_end \<times> act list) \<times> Welcome" where
  "transaction_mode debug i key acquired meanwhile turns buf w =
     (case Welcome_parameters acquired meanwhile w of
        (Inl e, w', _) \<Rightarrow> (case tx_give_up debug e of (r, acts) \<Rightarrow> ((r, Issued key # acts), w'))
      | (Inr ps, w', borrowed) \<Rightarrow>
          (case client_greeting ps key of
             None \<Rightarrow> (TxFailed (TxRelay RelayPanic), welcomed key borrowed)
           | Some g \<Rightarrow>
               (case tx_loop debug i turns buf of (r, acts) \<Rightarrow> (r, welcomed key borrowed @ Greeted g # acts)), w'))"

section \<open>The protocol of a session\<close>

text \<open>
  What the pool and the registry may rely on. \<open>tv_held\<close> is the connection the session holds,
  \<open>tv_used\<close> says that bytes of the client may have reached it, \<open>tv_target\<close> is what the session's
  cancel key points at. \<open>answered_in_full\<close>: the bytes sent to the server are whole messages, the
  bytes copied back are whole replies, and together they end at a transaction boundary.
\<close>

record tx_view =
  tv_held :: "server_conn option"
  tv_used :: bool
  tv_settled :: bool
  tv_target :: "Target option"

definition tx_start :: tx_view where
  "tx_start = \<lparr>tv_held = None, tv_used = False, tv_settled = False, tv_target = None\<rparr>"

definition answered_in_full :: "bytes \<Rightarrow> client_out list \<Rightarrow> bool" where
  "answered_in_full out back \<longleftrightarrow>
     (\<exists>ms rs. encode_all (write_frame MAX_MESSAGE) (map msg_frame ms) = Some out
        \<and> encode_all (write_frame MAX_MESSAGE) rs = Some (relayed back)
        \<and> (requests (map fst ms) \<le> u32_max \<longrightarrow> at_boundary \<lparr>sent = map fst ms, answered = ready_of rs\<rparr>))"

abbreviation same_conn :: "server_conn \<Rightarrow> server_conn \<Rightarrow> bool" where
  "same_conn c d \<equiv> sv_id c = sv_id d \<and> sv_key c = sv_key d"

inductive tx_step :: "tx_view \<Rightarrow> act \<Rightarrow> tx_view \<Rightarrow> bool" where
  tx_acquired: "tx_step v (Acquired c) (v\<lparr>tv_held := Some c, tv_used := False\<rparr>)"
    if "tv_held v = None" "tv_target v = None"
| tx_untouched: "tx_step v (Returned_untouched c) (v\<lparr>tv_held := None\<rparr>)"
    if "tv_held v = Some c" "\<not> tv_used v" "tv_target v = None"
| tx_issued: "tx_step v (Issued key) v" if "tv_held v = None"
| tx_aimed: "tx_step v (Aimed i (sv_key c)) (v\<lparr>tv_used := True, tv_settled := False,
      tv_target := Some \<lparr>target_instance = i, target_backend = sv_key c\<rparr>\<rparr>)"
    if "tv_held v = Some c"
| tx_exchanged: "tx_step v (Exchanged c out back) (v\<lparr>tv_settled := answered_in_full out back\<rparr>)"
    if "tv_held v = Some c" "tv_used v"
| tx_stood_down: "tx_step v Stood_down (v\<lparr>tv_target := None\<rparr>)" if "tv_held v = Some c"
| tx_reset: "tx_step v (Reset_done c) (v\<lparr>tv_used := False\<rparr>)"
    if "tv_held v = Some d" "same_conn c d" "tv_settled v" "tv_target v = None"
| tx_put_back: "tx_step v (Put_back c) (v\<lparr>tv_held := None\<rparr>)"
    if "tv_held v = Some d" "same_conn c d" "\<not> tv_used v" "tv_target v = None"
| tx_closed: "tx_step v (Closed c) (v\<lparr>tv_held := None\<rparr>)"
    if "tv_held v = Some d" "same_conn c d" "tv_target v = None"
| tx_greeted: "tx_step v (Greeted g) v" if "tv_held v = None"
| tx_told: "tx_step v (Told out) v" if "tv_held v = None"

inductive tx_run :: "tx_view \<Rightarrow> act list \<Rightarrow> tx_view \<Rightarrow> bool" where
  tx_nil: "tx_run v [] v"
| tx_cons: "tx_step u a v \<Longrightarrow> tx_run v as w \<Longrightarrow> tx_run u (a # as) w"

inductive_simps tx_run_simps [simp]: "tx_run v [] w" "tx_run u (a # as) w"

inductive_simps tx_step_simps:
  "tx_step v (Acquired c) w" "tx_step v (Returned_untouched c) w" "tx_step v (Issued key) w"
  "tx_step v (Aimed i key) w" "tx_step v (Exchanged c out back) w" "tx_step v Stood_down w"
  "tx_step v (Reset_done c) w" "tx_step v (Put_back c) w" "tx_step v (Closed c) w"
  "tx_step v (Greeted g) w" "tx_step v (Told out) w"

lemma tx_run_append [simp]: "tx_run u (as @ bs) w \<longleftrightarrow> (\<exists>v. tx_run u as v \<and> tx_run v bs w)"
  by (induction as arbitrary: u) auto

text \<open>A session between two turns holds nothing and its key points at nothing.\<close>

definition at_rest :: "tx_view \<Rightarrow> bool" where
  "at_rest v \<longleftrightarrow> tv_held v = None \<and> tv_target v = None"

text \<open>\<open>orderly r v acts\<close>: the acts are a run from \<open>v\<close> that ends at rest unless the session still waits.\<close>

definition orderly :: "bool \<Rightarrow> tx_view \<Rightarrow> act list \<Rightarrow> bool" where
  "orderly over v acts \<longleftrightarrow> (\<exists>w. tx_run v acts w \<and> (over \<longrightarrow> at_rest w))"

lemma orderly_append: "orderly True v as \<Longrightarrow> (\<And>w. at_rest w \<Longrightarrow> orderly over w bs) \<Longrightarrow> orderly over v (as @ bs)"
  unfolding orderly_def by (metis tx_run_append)

lemma orderly_nil [simp]: "at_rest v \<Longrightarrow> orderly over v []"
  by (simp add: orderly_def)

lemma settled_at_boundary:
  assumes "serve_assignment es buf sbuf = Ended boundary s" "boundary \<noteq> ClientClosed False"
  shows "answered_in_full (to_server s) (to_client s)"
proof -
  from serve_assignment_inv [of es buf sbuf] assms obtain ms rs where
    i: "relay_inv s ms rs" "ReadyTracker_may_release (tracker s)" by auto
  then have "requests (map fst ms) \<le> u32_max \<longrightarrow> at_boundary (exchange_of ms rs)"
    using may_release_at_boundary [of "tracker s" "exchange_of ms rs"] by (simp add: relay_inv_def)
  with i(1) show ?thesis unfolding answered_in_full_def relay_inv_def by blast
qed

lemma orderly_served:
  assumes "at_rest v" "answered_in_full out back"
  shows "orderly True v ([Acquired c, Aimed i (sv_key c), Exchanged c out back, Stood_down]
    @ tx_release reset (c\<lparr>sv_buf := b\<rparr>))"
  using assms by (auto simp: orderly_def tx_release_def at_rest_def tx_step_simps split: sum.split)

lemma orderly_unserved:
  assumes "at_rest v"
  shows "orderly False v [Acquired c, Aimed i (sv_key c), Exchanged c out back]"
    and "orderly True v [Acquired c, Aimed i (sv_key c), Exchanged c out back, Stood_down, Closed (c\<lparr>sv_buf := b\<rparr>)]"
    and "orderly True v [Acquired c, Aimed i (sv_key c), Stood_down, Closed c]"
  using assms by (auto simp: orderly_def at_rest_def tx_step_simps)

lemma tx_assignment_orderly:
  assumes "at_rest v"
  shows "orderly (fst (tx_assignment i t c buf) \<noteq> Inl TxRunning) v (snd (tx_assignment i t c buf))"
proof (cases "serve_assignment (tn_events t) buf (sv_buf c)")
  case (Ended boundary s)
  show ?thesis
  proof (cases "boundary = ClientClosed False")
    case True
    with orderly_unserved(2) [OF assms] show ?thesis by (simp add: tx_assignment_def Ended Let_def)
  next
    case False
    with orderly_served [OF assms settled_at_boundary [OF Ended False]] show ?thesis
      by (auto simp: tx_assignment_def Ended Let_def split: Boundary.split bool.split)
  qed
qed (simp_all add: tx_assignment_def Let_def orderly_unserved [OF assms])

lemma tx_give_up_orderly: "at_rest v \<Longrightarrow> orderly over v (snd (tx_give_up debug e))"
  by (auto simp: tx_give_up_def orderly_def at_rest_def tx_step_simps split: PoolError.split option.split)

lemma tx_turn_orderly:
  assumes "at_rest v"
  shows "orderly (fst (tx_turn debug i t buf) \<noteq> Inl TxRunning) v (snd (tx_turn debug i t buf))"
  using assms tx_assignment_orderly [OF assms] tx_give_up_orderly [OF assms]
  by (auto simp: tx_turn_def case_prod_unfold split: option.split list.split sum.split)

lemma tx_loop_orderly:
  "at_rest v \<Longrightarrow> orderly (fst (tx_loop debug i ts buf) \<noteq> TxRunning) v (snd (tx_loop debug i ts buf))"
proof (induction ts arbitrary: buf v)
  case (Cons t ts)
  note turn = tx_turn_orderly [OF Cons.prems, of debug i t buf]
  show ?case
  proof (cases "tx_turn debug i t buf")
    case (Pair r acts)
    with turn Cons.IH show ?thesis
      by (cases r) (auto simp: case_prod_unfold intro!: orderly_append)
  qed
qed simp

lemma at_rest_start [simp]: "at_rest tx_start"
  by (simp add: at_rest_def tx_start_def)

lemma welcomed_orderly: "at_rest v \<Longrightarrow> orderly True v (welcomed key borrowed)"
  by (auto simp: welcomed_def orderly_def at_rest_def tx_step_simps split: option.split)

lemma greeted_orderly: "at_rest v \<Longrightarrow> orderly over v as \<Longrightarrow> orderly over v (Greeted g # as)"
  by (auto simp: orderly_def at_rest_def tx_step_simps)

lemma transaction_mode_orderly:
  assumes "transaction_mode debug i key acquired meanwhile turns buf w = ((r, acts), w')"
  shows "orderly (r \<noteq> TxRunning) tx_start acts"
proof -
  have told: "orderly (r' \<noteq> TxRunning) tx_start (Issued key # snd (tx_give_up debug e))" for e r'
    using orderly_append [OF welcomed_orderly [OF at_rest_start, of key None] tx_give_up_orderly]
    by (simp add: welcomed_def)
  have "orderly (fst (tx_loop debug i turns buf) \<noteq> TxRunning) tx_start
      (welcomed key borrowed @ Greeted g # snd (tx_loop debug i turns buf))" for borrowed g
    by (intro orderly_append [OF welcomed_orderly] greeted_orderly tx_loop_orderly at_rest_start)
  with assms told welcomed_orderly [OF at_rest_start, of key] show ?thesis
    by (auto simp: transaction_mode_def case_prod_unfold split: sum.splits option.splits prod.splits)
qed

section \<open>The handles are steps of the pool\<close>

lemma open_into_step:
  assumes "0 < sys_reserved s" "open_into alive r (sys_pool s) = (res, p, w)"
  shows "\<exists>s'. pool_step s s' \<and> sys_pool s' = p"
proof (cases r)
  case (Inl e)
  with assms(2) have "drop_reservation alive (sys_pool s) = (p, w)" by (auto simp: open_into_def split: prod.splits)
  from pool_step.open_failed [OF assms(1) this] show ?thesis by auto
next
  case (Inr c)
  with assms(2) pool_step.opened [OF assms(1), of c] show ?thesis by (auto simp: open_into_def)
qed

lemma Assigned_release_step:
  assumes "c \<in># sys_assigned s" "Assigned_release alive reset c (sys_pool s) = (p, w)"
  shows "\<exists>s'. pool_step s s' \<and> sys_pool s' = p"
proof (cases reset)
  case (Inl e)
  with assms(2) have "discard alive (sys_pool s) = (p, w)" by (simp add: Assigned_release_def)
  from pool_step.discarded [OF assms(1) this] show ?thesis by auto
next
  case (Inr rows)
  with assms(2) have "release alive (sys_pool s) c = (p, w)" by (simp add: Assigned_release_def)
  from pool_step.released [OF assms(1) this] show ?thesis by auto
qed

lemma give_up_idem: "fst (give_up ticket (fst (give_up ticket p))) = fst (give_up ticket p)"
  by (simp add: give_up_def Let_def)

lemma wait_step: "\<exists>s'. pool_step s s' \<and> sys_pool s' = snd (wait ticket e (sys_pool s))"
proof -
  have "snd (wait ticket e (sys_pool s)) = fst (give_up ticket (sys_pool s))"
    using give_up_idem [of ticket "sys_pool s"]
    by (cases e) (simp_all add: wait_def case_prod_unfold Let_def)
  with pool_step.gave_up [of s ticket] show ?thesis by auto
qed

section \<open>Properties\<close>

text \<open>
  C5: A session keeps the protocol towards the pool. Whatever the client, the server and the pool
  do, a session holds at most one connection at a time; a connection it has used goes back to the
  pool only after every forwarded request was answered up to a transaction boundary and the reset
  succeeded, and is closed otherwise; the cancel key points at it only while it is held. When the
  session is over, by the client, an error or a timeout, nothing is held any more.
\<close>

theorem session_protocol:
  assumes "transaction_mode debug i key acquired meanwhile turns buf w = ((r, acts), w')"
  shows "\<exists>v. tx_run tx_start acts v \<and> (r \<noteq> TxRunning \<longrightarrow> tv_held v = None \<and> tv_target v = None)"
  using transaction_mode_orderly [OF assms] by (auto simp: orderly_def at_rest_def)

text \<open>A session of one query on a fresh pool, whose client leaves after the answer.\<close>

definition demo_conn :: server_conn where
  "demo_conn = \<lparr>sv_id = 7, sv_parameters = [(''TimeZone'', ''UTC'')], sv_key = \<lparr>process_id = 70, secret_key = 71\<rparr>, sv_buf = []\<rparr>"

definition demo_turns :: "turn list" where
  "demo_turns =
     [\<lparr>tn_fill = Some demo_query, tn_waiting = [], tn_acquired = Inr demo_conn, tn_events = [ServerRead demo_ready], tn_reset = Inr []\<rparr>,
      \<lparr>tn_fill = Some [], tn_waiting = [], tn_acquired = Inl PoolClosed, tn_events = [], tn_reset = Inl QueryClosed\<rparr>]"

abbreviation demo_session :: "(tx_end \<times> act list) \<times> Welcome" where
  "demo_session \<equiv> transaction_mode decimal (InstanceId ''db'') \<lparr>process_id = 1, secret_key = 2\<rparr> (Inr demo_conn) None demo_turns [] None"

theorem session_protocol_witness:
  "fst (fst demo_session) = TxDone
   \<and> set [Acquired demo_conn, Aimed (InstanceId ''db'') (sv_key demo_conn), Stood_down, Reset_done demo_conn, Put_back demo_conn]
     \<subseteq> set (snd (fst demo_session))
   \<and> (\<exists>v. tx_run tx_start (snd (fst demo_session)) v \<and> tv_held v = None \<and> tv_target v = None)"
proof -
  have d: "fst (fst demo_session) = TxDone"
    "set [Acquired demo_conn, Aimed (InstanceId ''db'') (sv_key demo_conn), Stood_down, Reset_done demo_conn, Put_back demo_conn]
     \<subseteq> set (snd (fst demo_session))" by code_simp+
  obtain r acts w' where s: "demo_session = ((r, acts), w')" by (cases demo_session) auto
  from session_protocol [OF s] d show ?thesis unfolding s by simp
qed

text \<open>What a session's acts do to the registry of cancel keys.\<close>

fun registry_act :: "CancelKey \<Rightarrow> act \<Rightarrow> CancelRegistry \<Rightarrow> CancelRegistry" where
  "registry_act key (Aimed i backend) r = aim key i backend r"
| "registry_act key Stood_down r = stand_down key r"
| "registry_act key _ r = r"

definition target_held :: "tx_view \<Rightarrow> bool" where
  "target_held v \<longleftrightarrow> (\<forall>t. tv_target v = Some t \<longrightarrow> (\<exists>c. tv_held v = Some c \<and> target_backend t = sv_key c))"

lemma tx_step_target:
  "tx_step u a v \<Longrightarrow> target_held u \<Longrightarrow> target key r = tv_target u \<Longrightarrow>
    target_held v \<and> target key (registry_act key a r) = tv_target v"
  by (induction rule: tx_step.induct) (auto simp: target_held_def target_def aim_def stand_down_def)

lemma tx_run_target:
  "tx_run u as v \<Longrightarrow> target_held u \<Longrightarrow> target key r = tv_target u \<Longrightarrow>
    target_held v \<and> target key (fold (registry_act key) as r) = tv_target v"
  by (induction arbitrary: r rule: tx_run.induct) (auto dest: tx_step_target)

text \<open>
  C6: A cancel request reaches only a connection its owner holds. At every moment of a session, what
  its key resolves to in the registry, if anything, is the backend of the connection the session
  holds at that moment; once the session is over the key resolves to nothing.
\<close>

theorem cancel_reaches_held:
  assumes "transaction_mode debug i key acquired meanwhile turns buf w = ((r, acts), w')"
    and "acts = past @ future" "target key reg = None"
  shows "\<exists>v. tx_run tx_start past v
    \<and> (\<forall>t. target key (fold (registry_act key) past reg) = Some t \<longrightarrow>
         (\<exists>c. tv_held v = Some c \<and> target_backend t = sv_key c))
    \<and> (r \<noteq> TxRunning \<and> future = [] \<longrightarrow> target key (fold (registry_act key) past reg) = None)"
proof -
  from transaction_mode_orderly [OF assms(1)] assms(2) obtain v u where
    run: "tx_run tx_start past v" "tx_run v future u" "r \<noteq> TxRunning \<longrightarrow> at_rest u"
    by (auto simp: orderly_def)
  have "target_held tx_start" "target key reg = tv_target tx_start"
    using assms(3) by (simp_all add: target_held_def tx_start_def)
  from tx_run_target [OF run(1) this] run show ?thesis
    by (auto simp: target_held_def at_rest_def)
qed

theorem cancel_reaches_held_witness:
  "\<exists>v. tx_run tx_start (take 6 (snd (fst demo_session))) v \<and> (\<exists>c. tv_held v = Some c \<and> sv_key c = sv_key demo_conn)"
proof -
  let ?key = "\<lparr>process_id = 1, secret_key = 2\<rparr>" and ?past = "take 6 (snd (fst demo_session))"
  let ?reg = "CancelRegistry_new (ProxyTag 1)"
  obtain r acts w' where s: "demo_session = ((r, acts), w')" by (cases demo_session) auto
  have t: "map_option target_backend (target ?key (fold (registry_act ?key) ?past ?reg)) = Some (sv_key demo_conn)" by code_simp
  then obtain t where t: "target ?key (fold (registry_act ?key) ?past ?reg) = Some t" "target_backend t = sv_key demo_conn" by auto
  have a: "acts = ?past @ drop 6 acts" by (simp add: s)
  have "target ?key ?reg = None" by (simp add: target_def CancelRegistry_new_def)
  from cancel_reaches_held [OF s a this] t obtain v where v: "tx_run tx_start ?past v"
    "\<exists>c. tv_held v = Some c \<and> target_backend t = sv_key c" by blast
  with t(2) show ?thesis by metis
qed

end
