(* ===== verification/Admin.thy ===== *)
theory Admin
  imports Backend
begin

text \<open>
  The language of the admin console (\<open>crates/protocol/src/admin.rs\<close>). The tokenizer never looks
  back, so its index into the text is modelled by the text that is left. \<open>print_command\<close> writes a
  command out, and the parser reads every command back.
\<close>

definition SET_INSTANCE :: string where "SET_INSTANCE = ''SET INSTANCE''"
definition SET_TENANT :: string where "SET_TENANT = ''SET TENANT''"

definition HINT :: string where
  "HINT = ''The admin console has SHOW POOLS, SHOW BUDGET, SHOW CLIENTS, SHOW SERVERS, SHOW INSTANCES, SHOW CONFIG, RELOAD, PAUSE, RESUME, SET INSTANCE <name> margin = <count>, and SET TENANT <name> min = <count>, max = <count>, weight = <count>.''"

definition INSTANCE_SHAPE :: string where
  "INSTANCE_SHAPE = ''a name followed by '' @ [CHR 0x60] @ ''margin = <count>'' @ [CHR 0x60]"

definition TENANT_SHAPE :: string where
  "TENANT_SHAPE =
     ''a name followed by one or more of '' @ [CHR 0x60] @ ''min = <count>'' @ [CHR 0x60] @ '', ''
     @ [CHR 0x60] @ ''max = <count>'' @ [CHR 0x60] @ '' and '' @ [CHR 0x60] @ ''weight = <count>'' @ [CHR 0x60]
     @ '', separated by commas and each written once''"

record TenantSettings =
  set_min :: "nat option"
  set_max :: "nat option"
  set_weight :: "nat option"

definition TenantSettings_default :: TenantSettings where
  "TenantSettings_default = \<lparr>set_min = None, set_max = None, set_weight = None\<rparr>"

datatype AdminCommand =
    AdminEmpty | ShowPools | ShowBudget | ShowClients | ShowServers | ShowInstances | ShowConfig
  | Reload | Pause | Resume
  | SetInstance bytes nat
  | SetTenant bytes TenantSettings

datatype AdminError =
    NoSuchCommand
  | AdminMalformed string string
  | TooManyStatements
  | UnclosedName

fun AdminError_display :: "AdminError \<Rightarrow> string" where
  "AdminError_display NoSuchCommand = ''the admin console has no such command''"
| "AdminError_display (AdminMalformed cmd expected) =
     [CHR 0x60] @ cmd @ [CHR 0x60] @ '' expects '' @ expected"
| "AdminError_display TooManyStatements = ''the admin console takes one command at a time''"
| "AdminError_display UnclosedName = ''a quoted name is not closed''"

definition AdminError_response :: "AdminError \<Rightarrow> ErrorResponse" where
  "AdminError_response e = with_hint HINT (ErrorResponse_error SYNTAX_ERROR (AdminError_display e))"

section \<open>Tokens\<close>

datatype Token = TWord bytes | TQuoted bytes | TEquals | TComma

abbreviation DQ :: byte where "DQ \<equiv> CHR 0x22"

definition is_delimiter :: "byte \<Rightarrow> bool" where
  "is_delimiter b \<longleftrightarrow> is_ascii_whitespace b \<or> b = CHR '';'' \<or> b = CHR ''='' \<or> b = CHR '','' \<or> b = DQ"

lemma dropWhile_shorter: "dropWhile P xs = y # ys \<Longrightarrow> length ys < length xs"
  using length_dropWhile_le [of P xs] by simp

text \<open>The name in quotes, after the opening quote, and the text after the closing one.\<close>

function quoted :: "bytes \<Rightarrow> bytes \<Rightarrow> AdminError + (bytes \<times> bytes)" where
  "quoted name rest =
     (case dropWhile (\<lambda>b. b \<noteq> DQ) rest of
        [] \<Rightarrow> Inl UnclosedName
      | _ # after \<Rightarrow>
          (let name = name @ takeWhile (\<lambda>b. b \<noteq> DQ) rest in
           case after of
             b # tail \<Rightarrow> if b = DQ then quoted (name @ [DQ]) tail else Inr (name, after)
           | [] \<Rightarrow> Inr (name, after)))"
  by pat_completeness auto

termination
  by (relation "measure (\<lambda>(_, rest). length rest)") (auto dest!: dropWhile_shorter)

declare quoted.simps [simp del]

lemma quoted_shorter: "quoted name rest = Inr (n, r) \<Longrightarrow> length r < length rest"
proof (induction name rest rule: quoted.induct)
  case (1 name rest)
  from "1.prems" obtain b after where d: "dropWhile (\<lambda>b. b \<noteq> DQ) rest = b # after"
    by (subst (asm) quoted.simps) (auto split: list.splits)
  note len = dropWhile_shorter [OF d]
  show ?case
  proof (cases after)
    case Nil
    with "1.prems" d len show ?thesis by (subst (asm) quoted.simps) (auto simp: Let_def)
  next
    case (Cons c tail)
    with "1.prems" d len "1.IH" [OF d refl Cons] show ?thesis
      by (subst (asm) quoted.simps) (auto simp: Let_def split: if_splits)
  qed
qed

function tokenize_loop :: "bytes \<Rightarrow> Token list \<Rightarrow> Token list list \<Rightarrow> AdminError + Token list list" where
  "tokenize_loop rest tokens statements =
     (case rest of
        [] \<Rightarrow> Inr (if tokens \<noteq> [] then statements @ [tokens] else statements)
      | b # tail \<Rightarrow>
          if is_ascii_whitespace b then tokenize_loop tail tokens statements
          else if b = CHR '';'' then
            (if tokens \<noteq> [] then tokenize_loop tail [] (statements @ [tokens])
             else tokenize_loop tail tokens statements)
          else if b = CHR ''='' then tokenize_loop tail (tokens @ [TEquals]) statements
          else if b = CHR '','' then tokenize_loop tail (tokens @ [TComma]) statements
          else if b = DQ then
            (case quoted [] tail of
               Inl e \<Rightarrow> Inl e
             | Inr (name, after) \<Rightarrow> tokenize_loop after (tokens @ [TQuoted name]) statements)
          else tokenize_loop (dropWhile (\<lambda>c. \<not> is_delimiter c) rest)
                 (tokens @ [TWord (takeWhile (\<lambda>c. \<not> is_delimiter c) rest)]) statements)"
  by pat_completeness auto
termination
  by (relation "measure (\<lambda>(rest, _, _). length rest)")
    (auto simp: is_delimiter_def less_Suc_eq_le length_dropWhile_le dest!: quoted_shorter)

declare tokenize_loop.simps [simp del]

definition tokenize :: "bytes \<Rightarrow> AdminError + Token list list" where
  "tokenize sql = tokenize_loop sql [] []"

fun keyword :: "Token \<Rightarrow> bytes \<Rightarrow> bool" where
  "keyword (TWord actual) word = eq_ignore_ascii_case actual word"
| "keyword _ word = False"

fun token_name :: "Token \<Rightarrow> bytes option" where
  "token_name (TWord word) = Some word"
| "token_name (TQuoted name) = Some name"
| "token_name TEquals = None"
| "token_name TComma = None"

fun token_count :: "Token \<Rightarrow> nat option" where
  "token_count (TWord word) = parse_u32 word"
| "token_count _ = None"

section \<open>Commands\<close>

definition shown :: "Token \<Rightarrow> AdminError + AdminCommand" where
  "shown what =
     (if keyword what ''POOLS'' then Inr ShowPools
      else if keyword what ''BUDGET'' then Inr ShowBudget
      else if keyword what ''CLIENTS'' then Inr ShowClients
      else if keyword what ''SERVERS'' then Inr ShowServers
      else if keyword what ''INSTANCES'' then Inr ShowInstances
      else if keyword what ''CONFIG'' then Inr ShowConfig
      else Inl NoSuchCommand)"

definition set_instance :: "Token list \<Rightarrow> AdminError + AdminCommand" where
  "set_instance tokens =
     (let malformed = Inl (AdminMalformed SET_INSTANCE INSTANCE_SHAPE) in
      case tokens of
        [named, margin, TEquals, val] \<Rightarrow>
          if \<not> keyword margin ''MARGIN'' then malformed
          else (case (token_name named, token_count val) of
                  (Some i, Some m) \<Rightarrow> Inr (SetInstance i m)
                | _ \<Rightarrow> malformed)
      | _ \<Rightarrow> malformed)"

fun split_commas :: "Token list \<Rightarrow> Token list list" where
  "split_commas [] = [[]]"
| "split_commas (t # ts) =
     (if t = TComma then [] # split_commas ts
      else (t # hd (split_commas ts)) # tl (split_commas ts))"

text \<open>One assignment; \<open>None\<close> is the malformed one.\<close>

definition assign :: "Token list \<Rightarrow> TenantSettings \<Rightarrow> TenantSettings option" where
  "assign tokens settings =
     (case tokens of
        [key, TEquals, val] \<Rightarrow>
          (case token_count val of
             None \<Rightarrow> None
           | Some n \<Rightarrow>
               if keyword key ''MIN'' then
                 (if set_min settings \<noteq> None then None else Some (settings\<lparr>set_min := Some n\<rparr>))
               else if keyword key ''MAX'' then
                 (if set_max settings \<noteq> None then None else Some (settings\<lparr>set_max := Some n\<rparr>))
               else if keyword key ''WEIGHT'' then
                 (if set_weight settings \<noteq> None then None else Some (settings\<lparr>set_weight := Some n\<rparr>))
               else None)
      | _ \<Rightarrow> None)"

fun assign_all :: "Token list list \<Rightarrow> TenantSettings \<Rightarrow> TenantSettings option" where
  "assign_all [] settings = Some settings"
| "assign_all (a # as) settings =
     (case assign a settings of None \<Rightarrow> None | Some settings' \<Rightarrow> assign_all as settings')"

definition set_tenant_command :: "Token list \<Rightarrow> AdminError + AdminCommand" where
  "set_tenant_command tokens =
     (let malformed = Inl (AdminMalformed SET_TENANT TENANT_SHAPE) in
      case tokens of
        [] \<Rightarrow> malformed
      | named # assignments \<Rightarrow>
          (case token_name named of
             None \<Rightarrow> malformed
           | Some tenant \<Rightarrow>
               if assignments = [] then malformed
               else case assign_all (split_commas assignments) TenantSettings_default of
                 None \<Rightarrow> malformed
               | Some settings \<Rightarrow> Inr (SetTenant tenant settings)))"

definition command :: "Token list \<Rightarrow> AdminError + AdminCommand" where
  "command tokens =
     (case tokens of
        [single] \<Rightarrow>
          if keyword single ''RELOAD'' then Inr Reload
          else if keyword single ''PAUSE'' then Inr Pause
          else if keyword single ''RESUME'' then Inr Resume
          else Inl NoSuchCommand
      | first # what # rest \<Rightarrow>
          if rest = [] \<and> keyword first ''SHOW'' then shown what
          else if keyword first ''SET'' \<and> keyword what ''INSTANCE'' then set_instance rest
          else if keyword first ''SET'' \<and> keyword what ''TENANT'' then set_tenant_command rest
          else Inl NoSuchCommand
      | [] \<Rightarrow> Inl NoSuchCommand)"

definition parse :: "bytes \<Rightarrow> AdminError + AdminCommand" where
  "parse sql =
     (case tokenize sql of
        Inl e \<Rightarrow> Inl e
      | Inr [] \<Rightarrow> Inr AdminEmpty
      | Inr [tokens] \<Rightarrow> command tokens
      | Inr _ \<Rightarrow> Inl TooManyStatements)"

section \<open>Writing commands out\<close>

fun double_quotes :: "bytes \<Rightarrow> bytes" where
  "double_quotes [] = []"
| "double_quotes (b # bs) = (if b = DQ then [DQ, DQ] else [b]) @ double_quotes bs"

fun print_token :: "Token \<Rightarrow> bytes" where
  "print_token (TWord w) = w @ '' ''"
| "print_token (TQuoted n) = DQ # double_quotes n @ [DQ] @ '' ''"
| "print_token TEquals = ''= ''"
| "print_token TComma = '', ''"

fun token_ok :: "Token \<Rightarrow> bool" where
  "token_ok (TWord w) \<longleftrightarrow> w \<noteq> [] \<and> list_all (\<lambda>b. \<not> is_delimiter b) w"
| "token_ok _ \<longleftrightarrow> True"

abbreviation print_tokens :: "Token list \<Rightarrow> bytes" where
  "print_tokens ts \<equiv> concat (map print_token ts)"

fun setting_tokens :: "bytes \<Rightarrow> nat option \<Rightarrow> Token list list" where
  "setting_tokens key None = []"
| "setting_tokens key (Some n) = [[TWord key, TEquals, TWord (decimal n)]]"

fun join_commas :: "Token list list \<Rightarrow> Token list" where
  "join_commas [] = []"
| "join_commas [a] = a"
| "join_commas (a # b # as) = a @ TComma # join_commas (b # as)"

definition settings_tokens :: "TenantSettings \<Rightarrow> Token list list" where
  "settings_tokens s =
     setting_tokens ''min'' (set_min s) @ setting_tokens ''max'' (set_max s) @ setting_tokens ''weight'' (set_weight s)"

fun command_tokens :: "AdminCommand \<Rightarrow> Token list" where
  "command_tokens AdminEmpty = []"
| "command_tokens ShowPools = [TWord ''SHOW'', TWord ''POOLS'']"
| "command_tokens ShowBudget = [TWord ''SHOW'', TWord ''BUDGET'']"
| "command_tokens ShowClients = [TWord ''SHOW'', TWord ''CLIENTS'']"
| "command_tokens ShowServers = [TWord ''SHOW'', TWord ''SERVERS'']"
| "command_tokens ShowInstances = [TWord ''SHOW'', TWord ''INSTANCES'']"
| "command_tokens ShowConfig = [TWord ''SHOW'', TWord ''CONFIG'']"
| "command_tokens Reload = [TWord ''RELOAD'']"
| "command_tokens Pause = [TWord ''PAUSE'']"
| "command_tokens Resume = [TWord ''RESUME'']"
| "command_tokens (SetInstance i m) =
     [TWord ''SET'', TWord ''INSTANCE'', TQuoted i, TWord ''margin'', TEquals, TWord (decimal m)]"
| "command_tokens (SetTenant t s) =
     [TWord ''SET'', TWord ''TENANT'', TQuoted t] @ join_commas (settings_tokens s)"

definition print_command :: "AdminCommand \<Rightarrow> bytes" where
  "print_command c = print_tokens (command_tokens c)"

definition opt_u32 :: "nat option \<Rightarrow> bool" where
  "opt_u32 v \<longleftrightarrow> (case v of None \<Rightarrow> True | Some n \<Rightarrow> n \<le> u32_max)"

fun command_ok :: "AdminCommand \<Rightarrow> bool" where
  "command_ok (SetInstance i m) \<longleftrightarrow> m \<le> u32_max"
| "command_ok (SetTenant t s) \<longleftrightarrow>
     s \<noteq> TenantSettings_default \<and> opt_u32 (set_min s) \<and> opt_u32 (set_max s) \<and> opt_u32 (set_weight s)"
| "command_ok _ \<longleftrightarrow> True"

section \<open>Reading commands back\<close>

lemma quoted_steps [codec_simps]:
  "b \<noteq> DQ \<Longrightarrow> quoted name (b # bs) = quoted (name @ [b]) bs"
  "quoted name (DQ # DQ # bs) = quoted (name @ [DQ]) bs"
  "b \<noteq> DQ \<Longrightarrow> quoted name (DQ # b # bs) = Inr (name, b # bs)"
proof -
  assume "b \<noteq> DQ"
  then show "quoted name (b # bs) = quoted (name @ [b]) bs"
    unfolding quoted.simps [of name "b # bs"] quoted.simps [of "name @ [b]" bs]
    by (cases "dropWhile (\<lambda>b. b \<noteq> DQ) bs") (simp_all add: Let_def del: dropWhile_eq_Nil_conv)
qed (simp_all add: quoted.simps)

lemma quoted_printed: "b \<noteq> DQ \<Longrightarrow> quoted name (double_quotes n @ DQ # b # rest) = Inr (name @ n, b # rest)"
  by (induction n arbitrary: name) (simp_all add: quoted_steps)

lemma word_printed:
  assumes "w \<noteq> []" "list_all (\<lambda>b. \<not> is_delimiter b) w"
  shows "tokenize_loop (w @ CHR '' '' # rest) acc sts = tokenize_loop (CHR '' '' # rest) (acc @ [TWord w]) sts"
proof -
  have space: "is_delimiter CHR '' ''" by (simp add: is_delimiter_def is_ascii_whitespace_def)
  obtain b v where w: "w = b # v" "\<not> is_delimiter b" using assms by (cases w) auto
  have "takeWhile (\<lambda>c. \<not> is_delimiter c) (w @ CHR '' '' # rest) = w"
    "dropWhile (\<lambda>c. \<not> is_delimiter c) (w @ CHR '' '' # rest) = CHR '' '' # rest"
    using assms(2) space by (simp_all add: list_all_iff takeWhile_append dropWhile_append3)
  with w show ?thesis
    unfolding tokenize_loop.simps [of "w @ CHR '' '' # rest"] by (simp add: is_delimiter_def)
qed

lemma space_skipped: "tokenize_loop (CHR '' '' # rest) acc sts = tokenize_loop rest acc sts"
  by (subst tokenize_loop.simps) (simp add: is_ascii_whitespace_def)

lemma token_printed:
  "token_ok t \<Longrightarrow> tokenize_loop (print_token t @ rest) acc sts = tokenize_loop rest (acc @ [t]) sts"
proof (cases t)
  case (TQuoted n)
  then show ?thesis
    unfolding TQuoted print_token.simps
    by (subst tokenize_loop.simps) (simp add: is_ascii_whitespace_def quoted_printed space_skipped)
next
  case TEquals
  then show ?thesis by (subst tokenize_loop.simps) (simp add: is_ascii_whitespace_def space_skipped)
next
  case TComma
  then show ?thesis by (subst tokenize_loop.simps) (simp add: is_ascii_whitespace_def space_skipped)
qed (simp add: word_printed space_skipped)

lemma tokens_printed:
  "list_all token_ok ts \<Longrightarrow> tokenize_loop (print_tokens ts) acc sts
     = Inr (if acc @ ts \<noteq> [] then sts @ [acc @ ts] else sts)"
proof (induction ts arbitrary: acc)
  case Nil
  show ?case by (subst tokenize_loop.simps) simp
qed (simp add: token_printed)

lemma decimal_token_ok: "token_ok (TWord (decimal n))"
proof -
  have "\<not> is_delimiter b" if "is_ascii_digit b" for b
    using that by (auto simp: is_delimiter_def is_ascii_digit_def in_range_def is_ascii_whitespace_def)
  then show ?thesis using decimal_all_digits [of _ n] by (auto simp: list_all_iff)
qed

lemma join_commas_ok: "\<forall>a \<in> set as. list_all token_ok a \<Longrightarrow> list_all token_ok (join_commas as)"
  by (induction as rule: join_commas.induct) auto

lemma command_tokens_ok: "list_all token_ok (command_tokens c)"
proof (cases c)
  case (SetTenant t s)
  have "list_all token_ok (join_commas (settings_tokens s))"
    by (rule join_commas_ok)
      (cases "set_min s"; cases "set_max s"; cases "set_weight s";
        use decimal_token_ok in \<open>auto simp: settings_tokens_def is_delimiter_def is_ascii_whitespace_def\<close>)
  with SetTenant show ?thesis by (simp add: is_delimiter_def is_ascii_whitespace_def)
qed (use decimal_token_ok in \<open>simp_all add: is_delimiter_def is_ascii_whitespace_def\<close>)

lemma split_join_commas:
  "as \<noteq> [] \<Longrightarrow> \<forall>a \<in> set as. TComma \<notin> set a \<Longrightarrow> split_commas (join_commas as) = as"
proof (induction as rule: join_commas.induct)
  case (2 a)
  then show ?case by (induction a) auto
next
  case (3 a b as)
  have "split_commas (a @ TComma # ts) = a # split_commas ts" if "TComma \<notin> set a" for a ts
    using that by (induction a) auto
  with 3 show ?case by simp
qed simp

lemma keyword_lower [simp]:
  "keyword (TWord ''min'') ''MIN''" "keyword (TWord ''max'') ''MAX''" "keyword (TWord ''weight'') ''WEIGHT''"
  "\<not> keyword (TWord ''max'') ''MIN''" "\<not> keyword (TWord ''weight'') ''MIN''" "\<not> keyword (TWord ''weight'') ''MAX''"
  "keyword (TWord ''margin'') ''MARGIN''"
  by code_simp+

lemma assign_printed:
  assumes "n \<le> u32_max"
  shows "set_min s = None \<Longrightarrow> assign [TWord ''min'', TEquals, TWord (decimal n)] s = Some (s\<lparr>set_min := Some n\<rparr>)"
    and "set_max s = None \<Longrightarrow> assign [TWord ''max'', TEquals, TWord (decimal n)] s = Some (s\<lparr>set_max := Some n\<rparr>)"
    and "set_weight s = None \<Longrightarrow> assign [TWord ''weight'', TEquals, TWord (decimal n)] s = Some (s\<lparr>set_weight := Some n\<rparr>)"
  using assms by (simp_all add: assign_def codec_simps del: keyword.simps)

lemma settings_printed:
  assumes "opt_u32 (set_min s)" "opt_u32 (set_max s)" "opt_u32 (set_weight s)"
  shows "assign_all (settings_tokens s) TenantSettings_default = Some s"
proof -
  obtain a b c where s: "s = \<lparr>set_min = a, set_max = b, set_weight = c\<rparr>" by (cases s)
  show ?thesis
    using assms
    by (cases a; cases b; cases c;
        simp add: s settings_tokens_def TenantSettings_default_def assign_printed opt_u32_def)
qed

lemma settings_tokens_shape:
  "s \<noteq> TenantSettings_default \<Longrightarrow> settings_tokens s \<noteq> []" "\<forall>a \<in> set (settings_tokens s). TComma \<notin> set a \<and> a \<noteq> []"
proof -
  show "s \<noteq> TenantSettings_default \<Longrightarrow> settings_tokens s \<noteq> []"
    by (cases "set_min s"; cases "set_max s"; cases "set_weight s"; cases s)
      (simp_all add: settings_tokens_def TenantSettings_default_def)
  show "\<forall>a \<in> set (settings_tokens s). TComma \<notin> set a \<and> a \<noteq> []"
    by (cases "set_min s"; cases "set_max s"; cases "set_weight s") (simp_all add: settings_tokens_def)
qed

lemma join_commas_nonempty: "as \<noteq> [] \<Longrightarrow> \<forall>a \<in> set as. a \<noteq> [] \<Longrightarrow> join_commas as \<noteq> []"
  by (induction as rule: join_commas.induct) auto

lemma command_read:
  assumes "command_ok c" "c \<noteq> AdminEmpty"
  shows "command (command_tokens c) = Inr c"
proof (cases c)
  case (SetInstance i m)
  with assms have "set_instance [TQuoted i, TWord ''margin'', TEquals, TWord (decimal m)] = Inr c"
    by (simp add: set_instance_def codec_simps del: keyword.simps)
  then show ?thesis
    by (simp add: SetInstance command_def)
next
  case (SetTenant t s)
  with assms have ok: "s \<noteq> TenantSettings_default" "opt_u32 (set_min s)" "opt_u32 (set_max s)" "opt_u32 (set_weight s)"
    by auto
  have "split_commas (join_commas (settings_tokens s)) = settings_tokens s"
    "join_commas (settings_tokens s) \<noteq> []"
    using settings_tokens_shape [of s] ok(1) by (auto intro: split_join_commas dest: join_commas_nonempty)
  with settings_printed [OF ok(2-4)]
  have "set_tenant_command (TQuoted t # join_commas (settings_tokens s)) = Inr c"
    by (simp add: set_tenant_command_def SetTenant)
  moreover have "keyword (TWord ''SET'') ''SET''" "keyword (TWord ''TENANT'') ''TENANT''"
    "\<not> keyword (TWord ''TENANT'') ''INSTANCE''" "\<not> keyword (TWord ''SET'') ''SHOW''"
    by code_simp+
  ultimately show ?thesis by (simp add: SetTenant command_def del: keyword.simps)
qed (use assms in \<open>simp_all\<close>, code_simp+)

lemma parse_printed:
  assumes "command_ok c"
  shows "parse (print_command c) = Inr c"
proof -
  have t: "tokenize (print_command c) = Inr (if command_tokens c \<noteq> [] then [command_tokens c] else [])"
    using tokens_printed [OF command_tokens_ok, of c "[]" "[]"] by (simp add: tokenize_def print_command_def)
  show ?thesis
  proof (cases "c = AdminEmpty")
    case True
    with t show ?thesis by (simp add: parse_def)
  next
    case False
    then have "command_tokens c \<noteq> []" by (cases c) auto
    with t command_read [OF assms False] show ?thesis by (simp add: parse_def)
  qed
qed

text \<open>
  C38: admin commands round trip. Every command the console knows, with any name and any counts
  that fit 32 bits, is read back from its written form as the same command; names may hold any
  bytes, quotes and separators included.
\<close>

theorem admin_round_trip:
  assumes "command_ok c"
  shows "parse (print_command c) = Inr c"
  using assms by (rule parse_printed)

theorem admin_round_trip_witness:
  "parse (print_command (SetTenant [DQ, CHR '';''] \<lparr>set_min = Some 0, set_max = None, set_weight = Some 4294967295\<rparr>))
     = Inr (SetTenant [DQ, CHR '';''] \<lparr>set_min = Some 0, set_max = None, set_weight = Some 4294967295\<rparr>)"
proof -
  have "command_ok (SetTenant [DQ, CHR '';''] \<lparr>set_min = Some 0, set_max = None, set_weight = Some 4294967295\<rparr>)"
    by code_simp
  then show ?thesis by (rule admin_round_trip)
qed

end
