(* ===== verification/Console.thy ===== *)
theory Console
  imports Admin Convergence
begin

text \<open>
  The admin console (\<open>crates/core/src/console.rs\<close>): its tables, its answers and the session that
  serves them. The trait \<open>ConsoleNode\<close> is the record \<open>console_node\<close> of the operations the console
  calls, over the state \<open>'n\<close> of the node; setting a margin may wait for ever, which is a missing
  result. A written message is an option as in the theory Backend. The result of a session says how
  it ended: \<open>None\<close> is the client's own leaving.
\<close>

definition TAG :: string where "TAG = ''SHOW''"
definition SET_TAG :: string where "SET_TAG = ''SET''"
definition DATABASE :: string where "DATABASE = ''pgsteward''"

definition SERVED :: string where
  "SERVED = ''This node serves SHOW POOLS, SHOW BUDGET, SHOW INSTANCES, SET TENANT and SET INSTANCE.''"

definition GREETING :: "(string \<times> string) list" where
  "GREETING =
     [(''server_version'', ''0.1.0 (PgSteward)''), (''server_encoding'', ''UTF8''), (''client_encoding'', ''UTF8''),
      (''DateStyle'', ''ISO''), (''TimeZone'', ''UTC''), (''standard_conforming_strings'', ''on'')]"

datatype ConsoleError =
    ConsoleIo
  | ConsoleFrame FrameError
  | ConsoleMessage MessageError
  | ConsoleFrontend FrontendError

definition is_console :: "TenantId \<Rightarrow> bool" where
  "is_console tenant \<longleftrightarrow> TenantId_database tenant = DATABASE"

section \<open>What the console reads\<close>

record PoolSnapshot =
  ps_proxy :: ProxyId
  ps_instance :: InstanceId
  ps_tenant :: TenantId
  ps_policy :: "TenantPolicy option"
  ps_stats :: PoolStats

record NodePool =
  np_instance :: InstanceId
  np_tenant :: TenantId
  np_policy :: "TenantPolicy option"
  np_stats :: PoolStats

record InstanceSnapshot =
  is_instance :: InstanceId
  is_budget :: TotalBudget

record ConsoleView =
  cv_proxies :: "ProxyId list"
  cv_pool_mode :: string
  cv_pools :: "PoolSnapshot list"
  cv_instances :: "InstanceSnapshot list"
  cv_table :: AllocationTable

definition merge_pool :: "PoolSnapshot \<Rightarrow> (Slot, NodePool) btree_map \<Rightarrow> (Slot, NodePool) btree_map" where
  "merge_pool p m =
     (let key = (ps_instance p, ps_tenant p) in
      case bt_get m key of
        Some merged \<Rightarrow> bt_insert key (merged\<lparr>np_stats := PoolStats_add (np_stats merged) (ps_stats p)\<rparr>) m
      | None \<Rightarrow> bt_insert key \<lparr>np_instance = ps_instance p, np_tenant = ps_tenant p,
                             np_policy = ps_policy p, np_stats = ps_stats p\<rparr> m)"

definition node_pools :: "ConsoleView \<Rightarrow> NodePool list" where
  "node_pools v = map snd (fold merge_pool (cv_pools v) [])"

text \<open>The sum of the grants is a \<open>u32\<close> and wraps.\<close>

definition granted_to :: "ConsoleView \<Rightarrow> InstanceId \<Rightarrow> TenantId \<Rightarrow> nat" where
  "granted_to v i t =
     (\<Sum>proxy \<leftarrow> cv_proxies v. AllocationTable_granted (cv_table v) i (Holder t proxy)) mod (u32_max + 1)"

definition view_sum :: "ConsoleView \<Rightarrow> (PoolSnapshot \<Rightarrow> bool) \<Rightarrow> nat" where
  "view_sum v of_interest = (\<Sum>p \<leftarrow> filter of_interest (cv_pools v). PoolStats_actual (ps_stats p))"

definition actual_of :: "ConsoleView \<Rightarrow> InstanceId \<Rightarrow> Holder \<Rightarrow> nat option" where
  "actual_of v i h =
     (if Holder_proxy h \<in> set (cv_proxies v)
      then Some (view_sum v (\<lambda>p. ps_instance p = i \<and> ps_tenant p = Holder_tenant h \<and> ps_proxy p = Holder_proxy h))
      else None)"

definition actual_on :: "ConsoleView \<Rightarrow> InstanceId \<Rightarrow> nat" where
  "actual_on v i = view_sum v (\<lambda>p. ps_instance p = i)"

definition tenants_on :: "ConsoleView \<Rightarrow> InstanceId \<Rightarrow> nat" where
  "tenants_on v i =
     length (set_collect (map (\<lambda>(holder, _). Holder_tenant holder) (AllocationTable_holders (cv_table v) i)))"

section \<open>Tables\<close>

type_synonym table_row = "string option list"

record ResultSet =
  rs_columns :: "Column list"
  rs_rows :: "table_row list"

definition POOL_COLUMNS :: "Column list" where
  "POOL_COLUMNS =
     [Column_text ''database'', Column_text ''user'', Column_text ''instance'', Column_count ''cl_waiting'',
      Column_count ''sv_active'', Column_count ''sv_idle'', Column_count ''sv_login'', Column_text ''pool_mode'',
      Column_count ''granted'', Column_count ''actual'', Column_count ''min'', Column_count ''max'',
      Column_count ''demand'']"

definition BUDGET_COLUMNS :: "Column list" where
  "BUDGET_COLUMNS =
     [Column_text ''instance'', Column_text ''tenant'', Column_text ''proxy'', Column_count ''granted'',
      Column_count ''actual'']"

definition INSTANCE_COLUMNS :: "Column list" where
  "INSTANCE_COLUMNS =
     [Column_text ''instance'', Column_count ''max_connections'', Column_count ''reserved'',
      Column_count ''foreign_peak'', Column_count ''margin'', Column_count ''shortfall'',
      Column_count ''total_budget'', Column_count ''granted'', Column_count ''actual'', Column_count ''tenants'']"

abbreviation (input) cell_text :: "string \<Rightarrow> string option" where "cell_text s \<equiv> Some s"
abbreviation (input) cell_count :: "nat \<Rightarrow> string option" where "cell_count n \<equiv> Some (decimal n)"
abbreviation (input) cell_maybe :: "nat option \<Rightarrow> string option" where "cell_maybe v \<equiv> map_option decimal v"

definition pool_row :: "ConsoleView \<Rightarrow> NodePool \<Rightarrow> table_row" where
  "pool_row v p =
     [cell_text (TenantId_database (np_tenant p)), cell_text (TenantId_user (np_tenant p)),
      cell_text (InstanceId_as_str (np_instance p)), cell_count (stats_waiting (np_stats p)),
      cell_count (stats_in_use (np_stats p)), cell_count (stats_idle (np_stats p)),
      cell_count (stats_opening (np_stats p)), cell_text (cv_pool_mode v),
      cell_count (granted_to v (np_instance p) (np_tenant p)), cell_count (PoolStats_actual (np_stats p)),
      cell_maybe (map_option policy_min (np_policy p)), cell_maybe (map_option policy_max (np_policy p)),
      cell_count (PoolStats_demand (np_stats p))]"

definition show_pools :: "ConsoleView \<Rightarrow> ResultSet" where
  "show_pools v = \<lparr>rs_columns = POOL_COLUMNS, rs_rows = map (pool_row v) (node_pools v)\<rparr>"

definition budget_rows :: "ConsoleView \<Rightarrow> InstanceId \<Rightarrow> table_row list" where
  "budget_rows v i =
     map (\<lambda>(holder, slots).
            [cell_text (InstanceId_as_str i), cell_text (TenantId_display (Holder_tenant holder)),
             cell_text (ProxyId_as_str (Holder_proxy holder)), cell_count slots, cell_maybe (actual_of v i holder)])
       (AllocationTable_holders (cv_table v) i)
     @ [[cell_text (InstanceId_as_str i), None, None, cell_count (AllocationTable_headroom (cv_table v) i), None]]"

definition show_budget :: "ConsoleView \<Rightarrow> ResultSet" where
  "show_budget v =
     \<lparr>rs_columns = BUDGET_COLUMNS, rs_rows = concat (map (budget_rows v) (AllocationTable_instances (cv_table v)))\<rparr>"

definition instance_row :: "ConsoleView \<Rightarrow> InstanceSnapshot \<Rightarrow> table_row" where
  "instance_row v s =
     (let i = is_instance s; inputs = tb_inputs (is_budget s) in
      [cell_text (InstanceId_as_str i), cell_count (max_connections (in_limits inputs)),
       cell_count (ServerLimits_reserved (in_limits inputs)), cell_count (in_foreign_peak inputs),
       cell_count (in_margin inputs), cell_count (tb_shortfall (is_budget s)), cell_count (tb_total (is_budget s)),
       cell_count (AllocationTable_granted_total (cv_table v) i), cell_count (actual_on v i),
       cell_count (tenants_on v i)])"

definition show_instances :: "ConsoleView \<Rightarrow> ResultSet" where
  "show_instances v =
     \<lparr>rs_columns = INSTANCE_COLUMNS, rs_rows = map (instance_row v) (sort_key is_instance (cv_instances v))\<rparr>"

definition ResultSet_encode :: "ResultSet \<Rightarrow> bytes option" where
  "ResultSet_encode r =
     append_out
       (fold (\<lambda>row out. append_out out (encode_data_row row)) (rs_rows r) (encode_row_description (rs_columns r)))
       (encode_command_complete TAG)"

section \<open>Answers\<close>

record 'n console_node =
  node_view :: "'n \<Rightarrow> ConsoleView"
  node_set_tenant :: "string \<Rightarrow> PolicyChange \<Rightarrow> 'n \<Rightarrow> (SettingError + unit) \<times> 'n"
  node_set_instance :: "string \<Rightarrow> nat \<Rightarrow> 'n \<Rightarrow> ((SettingError + unit) \<times> 'n) option"

abbreviation BT :: char where "BT \<equiv> CHR 0x60"

fun SettingError_display :: "SettingError \<Rightarrow> string" where
  "SettingError_display (NoSuchTenant t) =
     ''the cluster configuration writes no tenant rule named '' @ BT # t @ [BT]"
| "SettingError_display (NoSuchInstance i) =
     ''the cluster configuration holds no instance named '' @ BT # InstanceId_as_str i @ [BT]"
| "SettingError_display (MinAboveMax m n) =
     ''a minimum of '' @ decimal m @ '' is above the maximum of '' @ decimal n"
| "SettingError_display ZeroWeight = ''a weight of 0 would leave the tenant out of every allocation''"
| "SettingError_display (AboveBudget i m b) =
     ''the minimums on instance '' @ BT # InstanceId_as_str i @ BT # '' would total '' @ decimal m
     @ '', above its total budget of '' @ decimal b"

fun refusal_code :: "SettingError \<Rightarrow> string \<times> string" where
  "refusal_code (NoSuchTenant _) = (UNDEFINED_OBJECT,
     ''The name is a tenant rule as the cluster configuration writes it, for example ''
     @ BT # ''app_web@reports'' @ BT # '', '' @ BT # ''app_web'' @ BT # '' or '' @ BT # ''*'' @ BT # ''.'')"
| "refusal_code (NoSuchInstance _) = (UNDEFINED_OBJECT,
     ''SHOW INSTANCES names the instances the cluster configuration holds.'')"
| "refusal_code (MinAboveMax _ _) = (INVALID_PARAMETER_VALUE,
     ''Write min and max in one command to move both at once.'')"
| "refusal_code ZeroWeight = (INVALID_PARAMETER_VALUE,
     ''A weight is at least 1, which is the value a rule holds unless it says otherwise.'')"
| "refusal_code (AboveBudget _ _ _) = (INVALID_PARAMETER_VALUE,
     ''SHOW INSTANCES explains how each total budget was derived.'')"

definition refusal :: "SettingError \<Rightarrow> ErrorResponse" where
  "refusal e = (case refusal_code e of (code, hint) \<Rightarrow> with_hint hint (ErrorResponse_error code (SettingError_display e)))"

definition change_of :: "TenantSettings \<Rightarrow> PolicyChange" where
  "change_of s = \<lparr>change_min = set_min s, change_max = set_max s, change_weight = set_weight s\<rparr>"

definition simple_query_only :: ErrorResponse where
  "simple_query_only =
     with_hint ''Send the command as a simple query.''
       (ErrorResponse_error FEATURE_NOT_SUPPORTED ''the admin console reads the simple query protocol only'')"

definition not_served :: "string \<Rightarrow> ErrorResponse" where
  "not_served unserved =
     with_hint SERVED (ErrorResponse_error FEATURE_NOT_SUPPORTED
       (BT # unserved @ BT # '' is part of the admin console but this node does not serve it yet''))"

definition written :: "SettingError + unit \<Rightarrow> bytes option" where
  "written r =
     (case r of Inr _ \<Rightarrow> encode_command_complete SET_TAG | Inl e \<Rightarrow> encode_error_response (refusal e))"

fun answer_command :: "('n, 'z) console_node_scheme \<Rightarrow> AdminCommand \<Rightarrow> 'n \<Rightarrow> (bytes option \<times> 'n) option" where
  "answer_command N AdminEmpty n = Some (encode_empty_query_response, n)"
| "answer_command N ShowPools n = Some (ResultSet_encode (show_pools (node_view N n)), n)"
| "answer_command N ShowBudget n = Some (ResultSet_encode (show_budget (node_view N n)), n)"
| "answer_command N ShowInstances n = Some (ResultSet_encode (show_instances (node_view N n)), n)"
| "answer_command N (SetTenant t settings) n =
     (case node_set_tenant N t (change_of settings) n of (r, n') \<Rightarrow> Some (written r, n'))"
| "answer_command N (SetInstance i margin) n =
     (case node_set_instance N i margin n of None \<Rightarrow> None | Some (r, n') \<Rightarrow> Some (written r, n'))"
| "answer_command N ShowClients n = Some (encode_error_response (not_served ''SHOW CLIENTS''), n)"
| "answer_command N ShowServers n = Some (encode_error_response (not_served ''SHOW SERVERS''), n)"
| "answer_command N ShowConfig n = Some (encode_error_response (not_served ''SHOW CONFIG''), n)"
| "answer_command N Reload n = Some (encode_error_response (not_served ''RELOAD''), n)"
| "answer_command N Pause n = Some (encode_error_response (not_served ''PAUSE''), n)"
| "answer_command N Resume n = Some (encode_error_response (not_served ''RESUME''), n)"

definition answer :: "('n, 'z) console_node_scheme \<Rightarrow> bytes \<Rightarrow> 'n \<Rightarrow> (bytes option \<times> 'n) option" where
  "answer N sql n =
     (case parse sql of
        Inl e \<Rightarrow> Some (encode_error_response (AdminError_response e), n)
      | Inr c \<Rightarrow> answer_command N c n)"

section \<open>The session\<close>

text \<open>How a session stops: by an error, by waiting for ever, or by a message too long to write.\<close>

datatype console_end = ConsoleBroken ConsoleError | ConsoleStuck | ConsolePanic

record 'n console =
  co_node :: 'n
  co_discarding :: bool
  co_out :: bytes

definition console_push :: "bytes option \<Rightarrow> 'n console \<Rightarrow> console_end \<times> 'n console + bool \<times> 'n console" where
  "console_push w s =
     (case w of None \<Rightarrow> Inl (ConsolePanic, s) | Some bs \<Rightarrow> Inr (False, s\<lparr>co_out := co_out s @ bs\<rparr>))"

text \<open>One message: the flag says that the client leaves.\<close>

definition console_frame :: "('n, 'z) console_node_scheme \<Rightarrow> Frame \<Rightarrow> 'n console
    \<Rightarrow> console_end \<times> 'n console + bool \<times> 'n console" where
  "console_frame N f s =
     (case FrontendTag_try_from (tag f) of
        Inl e \<Rightarrow> Inl (ConsoleBroken (ConsoleMessage e), s)
      | Inr t \<Rightarrow>
          if t = Terminate then Inr (True, s)
          else if t = Sync then console_push (encode_ready_for_query Idle) (s\<lparr>co_discarding := False\<rparr>)
          else if co_discarding s then Inr (False, s)
          else if t = Query then
            (case decode_query (body f) of
               Inl e \<Rightarrow> Inl (ConsoleBroken (ConsoleFrontend e), s)
             | Inr sql \<Rightarrow>
                 (case answer N sql (co_node s) of
                    None \<Rightarrow> Inl (ConsoleStuck, s)
                  | Some (out, n) \<Rightarrow>
                      console_push (append_out out (encode_ready_for_query Idle)) (s\<lparr>co_node := n\<rparr>)))
          else console_push (encode_error_response simple_query_only) (s\<lparr>co_discarding := True\<rparr>))"

function console_drain :: "('n, 'z) console_node_scheme \<Rightarrow> bytes \<Rightarrow> 'n console
    \<Rightarrow> console_end \<times> 'n console + bool \<times> bytes \<times> 'n console" where
  "console_drain N pending s =
     (case decode_frame pending MAX_MESSAGE of
        Inl e \<Rightarrow> Inl (ConsoleBroken (ConsoleFrame e), s)
      | Inr (None, rest) \<Rightarrow> Inr (False, rest, s)
      | Inr (Some f, rest) \<Rightarrow>
          (case console_frame N f s of
             Inl e \<Rightarrow> Inl e
           | Inr (True, s') \<Rightarrow> Inr (True, rest, s')
           | Inr (False, s') \<Rightarrow> console_drain N rest s'))"
  by pat_completeness auto
termination
  by (relation "measure (\<lambda>(_, pending, _). length pending)") (auto dest: frames.decode_smaller)

declare console_drain.simps [simp del]

definition console_write :: "bytes \<Rightarrow> bytes list \<Rightarrow> bytes list" where
  "console_write out ws = (if out = [] then ws else ws @ [out])"

text \<open>
  The loop over the reads, as in the theory Session: no bytes are the end of the stream, no result
  is an error. What it answers is how it ended, what it wrote and the node it left.
\<close>

fun console_loop :: "('n, 'z) console_node_scheme \<Rightarrow> bytes option list \<Rightarrow> bytes \<Rightarrow> bool \<Rightarrow> bytes list \<Rightarrow> 'n
    \<Rightarrow> console_end option \<times> bytes list \<times> 'n" where
  "console_loop N reads pending disc ws n =
     (case console_drain N pending \<lparr>co_node = n, co_discarding = disc, co_out = []\<rparr> of
        Inl (e, s) \<Rightarrow> (Some e, ws, co_node s)
      | Inr (leaving, rest, s) \<Rightarrow>
          (let ws = console_write (co_out s) ws in
           if leaving then (None, ws, co_node s)
           else case reads of
             [] \<Rightarrow> (None, ws, co_node s)
           | None # _ \<Rightarrow> (Some (ConsoleBroken ConsoleIo), ws, co_node s)
           | Some chunk # reads \<Rightarrow>
               if chunk = [] then (None, ws, co_node s)
               else console_loop N reads (rest @ chunk) (co_discarding s) ws (co_node s)))"

declare console_loop.simps [simp del]

definition greeting :: "bytes option" where
  "greeting =
     append_out (fold (\<lambda>(name, val) out. append_out out (encode_parameter_status name val)) GREETING (Some []))
       (encode_ready_for_query Idle)"

definition serve_console :: "('n, 'z) console_node_scheme \<Rightarrow> bytes option list \<Rightarrow> bytes \<Rightarrow> 'n
    \<Rightarrow> console_end option \<times> bytes list \<times> 'n" where
  "serve_console N reads pending n =
     (case greeting of
        None \<Rightarrow> (Some ConsolePanic, [], n)
      | Some g \<Rightarrow> console_loop N reads pending False (console_write g []) n)"

section \<open>A session is the answers to its messages\<close>

text \<open>The messages of a session one after the other, up to the one the client leaves with.\<close>

fun run_frames :: "('n, 'z) console_node_scheme \<Rightarrow> Frame list \<Rightarrow> 'n console \<Rightarrow> console_end \<times> 'n console + bool \<times> 'n console" where
  "run_frames N [] s = Inr (False, s)"
| "run_frames N (f # fs) s =
     (case console_frame N f s of
        Inl e \<Rightarrow> Inl e
      | Inr (True, s') \<Rightarrow> Inr (True, s')
      | Inr (False, s') \<Rightarrow> run_frames N fs s')"

definition prepend :: "bytes \<Rightarrow> 'n console \<Rightarrow> 'n console" where
  "prepend a s = s\<lparr>co_out := a @ co_out s\<rparr>"

lemma prepend_simps [simp]:
  "co_node (prepend a s) = co_node s" "co_discarding (prepend a s) = co_discarding s"
  "co_out (prepend a s) = a @ co_out s"
  "(prepend a s)\<lparr>co_discarding := d\<rparr> = prepend a (s\<lparr>co_discarding := d\<rparr>)"
  "(prepend a s)\<lparr>co_node := n\<rparr> = prepend a (s\<lparr>co_node := n\<rparr>)"
  by (simp_all add: prepend_def)

lemma console_push_prepend:
  "console_push w (prepend a s) = map_sum (apsnd (prepend a)) (apsnd (prepend a)) (console_push w s)"
  by (simp add: console_push_def prepend_def split: option.split)

lemma console_frame_prepend:
  "console_frame N f (prepend a s) = map_sum (apsnd (prepend a)) (apsnd (prepend a)) (console_frame N f s)"
  by (simp add: console_frame_def console_push_prepend split: sum.split option.split)

lemma run_frames_prepend:
  "run_frames N fs (prepend a s) = map_sum (apsnd (prepend a)) (apsnd (prepend a)) (run_frames N fs s)"
  by (induction fs arbitrary: s) (auto simp: console_frame_prepend split: sum.split bool.split)

lemma run_frames_append:
  "run_frames N (us @ vs) s =
     (case run_frames N us s of Inr (False, s') \<Rightarrow> run_frames N vs s' | r \<Rightarrow> r)"
  by (induction us arbitrary: s) (auto split: sum.split bool.split)

lemma console_drain_run:
  "decode_all (\<lambda>buf. decode_frame buf MAX_MESSAGE) pending = Inr (fs, rest) \<Longrightarrow>
    \<exists>left. console_drain N pending s = (case run_frames N fs s of
       Inl e \<Rightarrow> Inl e | Inr (True, s') \<Rightarrow> Inr (True, left, s') | Inr (False, s') \<Rightarrow> Inr (False, rest, s'))"
proof (induction N pending s arbitrary: fs rule: console_drain.induct)
  case (1 N pending s)
  note d = frames.decode_all_unfold [of MAX_MESSAGE pending]
  show ?case
  proof (cases "\<exists>f rest'. decode_frame pending MAX_MESSAGE = Inr (Some f, rest')")
    case True
    then obtain f rest' where f: "decode_frame pending MAX_MESSAGE = Inr (Some f, rest')" by blast
    with d 1(2) obtain fs' where fs: "fs = f # fs'"
      "decode_all (\<lambda>buf. decode_frame buf MAX_MESSAGE) rest' = Inr (fs', rest)"
      by (auto split: sum.splits)
    note u = console_drain.simps [of N pending s]
    show ?thesis
    proof (cases "\<exists>s'. console_frame N f s = Inr (False, s')")
      case True
      then obtain s' where s': "console_frame N f s = Inr (False, s')" by blast
      from "1.IH" [OF f refl refl s' refl _ fs(2)] show ?thesis by (simp add: u f s' fs(1))
    next
      case False
      then show ?thesis by (auto simp: u f fs(1) split: sum.splits bool.splits)
    qed
  next
    case False
    with d 1(2) have "fs = []" "decode_frame pending MAX_MESSAGE = Inr (None, rest)"
      by (auto split: sum.splits option.splits)
    then show ?thesis by (simp add: console_drain.simps [of N pending s])
  qed
qed

lemma concat_console_write [simp]: "concat (console_write out ws) = concat ws @ out"
  by (simp add: console_write_def)

lemma console_loop_run:
  assumes "encode_all (write_frame MAX_MESSAGE) fs = Some (pending @ concat chunks)" "[] \<notin> set chunks"
    and "run_frames N fs \<lparr>co_node = n, co_discarding = disc, co_out = []\<rparr> = Inr (leaving, s)"
  shows "\<exists>ws'. console_loop N (map Some chunks) pending disc ws n = (None, ws', co_node s)
    \<and> concat ws' = concat ws @ co_out s"
  using assms
proof (induction chunks arbitrary: fs pending disc ws n s)
  case (Nil fs pending disc ws n s)
  from frames.cut_stream [OF Nil.prems(1), of pending] obtain rest
    where d: "decode_all (\<lambda>buf. decode_frame buf MAX_MESSAGE) pending = Inr (fs, rest)" by auto
  let ?s = "\<lparr>co_node = n, co_discarding = disc, co_out = []\<rparr>"
  from console_drain_run [OF d, of N ?s] Nil.prems(3) show ?case
    by (cases leaving) (auto simp: console_loop.simps)
next
  case (Cons chunk chunks fs pending disc ws n s)
  let ?s = "\<lparr>co_node = n, co_discarding = disc, co_out = []\<rparr>"
  have "prefix pending (pending @ concat (chunk # chunks))" by simp
  from frames.cut_stream [OF Cons.prems(1) this] obtain us vs q where
    c: "fs = us @ vs" "decode_all (\<lambda>buf. decode_frame buf MAX_MESSAGE) pending = Inr (us, q)"
      "encode_all (write_frame MAX_MESSAGE) vs = Some (q @ chunk @ concat chunks)" by auto
  note run = Cons.prems(3) [unfolded c(1) run_frames_append]
  show ?case
  proof (cases "\<exists>s1. run_frames N us ?s = Inr (False, s1)")
    case True
    then obtain s1 where s1: "run_frames N us ?s = Inr (False, s1)" by blast
    let ?s1 = "\<lparr>co_node = co_node s1, co_discarding = co_discarding s1, co_out = []\<rparr>"
    have "s1 = prepend (co_out s1) ?s1" by (simp add: prepend_def)
    with run s1 have "map_sum (apsnd (prepend (co_out s1))) (apsnd (prepend (co_out s1))) (run_frames N vs ?s1)
        = Inr (leaving, s)"
      by (metis (no_types, lifting) bool.case(2) prod.case sum.case(2) run_frames_prepend)
    then obtain s2 where s2: "run_frames N vs ?s1 = Inr (leaving, s2)" "s = prepend (co_out s1) s2"
      by (cases "run_frames N vs ?s1") (auto simp: apsnd_def map_prod_def split: prod.splits)
    from Cons.IH [of vs "q @ chunk" "co_node s1" "co_discarding s1" s2 "console_write (co_out s1) ws"] c(3) Cons.prems(2) s2
    obtain ws' where "console_loop N (map Some chunks) (q @ chunk) (co_discarding s1) (console_write (co_out s1) ws) (co_node s1)
        = (None, ws', co_node s2) \<and> concat ws' = (concat ws @ co_out s1) @ co_out s2" by auto
    with console_drain_run [OF c(2), of N ?s] s1 s2(2) Cons.prems(2) show ?thesis
      by (auto simp: console_loop.simps [of N "Some chunk # map Some chunks"] Let_def)
  next
    case False
    with run have "run_frames N us ?s = Inr (True, s)"
      by (auto split: sum.splits bool.splits)
    with console_drain_run [OF c(2), of N ?s] show ?thesis
      by (auto simp: console_loop.simps [of N "Some chunk # map Some chunks"])
  qed
qed

text \<open>
  C22: A console session is the greeting and the answers to its messages. However the bytes of the
  client's messages are cut into reads, the console writes the greeting and then exactly what
  answering the messages one after the other gives, up to the message the client leaves with, and
  it leaves the node as answering them does.
\<close>

theorem console_session:
  assumes "greeting = Some g"
    and "encode_all (write_frame MAX_MESSAGE) fs = Some (pending @ concat chunks)" "[] \<notin> set chunks"
    and "run_frames N fs \<lparr>co_node = n, co_discarding = False, co_out = []\<rparr> = Inr (leaving, s)"
  shows "\<exists>ws. serve_console N (map Some chunks) pending n = (None, ws, co_node s) \<and> concat ws = g @ co_out s"
  using console_loop_run [OF assms(2-4), of "console_write g []"] by (simp add: serve_console_def assms(1))

text \<open>A node that counts the settings it was given and refuses a margin above ten.\<close>

definition demo_node :: "nat console_node" where
  "demo_node = \<lparr>node_view = (\<lambda>_. \<lparr>cv_proxies = [ProxyId ''p''], cv_pool_mode = ''transaction'', cv_pools = [],
        cv_instances = [], cv_table = AllocationTable_new\<rparr>),
     node_set_tenant = (\<lambda>_ _ n. (Inr (), n + 1)),
     node_set_instance = (\<lambda>i m n. Some (if m > 10 then (Inl (AboveBudget (InstanceId i) 0 0), n) else (Inr (), n + 1)))\<rparr>"

theorem console_session_witness:
  "\<exists>g ws. greeting = Some g \<and> serve_console demo_node
      [Some (''Q'' @ put_i32 30), Some (''set tenant a min = 1 '' @ ''    '' @ [NUL, CHR ''X'']), Some (put_i32 4)] [] 0
    = (None, ws, 1) \<and> prefix g (concat ws)"
proof -
  let ?fs = "[\<lparr>tag = CHR ''Q'', body = ''set tenant a min = 1 '' @ ''    '' @ [NUL]\<rparr>, \<lparr>tag = CHR ''X'', body = []\<rparr>]"
  let ?chunks = "[''Q'' @ put_i32 30, ''set tenant a min = 1 '' @ ''    '' @ [NUL, CHR ''X''], put_i32 4]"
  let ?run = "run_frames demo_node ?fs \<lparr>co_node = 0, co_discarding = False, co_out = []\<rparr>"
  have "greeting \<noteq> None" by code_simp
  then obtain g where g: "greeting = Some g" by blast
  have e: "encode_all (write_frame MAX_MESSAGE) ?fs = Some ([] @ concat ?chunks)" "[] \<notin> set ?chunks" by code_simp+
  have "\<not> isl ?run \<and> co_node (snd (projr ?run)) = 1" by code_simp
  then obtain leaving s where s: "?run = Inr (leaving, s)" "co_node s = 1"
    by (cases ?run) auto
  from console_session [OF g e s(1)] g s(2) show ?thesis by auto
qed

section \<open>What the tables say\<close>

definition cell_value :: "string option \<Rightarrow> nat" where
  "cell_value c = (case c of None \<Rightarrow> 0 | Some s \<Rightarrow> digits_value s)"

lemma cell_value_simps [simp]: "cell_value (Some (decimal n)) = n" "cell_value None = 0"
  by (simp_all add: cell_value_def)

definition rows_of :: "InstanceId \<Rightarrow> ResultSet \<Rightarrow> table_row list" where
  "rows_of i r = filter (\<lambda>row. row ! 0 = Some (InstanceId_as_str i)) (rs_rows r)"

lemma budget_rows_of:
  "filter (\<lambda>row. row ! 0 = Some (InstanceId_as_str i)) (budget_rows v j) = (if j = i then budget_rows v j else [])"
  by (cases i; cases j) (auto simp: budget_rows_def filter_empty_conv filter_id_conv)

lemma concat_only:
  "distinct xs \<Longrightarrow> concat (map (\<lambda>x. if x = a then f x else []) xs) = (if a \<in> set xs then f a else [])"
  by (induction xs) (auto simp: concat_eq_Nil_conv)

lemma show_budget_rows:
  assumes "table_ok (cv_table v)" "i \<in> set (AllocationTable_instances (cv_table v))"
  shows "rows_of i (show_budget v) = budget_rows v i"
proof -
  have "distinct (AllocationTable_instances (cv_table v))"
    using assms(1) bt_wf_distinct
    by (auto simp: table_ok_def AllocationTable_instances_def)
  with assms(2) concat_only [of _ i "budget_rows v"] show ?thesis
    by (simp add: rows_of_def show_budget_def filter_concat comp_def budget_rows_of cong: map_cong)
qed

text \<open>
  C16: \<open>SHOW BUDGET\<close> adds up. For every instance of the allocation table, the granted column of its
  rows (each holder's slots and the slots granted to no one) sums to the instance's total budget, and
  the actual column is filled exactly for the holders that are proxies of this node.
\<close>

theorem show_budget_adds_up:
  assumes "table_ok (cv_table v)" "i \<in> set (AllocationTable_instances (cv_table v))"
  shows "(\<Sum>row \<leftarrow> rows_of i (show_budget v). cell_value (row ! 3)) = AllocationTable_budget (cv_table v) i
    \<and> map (\<lambda>row. row ! 4 \<noteq> None) (rows_of i (show_budget v))
      = map (\<lambda>(holder, _). Holder_proxy holder \<in> set (cv_proxies v)) (AllocationTable_holders (cv_table v) i) @ [False]"
proof -
  have "(\<Sum>row \<leftarrow> budget_rows v i. cell_value (row ! 3))
      = (\<Sum>(holder, slots) \<leftarrow> AllocationTable_holders (cv_table v) i. slots) + AllocationTable_headroom (cv_table v) i"
    by (simp add: budget_rows_def comp_def case_prod_unfold)
  with table_totals [OF assms(1), of i] show ?thesis
    by (simp add: show_budget_rows [OF assms] budget_rows_def actual_of_def case_prod_unfold)
qed

definition demo_view :: ConsoleView where
  "demo_view = \<lparr>cv_proxies = [ProxyId ''p''], cv_pool_mode = ''transaction'', cv_pools = [], cv_instances = [],
     cv_table = fst (AllocationTable_apply AllocationTable_new
       (Entry_instance Entry_new (InstanceId ''db1'')
         (Desired_grant (Desired_new 10) (Holder (TenantId ''app'' ''app'') (ProxyId ''p'')) 4)))\<rparr>"

lemma demo_view_ok: "table_ok (cv_table demo_view)"
  unfolding demo_view_def by (rule table_reachable_ok) (simp, intro table_next [OF table_init] table_apply
    entry_instance entry_new built_grant built_new; simp add: u32_max_def)

theorem show_budget_adds_up_witness:
  "(\<Sum>row \<leftarrow> rows_of (InstanceId ''db1'') (show_budget demo_view). cell_value (row ! 3)) = 10"
proof -
  have "InstanceId ''db1'' \<in> set (AllocationTable_instances (cv_table demo_view))"
    "AllocationTable_budget (cv_table demo_view) (InstanceId ''db1'') = 10" by code_simp+
  then show ?thesis using show_budget_adds_up demo_view_ok by metis
qed

abbreviation snapshot_key :: "PoolSnapshot \<Rightarrow> Slot" where
  "snapshot_key p \<equiv> (ps_instance p, ps_tenant p)"

abbreviation node_pool_key :: "NodePool \<Rightarrow> Slot" where
  "node_pool_key p \<equiv> (np_instance p, np_tenant p)"

text \<open>The snapshots of one slot as one pool: the first one's policy, the sums of the counts.\<close>

fun merged :: "PoolSnapshot list \<Rightarrow> NodePool option" where
  "merged [] = None"
| "merged (p # ps) = Some \<lparr>np_instance = ps_instance p, np_tenant = ps_tenant p, np_policy = ps_policy p,
     np_stats = foldl PoolStats_add (ps_stats p) (map ps_stats ps)\<rparr>"

lemma merged_snoc:
  "merged (ps @ [p]) = (case merged ps of
     None \<Rightarrow> Some \<lparr>np_instance = ps_instance p, np_tenant = ps_tenant p, np_policy = ps_policy p, np_stats = ps_stats p\<rparr>
   | Some m \<Rightarrow> Some (m\<lparr>np_stats := PoolStats_add (np_stats m) (ps_stats p)\<rparr>))"
  by (cases ps) simp_all

lemma merge_pools_get:
  "bt_get (fold merge_pool ps []) k = merged (filter (\<lambda>p. snapshot_key p = k) ps)
   \<and> bt_wf (fold merge_pool ps [])"
proof (induction ps arbitrary: k rule: rev_induct)
  case (snoc p ps)
  show ?case
    using snoc [of "snapshot_key p"] snoc [of k]
    by (auto simp: merge_pool_def Let_def merged_snoc split: option.split)
qed simp

lemma foldl_stats:
  "PoolStats_actual (foldl PoolStats_add s ss) = PoolStats_actual s + (\<Sum>t \<leftarrow> ss. PoolStats_actual t)"
  "PoolStats_demand (foldl PoolStats_add s ss) = PoolStats_demand s + (\<Sum>t \<leftarrow> ss. PoolStats_demand t)"
  by (induction ss arbitrary: s) (simp_all add: PoolStats_actual_def PoolStats_demand_def PoolStats_add_def)

lemma merged_key:
  assumes "merged (filter (\<lambda>p. snapshot_key p = k) ps) = Some m"
  shows "node_pool_key m = k \<and> k \<in> snapshot_key ` set ps
    \<and> PoolStats_actual (np_stats m) = (\<Sum>p \<leftarrow> filter (\<lambda>p. snapshot_key p = k) ps. PoolStats_actual (ps_stats p))
    \<and> PoolStats_demand (np_stats m) = (\<Sum>p \<leftarrow> filter (\<lambda>p. snapshot_key p = k) ps. PoolStats_demand (ps_stats p))"
proof -
  let ?same = "filter (\<lambda>p. snapshot_key p = k) ps"
  obtain p qs where same: "?same = p # qs" using assms by (cases ?same) auto
  then have "p \<in> set ?same" by simp
  then have "p \<in> set ps" "snapshot_key p = k" by simp_all
  with assms show ?thesis by (auto simp: same foldl_stats comp_def)
qed

lemma node_pools_get:
  "(k, m) \<in> set (fold merge_pool (cv_pools v) []) \<longleftrightarrow> merged (filter (\<lambda>p. snapshot_key p = k) (cv_pools v)) = Some m"
  using merge_pools_get [of "cv_pools v" k] by (metis bt_get_def bt_wf_distinct map_of_SomeD map_of_is_SomeI)

lemma node_pools_keys: "map node_pool_key (node_pools v) = map fst (fold merge_pool (cv_pools v) [])"
  unfolding node_pools_def using node_pools_get [of _ _ v] merged_key by (fastforce simp: comp_def)

lemma node_pools_sorted: "sorted_wrt (<) (map node_pool_key (node_pools v))"
  using merge_pools_get [of "cv_pools v"] by (simp add: node_pools_keys bt_wf_def)

lemma node_pools_cover: "set (map node_pool_key (node_pools v)) = snapshot_key ` set (cv_pools v)"
proof -
  have "k \<in> fst ` set (fold merge_pool (cv_pools v) []) \<longleftrightarrow> k \<in> snapshot_key ` set (cv_pools v)" for k
  proof -
    have "filter (\<lambda>p. snapshot_key p = k) (cv_pools v) = [] \<longleftrightarrow> k \<notin> snapshot_key ` set (cv_pools v)"
      by (auto simp: filter_empty_conv)
    then show ?thesis
      using node_pools_get [of k _ v]
      by (cases "filter (\<lambda>p. snapshot_key p = k) (cv_pools v)") (force simp: image_iff)+
  qed
  then show ?thesis unfolding node_pools_keys by auto
qed

lemma node_pool_sums:
  assumes "m \<in> set (node_pools v)"
  shows "PoolStats_actual (np_stats m) = view_sum v (\<lambda>q. snapshot_key q = node_pool_key m)"
    and "PoolStats_demand (np_stats m) = (\<Sum>q \<leftarrow> filter (\<lambda>q. snapshot_key q = node_pool_key m) (cv_pools v). PoolStats_demand (ps_stats q))"
proof -
  from assms obtain k where "(k, m) \<in> set (fold merge_pool (cv_pools v) [])" by (auto simp: node_pools_def)
  with merged_key [of k "cv_pools v" m] node_pools_get [of k m v]
  show "PoolStats_actual (np_stats m) = view_sum v (\<lambda>q. snapshot_key q = node_pool_key m)"
    "PoolStats_demand (np_stats m) = (\<Sum>q \<leftarrow> filter (\<lambda>q. snapshot_key q = node_pool_key m) (cv_pools v). PoolStats_demand (ps_stats q))"
    by (auto simp: view_sum_def)
qed

text \<open>
  The node's pools are counted once. \<open>SHOW POOLS\<close> has exactly one row for each tenant on each
  instance this node has a pool for, in the order of instance and tenant, however many proxies hold
  one; its actual connections and its demand are the sums over those proxies, so no connection is
  left out or counted twice.
\<close>

theorem pools_counted_once:
  "sorted_wrt (<) (map node_pool_key (node_pools v))
   \<and> set (map node_pool_key (node_pools v)) = snapshot_key ` set (cv_pools v)
   \<and> map (\<lambda>row. cell_value (row ! 9)) (rs_rows (show_pools v))
     = map (\<lambda>p. view_sum v (\<lambda>q. snapshot_key q = node_pool_key p)) (node_pools v)
   \<and> map (\<lambda>row. cell_value (row ! 12)) (rs_rows (show_pools v))
     = map (\<lambda>p. \<Sum>q \<leftarrow> filter (\<lambda>q. snapshot_key q = node_pool_key p) (cv_pools v). PoolStats_demand (ps_stats q)) (node_pools v)"
  using node_pools_sorted [of v] node_pools_cover [of v] node_pool_sums [of _ v]
  by (auto simp: show_pools_def pool_row_def)

end
