(* ===== verification/Scram.thy ===== *)
theory Scram
  imports Bytes
begin

text \<open>
  The server side of SCRAM-SHA-256 (\<open>crates/core/src/scram.rs\<close>). HMAC, SHA-256, base64 and the
  preparation of a password are libraries the code calls; they are the fields of the record
  \<open>crypto\<close>, an argument of every definition that uses them. \<open>crypto_laws\<close> names what is relied
  on: digests of 32 bytes, and a base64 that reads back what it wrote with an alphabet of its own.
  What is random in the code (the nonce, the mock verifier's password and salt) is an argument.
\<close>

unbundle bit_operations_syntax

record crypto =
  hmac_sha256 :: "bytes \<Rightarrow> bytes \<Rightarrow> bytes"
  sha256 :: "bytes \<Rightarrow> bytes"
  base64_encode :: "bytes \<Rightarrow> bytes"
  base64_decode :: "bytes \<Rightarrow> bytes option"
  saslprep :: "bytes \<Rightarrow> bytes option"

definition is_base64 :: "byte \<Rightarrow> bool" where
  "is_base64 b \<longleftrightarrow> is_ascii_alphanumeric b \<or> b = CHR ''+'' \<or> b = CHR ''/'' \<or> b = CHR ''=''"

definition crypto_laws :: "crypto \<Rightarrow> bool" where
  "crypto_laws C \<longleftrightarrow>
     (\<forall>k d. length (hmac_sha256 C k d) = 32) \<and> (\<forall>d. length (sha256 C d) = 32)
     \<and> (\<forall>d. base64_decode C (base64_encode C d) = Some d) \<and> (\<forall>d. list_all is_base64 (base64_encode C d))"

definition MECHANISM :: bytes where "MECHANISM = ''SCRAM-SHA-256''"
definition DEFAULT_ITERATIONS :: nat where "DEFAULT_ITERATIONS = 4096"
definition KEY_LEN :: nat where "KEY_LEN = 32"

datatype ScramError =
    ScramMalformed string
  | ChannelBinding
  | NonceMismatch
  | ProofMismatch
  | OutOfOrder

datatype VerifierError = NotMechanism | VerifierMalformed string | BadIterations

record ScramVerifier =
  salt :: bytes
  iterations :: nat
  stored_key :: bytes
  server_key :: bytes

definition xor_byte :: "byte \<Rightarrow> byte \<Rightarrow> byte" where
  "xor_byte a b = char_of ((of_char a :: nat) XOR of_char b)"

definition xor_bytes :: "bytes \<Rightarrow> bytes \<Rightarrow> bytes" where
  "xor_bytes as bs = map2 xor_byte as bs"

fun salt_rounds :: "crypto \<Rightarrow> bytes \<Rightarrow> nat \<Rightarrow> bytes \<Rightarrow> bytes \<Rightarrow> bytes" where
  "salt_rounds C password 0 previous salted = salted"
| "salt_rounds C password (Suc n) previous salted =
     (let previous = hmac_sha256 C password previous in
      salt_rounds C password n previous (xor_bytes salted previous))"

definition salted_password :: "crypto \<Rightarrow> bytes \<Rightarrow> bytes \<Rightarrow> nat \<Rightarrow> bytes" where
  "salted_password C password s n =
     (let previous = hmac_sha256 C password (s @ be_bytes 4 1) in
      salt_rounds C password (n - 1) previous previous)"

definition prepare :: "crypto \<Rightarrow> bytes \<Rightarrow> bytes" where
  "prepare C password = (case saslprep C password of None \<Rightarrow> password | Some p \<Rightarrow> p)"

definition ScramVerifier_from_password :: "crypto \<Rightarrow> bytes \<Rightarrow> bytes \<Rightarrow> nat \<Rightarrow> ScramVerifier" where
  "ScramVerifier_from_password C password s n =
     (let salted = salted_password C (prepare C password) s n;
          client_key = hmac_sha256 C salted ''Client Key'' in
      \<lparr>salt = s, iterations = n, stored_key = sha256 C client_key,
       server_key = hmac_sha256 C salted ''Server Key''\<rparr>)"

text \<open>The verifier of a user nobody has: a random password and a random salt.\<close>

definition ScramVerifier_mock :: "crypto \<Rightarrow> bytes \<Rightarrow> bytes \<Rightarrow> ScramVerifier" where
  "ScramVerifier_mock C random_password random_salt =
     ScramVerifier_from_password C random_password random_salt DEFAULT_ITERATIONS"

section \<open>Text\<close>

text \<open>\<open>str::split_once\<close> at a byte, \<open>str::split\<close> at a comma, \<open>str::rsplit_once\<close> at a pattern, \<open>strip_prefix\<close>.\<close>

fun split_once :: "byte \<Rightarrow> bytes \<Rightarrow> (bytes \<times> bytes) option" where
  "split_once c [] = None"
| "split_once c (b # bs) =
     (if b = c then Some ([], bs)
      else map_option (\<lambda>(l, r). (b # l, r)) (split_once c bs))"

fun split_all :: "byte \<Rightarrow> bytes \<Rightarrow> bytes list" where
  "split_all c [] = [[]]"
| "split_all c (b # bs) =
     (if b = c then [] # split_all c bs
      else (b # hd (split_all c bs)) # tl (split_all c bs))"

fun rsplit_once :: "bytes \<Rightarrow> bytes \<Rightarrow> (bytes \<times> bytes) option" where
  "rsplit_once pat [] = (if pat = [] then Some ([], []) else None)"
| "rsplit_once pat (b # bs) =
     (case rsplit_once pat bs of
        Some (l, r) \<Rightarrow> Some (b # l, r)
      | None \<Rightarrow>
          if take (length pat) (b # bs) = pat then Some ([], drop (length pat) (b # bs)) else None)"

definition strip_prefix :: "bytes \<Rightarrow> bytes \<Rightarrow> bytes option" where
  "strip_prefix pat s = (if take (length pat) s = pat then Some (drop (length pat) s) else None)"

definition text_of :: "bytes \<Rightarrow> string \<Rightarrow> ScramError + bytes" where
  "text_of bs reason = (if valid_utf8 bs then Inr bs else Inl (ScramMalformed reason))"

definition split_gs2_header :: "bytes \<Rightarrow> ScramError + (bytes \<times> bytes)" where
  "split_gs2_header client_first =
     (case split_once CHR '','' client_first of
        None \<Rightarrow> Inl (ScramMalformed ''the client-first message has no GS2 header'')
      | Some (flag, rest) \<Rightarrow>
          (case split_once CHR '','' rest of
             None \<Rightarrow> Inl (ScramMalformed ''the GS2 header has no authzid field'')
           | Some (authzid, bare) \<Rightarrow>
               if flag = ''n'' \<or> flag = ''y'' then Inr (flag @ '','' @ authzid @ '','', bare)
               else if take 2 flag = ''p='' then Inl ChannelBinding
               else Inl (ScramMalformed ''the GS2 header has an unknown channel-binding flag'')))"

text \<open>
  A name parses as a \<open>char\<close> equal to an ASCII key exactly when it is that one byte.
\<close>

fun find_attribute :: "bytes list \<Rightarrow> byte \<Rightarrow> bytes option" where
  "find_attribute [] key = None"
| "find_attribute (part # parts) key =
     (case split_once CHR ''='' part of
        None \<Rightarrow> find_attribute parts key
      | Some (name, val) \<Rightarrow> if name = [key] then Some val else find_attribute parts key)"

definition attribute :: "bytes \<Rightarrow> byte \<Rightarrow> bytes option" where
  "attribute message key = find_attribute (split_all CHR '','' message) key"

section \<open>Verifiers\<close>

definition verifier_key :: "crypto \<Rightarrow> bytes \<Rightarrow> string \<Rightarrow> VerifierError + bytes" where
  "verifier_key C text complaint =
     (case base64_decode C text of
        None \<Rightarrow> Inl (VerifierMalformed complaint)
      | Some k \<Rightarrow> if length k = KEY_LEN then Inr k else Inl (VerifierMalformed complaint))"

definition ScramVerifier_from_str :: "crypto \<Rightarrow> bytes \<Rightarrow> VerifierError + ScramVerifier" where
  "ScramVerifier_from_str C text =
     (case Option.bind (strip_prefix MECHANISM text) (strip_prefix ''$'') of
        None \<Rightarrow> Inl NotMechanism
      | Some whole \<Rightarrow>
     (case split_once CHR ''$'' whole of
        None \<Rightarrow> Inl (VerifierMalformed ''no `$` between the salt and the keys'')
      | Some (params, keys) \<Rightarrow>
     (case split_once CHR '':'' params of
        None \<Rightarrow> Inl (VerifierMalformed ''no `:` between the iterations and the salt'')
      | Some (its, slt) \<Rightarrow>
     (case split_once CHR '':'' keys of
        None \<Rightarrow> Inl (VerifierMalformed ''no `:` between the two keys'')
      | Some (stored, server) \<Rightarrow>
     (case parse_u32 its of
        None \<Rightarrow> Inl BadIterations
      | Some n \<Rightarrow>
          if n = 0 then Inl BadIterations
          else (case base64_decode C slt of
             None \<Rightarrow> Inl (VerifierMalformed ''the salt is not base64'')
           | Some s \<Rightarrow>
               if s = [] then Inl (VerifierMalformed ''the salt is empty'')
               else (case verifier_key C stored ''the stored key is not a base64 SHA-256 digest'' of
                  Inl e \<Rightarrow> Inl e
                | Inr sk \<Rightarrow>
                    (case verifier_key C server ''the server key is not a base64 SHA-256 digest'' of
                       Inl e \<Rightarrow> Inl e
                     | Inr vk \<Rightarrow> Inr \<lparr>salt = s, iterations = n, stored_key = sk, server_key = vk\<rparr>))))))))"

section \<open>The exchange\<close>

record Challenge =
  gs2_header :: bytes
  client_first_bare :: bytes
  server_first_text :: bytes
  full_nonce :: bytes

datatype ScramState = ScramStart | AwaitingProof Challenge | ScramDone

record ScramExchange =
  verifier :: ScramVerifier
  server_nonce :: bytes
  scram_state :: ScramState

definition ScramExchange_new :: "ScramVerifier \<Rightarrow> bytes \<Rightarrow> ScramExchange" where
  "ScramExchange_new v n = \<lparr>verifier = v, server_nonce = n, scram_state = ScramStart\<rparr>"

definition server_first :: "crypto \<Rightarrow> bytes \<Rightarrow> ScramExchange \<Rightarrow> (ScramError + bytes) \<times> ScramExchange" where
  "server_first C client_first x =
     (if scram_state x \<noteq> ScramStart then (Inl OutOfOrder, x)
      else case text_of client_first ''the client-first message is not valid UTF-8'' of
        Inl e \<Rightarrow> (Inl e, x)
      | Inr t \<Rightarrow>
          (case split_gs2_header t of
             Inl e \<Rightarrow> (Inl e, x)
           | Inr (header, bare) \<Rightarrow>
               (case attribute bare CHR ''r'' of
                  None \<Rightarrow> (Inl (ScramMalformed ''the client-first message has no nonce''), x)
                | Some client_nonce \<Rightarrow>
                    (let n = client_nonce @ server_nonce x;
                         first = ''r='' @ n @ '',s='' @ base64_encode C (salt (verifier x))
                           @ '',i='' @ decimal (iterations (verifier x)) in
                     (Inr first, x\<lparr>scram_state := AwaitingProof
                        \<lparr>gs2_header = header, client_first_bare = bare, server_first_text = first,
                         full_nonce = n\<rparr>\<rparr>)))))"

definition verify_proof :: "crypto \<Rightarrow> ScramVerifier \<Rightarrow> bytes \<Rightarrow> bytes \<Rightarrow> ScramError + unit" where
  "verify_proof C v proof auth_message =
     (case base64_decode C proof of
        None \<Rightarrow> Inl (ScramMalformed ''the client proof is not base64'')
      | Some p \<Rightarrow>
          if length p \<noteq> KEY_LEN then Inl ProofMismatch
          else (let signature = hmac_sha256 C (stored_key v) auth_message;
                    client_key = xor_bytes p signature in
                if sha256 C client_key = stored_key v then Inr () else Inl ProofMismatch))"

definition check_final :: "crypto \<Rightarrow> ScramVerifier \<Rightarrow> Challenge \<Rightarrow> bytes \<Rightarrow> ScramError + bytes" where
  "check_final C v ch client_final =
     (case text_of client_final ''the client-final message is not valid UTF-8'' of
        Inl e \<Rightarrow> Inl e
      | Inr t \<Rightarrow>
     (case rsplit_once '',p='' t of
        None \<Rightarrow> Inl (ScramMalformed ''the client-final message has no proof'')
      | Some (without_proof, proof) \<Rightarrow>
     (case attribute without_proof CHR ''c'' of
        None \<Rightarrow> Inl (ScramMalformed ''the client-final message has no channel-binding attribute'')
      | Some echoed \<Rightarrow>
          if echoed \<noteq> base64_encode C (gs2_header ch) then Inl ChannelBinding
          else (case attribute without_proof CHR ''r'' of
             None \<Rightarrow> Inl (ScramMalformed ''the client-final message has no nonce'')
           | Some n \<Rightarrow>
               if n \<noteq> full_nonce ch then Inl NonceMismatch
               else (let auth_message = client_first_bare ch @ '','' @ server_first_text ch @ '','' @ without_proof in
                 case verify_proof C v proof auth_message of
                   Inl e \<Rightarrow> Inl e
                 | Inr _ \<Rightarrow> Inr (''v='' @ base64_encode C (hmac_sha256 C (server_key v) auth_message)))))))"

definition server_final :: "crypto \<Rightarrow> bytes \<Rightarrow> ScramExchange \<Rightarrow> (ScramError + bytes) \<times> ScramExchange" where
  "server_final C client_final x =
     (case scram_state x of
        AwaitingProof ch \<Rightarrow> (check_final C (verifier x) ch client_final, x\<lparr>scram_state := ScramDone\<rparr>)
      | _ \<Rightarrow> (Inl OutOfOrder, x))"

section \<open>Helpers\<close>

lemma xor_byte_cancel [simp]: "xor_byte (xor_byte a b) b = a"
proof -
  have small: "take_bit 8 (of_char c :: nat) = of_char c" for c
    by (simp add: take_bit_nat_def)
  have code: "(of_char (char_of n) :: nat) = take_bit 8 n" for n :: nat
    by (simp add: take_bit_nat_def)
  have "(of_char (xor_byte a b) :: nat) = of_char a XOR of_char b"
    unfolding xor_byte_def code take_bit_xor small ..
  then have "((of_char (xor_byte a b) :: nat) XOR of_char b) = of_char a" by (simp add: xor.assoc)
  then show ?thesis unfolding xor_byte_def [of "xor_byte a b"] by simp
qed

lemma length_xor_bytes [simp]: "length (xor_bytes as bs) = min (length as) (length bs)"
  by (simp add: xor_bytes_def)

lemma xor_bytes_cancel: "length as = length bs \<Longrightarrow> xor_bytes (xor_bytes as bs) bs = as"
  by (induction as bs rule: list_induct2) (simp_all add: xor_bytes_def)

lemma split_once_append: "c \<notin> set l \<Longrightarrow> split_once c (l @ c # r) = Some (l, r)"
  by (induction l) auto

lemma split_all_none: "c \<notin> set l \<Longrightarrow> split_all c l = [l]"
  by (induction l) auto

lemma split_all_append: "c \<notin> set l \<Longrightarrow> split_all c (l @ c # r) = l # split_all c r"
  by (induction l) auto

lemma rsplit_once_none: "CHR '','' \<notin> set s \<Longrightarrow> rsplit_once '',p='' s = None"
  by (induction s) auto

lemma rsplit_once_last: "CHR '','' \<notin> set r \<Longrightarrow> rsplit_once '',p='' (l @ '',p='' @ r) = Some (l, r)"
proof (induction l)
  case Nil
  then have "rsplit_once '',p='' (CHR ''p'' # CHR ''='' # r) = None" by (intro rsplit_once_none) simp
  then show ?case by simp
qed simp

lemma base64_plain:
  assumes "is_base64 b"
  shows "b \<noteq> CHR '',''" "code_of b < 0x80" "b \<noteq> CHR ''$''" "b \<noteq> CHR '':''"
  using assms by (auto simp: is_base64_def is_ascii_alphanumeric_def is_ascii_digit_def
      is_ascii_alphabetic_def in_range_def)

lemma crypto_base64:
  assumes "crypto_laws C"
  shows "CHR '','' \<notin> set (base64_encode C d)" "valid_utf8 (base64_encode C d)"
    "CHR ''$'' \<notin> set (base64_encode C d)" "CHR '':'' \<notin> set (base64_encode C d)"
    "base64_decode C (base64_encode C d) = Some d"
proof -
  have "list_all is_base64 (base64_encode C d)" using assms by (simp add: crypto_laws_def)
  then have b: "\<And>b. b \<in> set (base64_encode C d) \<Longrightarrow> is_base64 b" by (simp add: list_all_iff)
  show "CHR '','' \<notin> set (base64_encode C d)" "CHR ''$'' \<notin> set (base64_encode C d)" "CHR '':'' \<notin> set (base64_encode C d)"
    using b base64_plain by blast+
  show "valid_utf8 (base64_encode C d)" by (rule valid_utf8_ascii) (use b base64_plain in blast)
  show "base64_decode C (base64_encode C d) = Some d" using assms by (simp add: crypto_laws_def)
qed

section \<open>An honest client\<close>

text \<open>The client of RFC 5802, without channel binding.\<close>

record scram_client =
  sc_flag :: bytes
  sc_user :: bytes
  sc_nonce :: bytes
  sc_password :: bytes

definition plain :: "bytes \<Rightarrow> bool" where
  "plain t \<longleftrightarrow> CHR '','' \<notin> set t \<and> valid_utf8 t"

definition client_ok :: "scram_client \<Rightarrow> bool" where
  "client_ok c \<longleftrightarrow> (sc_flag c = ''n'' \<or> sc_flag c = ''y'') \<and> plain (sc_user c) \<and> plain (sc_nonce c)"

definition client_bare :: "scram_client \<Rightarrow> bytes" where
  "client_bare c = ''n='' @ sc_user c @ '',r='' @ sc_nonce c"

definition client_first :: "scram_client \<Rightarrow> bytes" where
  "client_first c = sc_flag c @ '',,'' @ client_bare c"

definition client_without_proof :: "crypto \<Rightarrow> scram_client \<Rightarrow> bytes \<Rightarrow> bytes" where
  "client_without_proof C c nonce = ''c='' @ base64_encode C (sc_flag c @ '',,'') @ '',r='' @ nonce"

definition client_auth :: "crypto \<Rightarrow> scram_client \<Rightarrow> bytes \<Rightarrow> bytes \<Rightarrow> bytes" where
  "client_auth C c nonce first = client_bare c @ '','' @ first @ '','' @ client_without_proof C c nonce"

definition client_final :: "crypto \<Rightarrow> scram_client \<Rightarrow> bytes \<Rightarrow> nat \<Rightarrow> bytes \<Rightarrow> bytes \<Rightarrow> bytes" where
  "client_final C c slt n nonce first =
     (let client_key = hmac_sha256 C (salted_password C (prepare C (sc_password c)) slt n) ''Client Key'';
          signature = hmac_sha256 C (sha256 C client_key) (client_auth C c nonce first) in
      client_without_proof C c nonce @ '',p='' @ base64_encode C (xor_bytes client_key signature))"

text \<open>What the client expects back: only a server that holds the verifier can compute it.\<close>

definition expected_final :: "crypto \<Rightarrow> scram_client \<Rightarrow> bytes \<Rightarrow> nat \<Rightarrow> bytes \<Rightarrow> bytes \<Rightarrow> bytes" where
  "expected_final C c slt n nonce first =
     ''v='' @ base64_encode C (hmac_sha256 C
       (hmac_sha256 C (salted_password C (prepare C (sc_password c)) slt n) ''Server Key'')
       (client_auth C c nonce first))"

lemma attribute_bare: "client_ok c \<Longrightarrow> attribute (client_bare c) CHR ''r'' = Some (sc_nonce c)"
proof -
  assume "client_ok c"
  then have u: "CHR '','' \<notin> set (''n='' @ sc_user c)" and r: "CHR '','' \<notin> set (''r='' @ sc_nonce c)"
    by (auto simp: client_ok_def plain_def)
  have "split_all CHR '','' (client_bare c) = [''n='' @ sc_user c, ''r='' @ sc_nonce c]"
    using split_all_append [OF u, of "''r='' @ sc_nonce c"] split_all_none [OF r]
    by (simp add: client_bare_def)
  then show ?thesis by (simp add: attribute_def)
qed

lemma attributes_final:
  assumes "crypto_laws C" "CHR '','' \<notin> set nonce"
  shows "attribute (client_without_proof C c nonce) CHR ''c'' = Some (base64_encode C (sc_flag c @ '',,''))"
    and "attribute (client_without_proof C c nonce) CHR ''r'' = Some nonce"
proof -
  have l: "CHR '','' \<notin> set (''c='' @ base64_encode C (sc_flag c @ '',,''))"
    and r: "CHR '','' \<notin> set (''r='' @ nonce)"
    using crypto_base64 [OF assms(1)] assms(2) by auto
  have "split_all CHR '','' (client_without_proof C c nonce) = [''c='' @ base64_encode C (sc_flag c @ '',,''), ''r='' @ nonce]"
    using split_all_append [OF l, of "''r='' @ nonce"] split_all_none [OF r]
    by (simp add: client_without_proof_def)
  then show "attribute (client_without_proof C c nonce) CHR ''c'' = Some (base64_encode C (sc_flag c @ '',,''))"
    "attribute (client_without_proof C c nonce) CHR ''r'' = Some nonce"
    by (simp_all add: attribute_def)
qed

lemma client_first_utf8: "client_ok c \<Longrightarrow> valid_utf8 (client_first c)"
  unfolding client_first_def client_bare_def
  by (intro valid_utf8_append) (auto simp: client_ok_def plain_def utf8_rest_def)

lemma client_final_utf8:
  assumes "crypto_laws C" "valid_utf8 nonce"
  shows "valid_utf8 (client_final C c slt n nonce first)"
  unfolding client_final_def client_without_proof_def Let_def
  by (intro valid_utf8_append crypto_base64(2) [OF assms(1)] assms(2)) (simp_all add: utf8_rest_def)

lemma honest_server_first:
  assumes "client_ok c"
  shows "server_first C (client_first c) (ScramExchange_new v sn) =
    (let nonce = sc_nonce c @ sn;
         first = ''r='' @ nonce @ '',s='' @ base64_encode C (salt v) @ '',i='' @ decimal (iterations v) in
     (Inr first, \<lparr>verifier = v, server_nonce = sn, scram_state = AwaitingProof
        \<lparr>gs2_header = sc_flag c @ '',,'', client_first_bare = client_bare c, server_first_text = first,
         full_nonce = nonce\<rparr>\<rparr>))"
proof -
  have "split_gs2_header (client_first c) = Inr (sc_flag c @ '',,'', client_bare c)"
    using assms by (auto simp: split_gs2_header_def client_first_def client_ok_def)
  then show ?thesis
    using attribute_bare [OF assms] client_first_utf8 [OF assms]
    by (simp add: server_first_def ScramExchange_new_def text_of_def Let_def)
qed

text \<open>
  C15: A client that knows the password is let in, and learns that the server knows the verifier.
  For the verifier made from a password, with any salt and iteration count, the exchange of an
  honest client with that password succeeds, and the server's last message is exactly the one the
  client expects.
\<close>

theorem scram_complete:
  assumes "crypto_laws C" "client_ok c" "plain sn"
    and "x = ScramExchange_new (ScramVerifier_from_password C (sc_password c) slt n) sn"
  shows "\<exists>first x'. server_first C (client_first c) x = (Inr first, x')
    \<and> fst (server_final C (client_final C c slt n (sc_nonce c @ sn) first) x')
      = Inr (expected_final C c slt n (sc_nonce c @ sn) first)"
proof -
  let ?nonce = "sc_nonce c @ sn" and ?v = "ScramVerifier_from_password C (sc_password c) slt n"
  define first where "first = ''r='' @ ?nonce @ '',s='' @ base64_encode C (salt ?v) @ '',i='' @ decimal (iterations ?v)"
  define ch where "ch = \<lparr>gs2_header = sc_flag c @ '',,'', client_first_bare = client_bare c,
    server_first_text = first, full_nonce = ?nonce\<rparr>"
  let ?x' = "\<lparr>verifier = ?v, server_nonce = sn, scram_state = AwaitingProof ch\<rparr>"
  let ?key = "hmac_sha256 C (salted_password C (prepare C (sc_password c)) slt n) ''Client Key''"
  let ?auth = "client_auth C c ?nonce first"
  let ?sig = "hmac_sha256 C (sha256 C ?key) ?auth"
  have one: "server_first C (client_first c) x = (Inr first, ?x')"
    unfolding assms(4) honest_server_first [OF assms(2)] Let_def first_def ch_def ..
  have nonce: "CHR '','' \<notin> set ?nonce" "valid_utf8 ?nonce"
    using assms(2,3) by (auto simp: client_ok_def plain_def intro: valid_utf8_append)
  have len: "length ?key = 32" "length ?sig = 32" using assms(1) by (simp_all add: crypto_laws_def)
  have pf: "verify_proof C ?v (base64_encode C (xor_bytes ?key ?sig)) ?auth = Inr ()"
    using len crypto_base64(5) [OF assms(1)] xor_bytes_cancel [of ?key ?sig]
    by (simp add: verify_proof_def ScramVerifier_from_password_def Let_def KEY_LEN_def)
  have "rsplit_once '',p='' (client_final C c slt n ?nonce first)
      = Some (client_without_proof C c ?nonce, base64_encode C (xor_bytes ?key ?sig))"
    unfolding client_final_def Let_def by (rule rsplit_once_last) (rule crypto_base64(1) [OF assms(1)])
  with client_final_utf8 [OF assms(1) nonce(2), of c slt n first] attributes_final [OF assms(1) nonce(1), of c] pf
  have "check_final C ?v ch (client_final C c slt n ?nonce first) = Inr (expected_final C c slt n ?nonce first)"
    by (simp add: check_final_def text_of_def ch_def client_auth_def expected_final_def Let_def
        ScramVerifier_from_password_def)
  with one show ?thesis by (simp add: server_final_def)
qed

text \<open>A stand-in for the libraries that satisfies the laws, to evaluate an exchange with.\<close>

definition nibble :: "nat \<Rightarrow> byte" where
  "nibble n = char_of (65 + n mod 16)"

fun demo_encode :: "bytes \<Rightarrow> bytes" where
  "demo_encode [] = []"
| "demo_encode (b # bs) = nibble (code_of b div 16) # nibble (code_of b) # demo_encode bs"

fun demo_decode :: "bytes \<Rightarrow> bytes option" where
  "demo_decode [] = Some []"
| "demo_decode (a # b # bs) =
     map_option ((#) (char_of ((code_of a - 65) * 16 + (code_of b - 65)))) (demo_decode bs)"
| "demo_decode [a] = None"

definition pad32 :: "bytes \<Rightarrow> bytes" where
  "pad32 d = take 32 (d @ replicate 32 NUL)"

definition demo_crypto :: crypto where
  "demo_crypto = \<lparr>hmac_sha256 = \<lambda>k d. pad32 (rev d @ k), sha256 = \<lambda>d. pad32 (rev (pad32 d)),
     base64_encode = demo_encode, base64_decode = demo_decode, saslprep = \<lambda>p. Some p\<rparr>"

lemma length_pad32: "length (pad32 d) = 32"
  by (simp add: pad32_def min_def)

lemma nibble_code: "code_of (nibble n) = 65 + n mod 16"
proof -
  have "65 + n mod 16 < 256" using mod_less_divisor [of 16 n] by simp
  then show ?thesis by (simp add: nibble_def)
qed

lemma demo_decode_encode: "demo_decode (demo_encode d) = Some d"
proof (induction d)
  case (Cons b d)
  have "code_of b div 16 < 16" using nat_of_char_less_256 [of b] by (simp add: less_mult_imp_div_less)
  then have "(code_of (nibble (code_of b div 16)) - 65) * 16 + (code_of (nibble (code_of b)) - 65) = code_of b"
    by (simp add: nibble_code)
  with Cons show ?case by (simp only: demo_encode.simps demo_decode.simps char_of_char option.map)
qed simp

lemma demo_laws: "crypto_laws demo_crypto"
proof -
  have "is_base64 (nibble n)" for n
    using less_imp_le [OF mod_less_divisor [of 16 n]]
    by (auto simp: is_base64_def is_ascii_alphanumeric_def is_ascii_alphabetic_def in_range_def nibble_code)
  then have "list_all is_base64 (demo_encode d)" for d by (induction d) simp_all
  then show ?thesis
    by (simp add: crypto_laws_def demo_crypto_def length_pad32 demo_decode_encode)
qed

theorem scram_complete_witness:
  "\<exists>first x'. server_first demo_crypto (client_first \<lparr>sc_flag = ''n'', sc_user = ''ann'', sc_nonce = ''abc'', sc_password = ''pw''\<rparr>)
       (ScramExchange_new (ScramVerifier_from_password demo_crypto ''pw'' ''salt'' 3) ''xyz'') = (Inr first, x')
    \<and> fst (server_final demo_crypto (client_final demo_crypto
         \<lparr>sc_flag = ''n'', sc_user = ''ann'', sc_nonce = ''abc'', sc_password = ''pw''\<rparr> ''salt'' 3 ''abcxyz'' first) x')
      = Inr (expected_final demo_crypto \<lparr>sc_flag = ''n'', sc_user = ''ann'', sc_nonce = ''abc'', sc_password = ''pw''\<rparr>
          ''salt'' 3 ''abcxyz'' first)"
proof -
  let ?c = "\<lparr>sc_flag = ''n'', sc_user = ''ann'', sc_nonce = ''abc'', sc_password = ''pw''\<rparr>"
  have "client_ok ?c" "plain ''xyz''" by code_simp+
  from scram_complete [OF demo_laws this refl, of "''salt''" 3] show ?thesis by simp
qed

lemma rsplit_once_Some: "rsplit_once pat s = Some (l, r) \<Longrightarrow> s = l @ pat @ r"
proof (induction s arbitrary: l r)
  case (Cons b s)
  then show ?case
    by (auto split: option.splits if_splits) (metis append_take_drop_id)
qed (auto split: if_splits)

lemma check_final_Inr:
  assumes "check_final C v ch m = Inr out"
  shows "\<exists>without proof p. m = without @ '',p='' @ proof
    \<and> attribute without CHR ''c'' = Some (base64_encode C (gs2_header ch))
    \<and> attribute without CHR ''r'' = Some (full_nonce ch)
    \<and> base64_decode C proof = Some p \<and> length p = KEY_LEN
    \<and> sha256 C (xor_bytes p (hmac_sha256 C (stored_key v)
        (client_first_bare ch @ '','' @ server_first_text ch @ '','' @ without))) = stored_key v"
proof -
  from assms obtain without pf p where *: "rsplit_once '',p='' m = Some (without, pf)"
    "attribute without CHR ''c'' = Some (base64_encode C (gs2_header ch))"
    "attribute without CHR ''r'' = Some (full_nonce ch)"
    "base64_decode C pf = Some p" "length p = KEY_LEN"
    "sha256 C (xor_bytes p (hmac_sha256 C (stored_key v)
        (client_first_bare ch @ '','' @ server_first_text ch @ '','' @ without))) = stored_key v"
    by (auto simp: check_final_def text_of_def verify_proof_def Let_def
        split: if_splits option.splits sum.splits)
  from rsplit_once_Some [OF *(1)] *(2-) show ?thesis by blast
qed

lemma server_final_proof:
  assumes "server_first C f (ScramExchange_new v sn) = (Inr first, x)" "server_final C m x = (Inr out, x')"
  shows "\<exists>client_nonce bare without proof p. m = without @ '',p='' @ proof
    \<and> attribute without CHR ''r'' = Some (client_nonce @ sn)
    \<and> base64_decode C proof = Some p \<and> length p = KEY_LEN
    \<and> sha256 C (xor_bytes p (hmac_sha256 C (stored_key v) (bare @ '','' @ first @ '','' @ without))) = stored_key v
    \<and> fst (server_final C m' x') = Inl OutOfOrder"
proof -
  from assms(1) obtain client_nonce bare header where
    x: "x = \<lparr>verifier = v, server_nonce = sn, scram_state = AwaitingProof
      \<lparr>gs2_header = header, client_first_bare = bare, server_first_text = first, full_nonce = client_nonce @ sn\<rparr>\<rparr>"
    by (auto simp: server_first_def ScramExchange_new_def Let_def split: sum.splits option.splits)
  with assms(2) have "fst (server_final C m' x') = Inl OutOfOrder"
    and "check_final C v \<lparr>gs2_header = header, client_first_bare = bare, server_first_text = first,
      full_nonce = client_nonce @ sn\<rparr> m = Inr out"
    by (auto simp: server_final_def)
  with check_final_Inr [OF this(2)] show ?thesis by fastforce
qed



section \<open>The text of a verifier\<close>

text \<open>The form PostgreSQL stores a verifier in.\<close>

definition verifier_text :: "crypto \<Rightarrow> ScramVerifier \<Rightarrow> bytes" where
  "verifier_text C v = MECHANISM @ ''$'' @ decimal (iterations v) @ '':'' @ base64_encode C (salt v)
     @ ''$'' @ base64_encode C (stored_key v) @ '':'' @ base64_encode C (server_key v)"

definition verifier_ok :: "ScramVerifier \<Rightarrow> bool" where
  "verifier_ok v \<longleftrightarrow> 0 < iterations v \<and> iterations v \<le> u32_max \<and> salt v \<noteq> []
     \<and> length (stored_key v) = KEY_LEN \<and> length (server_key v) = KEY_LEN"

lemma decimal_plain: "CHR ''$'' \<notin> set (decimal n)" "CHR '':'' \<notin> set (decimal n)"
proof -
  have "\<not> is_ascii_digit CHR ''$''" "\<not> is_ascii_digit CHR '':''"
    by (simp_all add: is_ascii_digit_def in_range_def)
  then show "CHR ''$'' \<notin> set (decimal n)" "CHR '':'' \<notin> set (decimal n)"
    using decimal_all_digits by blast+
qed

lemma verifier_round_trip:
  assumes "crypto_laws C" "verifier_ok v"
  shows "ScramVerifier_from_str C (verifier_text C v) = Inr v"
proof -
  note b = crypto_base64 [OF assms(1)]
  let ?params = "decimal (iterations v) @ '':'' @ base64_encode C (salt v)"
  let ?keys = "base64_encode C (stored_key v) @ '':'' @ base64_encode C (server_key v)"
  have "Option.bind (strip_prefix MECHANISM (verifier_text C v)) (strip_prefix ''$'') = Some (?params @ CHR ''$'' # ?keys)"
    by (simp add: verifier_text_def strip_prefix_def MECHANISM_def)
  moreover have "split_once CHR ''$'' (?params @ CHR ''$'' # ?keys) = Some (?params, ?keys)"
    by (rule split_once_append) (use b decimal_plain in auto)
  moreover have "split_once CHR '':'' ?params = Some (decimal (iterations v), base64_encode C (salt v))"
    "split_once CHR '':'' ?keys = Some (base64_encode C (stored_key v), base64_encode C (server_key v))"
    using split_once_append [of "CHR '':''"] decimal_plain b by simp_all
  ultimately show ?thesis
    using assms(2) b(5)
    by (cases v) (simp add: ScramVerifier_from_str_def verifier_ok_def verifier_key_def parse_u32_decimal)
qed

end
