(* ===== verification/Admission.thy ===== *)
theory Admission
  imports Prelude
begin

text \<open>
  How many clients a node holds at once (\<open>crates/core/src/admission.rs\<close>). \<open>send_if_modified\<close> and
  \<open>send_modify\<close> run their closure under the channel's lock, so \<open>admit\<close> and the drop of a place are
  one step each. \<open>drained\<close> waits on the same channel; \<open>drained\<close> is the condition it ends on.
\<close>

record ClientLimit =
  limit_max :: nat
  limit_live :: nat

definition ClientLimit_new :: "nat \<Rightarrow> ClientLimit" where
  "ClientLimit_new m = \<lparr>limit_max = m, limit_live = 0\<rparr>"

definition admit :: "ClientLimit \<Rightarrow> bool \<times> ClientLimit" where
  "admit l =
     (if limit_live l \<ge> limit_max l then (False, l) else (True, l\<lparr>limit_live := limit_live l + 1\<rparr>))"

text \<open>The decrement of a \<open>usize\<close> underflows at zero, here a missing result.\<close>

definition drop_admitted :: "ClientLimit \<Rightarrow> ClientLimit option" where
  "drop_admitted l = (if limit_live l = 0 then None else Some (l\<lparr>limit_live := limit_live l - 1\<rparr>))"

definition drained :: "ClientLimit \<Rightarrow> bool" where
  "drained l \<longleftrightarrow> \<not> limit_live l > 0"

text \<open>The limit beside the number of places that are held.\<close>

inductive admission_step :: "ClientLimit \<times> nat \<Rightarrow> (ClientLimit \<times> nat) \<Rightarrow> bool" where
  admitted: "admit l = (True, l') \<Longrightarrow> admission_step (l, places) (l', Suc places)"
| over_limit: "admit l = (False, l') \<Longrightarrow> admission_step (l, places) (l', places)"
| left: "drop_admitted l = Some l' \<Longrightarrow> admission_step (l, Suc places) (l', places)"

inductive admission_reachable :: "nat \<Rightarrow> ClientLimit \<times> nat \<Rightarrow> bool" for m where
  admission_init: "admission_reachable m (ClientLimit_new m, 0)"
| admission_next: "admission_reachable m s \<Longrightarrow> admission_step s s' \<Longrightarrow> admission_reachable m s'"

interpretation admission: transition_system "\<lambda>s. s = (ClientLimit_new m, 0)" admission_step "admission_reachable m" for m
proof
  fix s and P :: "ClientLimit \<times> nat \<Rightarrow> bool"
  assume "admission_reachable m s" "\<And>u. u = (ClientLimit_new m, 0) \<Longrightarrow> P u"
    "\<And>u v. admission_reachable m u \<Longrightarrow> P u \<Longrightarrow> admission_step u v \<Longrightarrow> P v"
  then show "P s" by (induction rule: admission_reachable.induct) blast+
qed

definition places_counted :: "nat \<Rightarrow> ClientLimit \<times> nat \<Rightarrow> bool" where
  "places_counted m s \<longleftrightarrow> limit_max (fst s) = m \<and> limit_live (fst s) = snd s \<and> snd s \<le> m"

lemma places_counted_step: "admission_step s s' \<Longrightarrow> places_counted m s \<Longrightarrow> places_counted m s'"
  by (induction rule: admission_step.induct)
    (auto simp: places_counted_def admit_def drop_admitted_def split: if_splits)

lemma places_counted_reachable: "admission_reachable m s \<Longrightarrow> places_counted m s"
  by (rule admission.invariant [where I = "places_counted m"], assumption)
    (simp add: places_counted_def ClientLimit_new_def, rule places_counted_step)

text \<open>
  C40: the node never holds more clients than its limit. In every reachable state the count is
  the number of places held and at most the limit; a client is turned away exactly when all places
  are held; giving back a place that is held never underflows; and the node is drained exactly
  when nobody holds one.
\<close>

theorem admission_bounded:
  assumes "admission_reachable m (l, places)"
  shows "limit_live l = places \<and> places \<le> m \<and> (fst (admit l) \<longleftrightarrow> places < m)
    \<and> (places > 0 \<longrightarrow> drop_admitted l \<noteq> None) \<and> (drained l \<longleftrightarrow> places = 0)"
  using places_counted_reachable [OF assms]
  by (auto simp: places_counted_def admit_def drop_admitted_def drained_def)

theorem admission_bounded_witness:
  "fst (admit (snd (admit (ClientLimit_new 1)))) = False"
proof -
  have "admission_reachable 1 (snd (admit (ClientLimit_new 1)), Suc 0)"
    by (rule admission_next [OF admission_init], rule admitted) (simp add: admit_def ClientLimit_new_def)
  from admission_bounded [OF this] show ?thesis by simp
qed

end
