(* ===== verification/Session.thy ===== *)
theory Session
  imports Scram Backend Admission
begin

text \<open>
  Accepting a client (\<open>crates/core/src/session.rs\<close>, \<open>crates/core/src/auth.rs\<close>): the opening
  packets, the negotiation of encryption, authentication and the answer to a client that is turned
  away. A connection is the sequence of what its reads return (nothing: an error; no bytes: the
  end) together with what has been written. \<open>since_upgrade\<close> collects the bytes read since the connection was
  last encrypted; it is not part of the program and only states what the bytes of a session are.

  Writes are taken to succeed and TLS to be a parameter: whether this node has a certificate and
  whether the handshake succeeds. The text of an error (\<open>to_string\<close>) is the parameter \<open>display\<close>.
\<close>

definition MAX_STARTUP_PACKET :: nat where "MAX_STARTUP_PACKET = 10000"
definition MAX_AUTH_MESSAGE :: nat where "MAX_AUTH_MESSAGE = 10000"

datatype Encryption = Tls | GssApi

datatype AcceptError =
    AcceptIo
  | ConnectionClosed
  | AcceptFrame FrameError
  | AcceptStartup StartupError
  | AcceptTenant TenantResolveError
  | RepeatedEncryptionRequest Encryption
  | UnencryptedData
  | AcceptFrontend FrontendError
  | UnsupportedMechanism bytes
  | UnexpectedMessage byte
  | AcceptScram ScramError
  | AuthenticationFailed bytes
  | TooManyClients nat
  | AcceptPanic

fun AcceptError_response :: "(AcceptError \<Rightarrow> string) \<Rightarrow> AcceptError \<Rightarrow> ErrorResponse option" where
  "AcceptError_response display AcceptIo = None"
| "AcceptError_response display ConnectionClosed = None"
| "AcceptError_response display UnencryptedData = None"
| "AcceptError_response display AcceptPanic = None"
| "AcceptError_response display (AcceptStartup (UnsupportedProtocolVersion v)) =
     Some (ErrorResponse_fatal FEATURE_NOT_SUPPORTED
       (''unsupported frontend protocol '' @ ProtocolVersion_display v @ ''; this node speaks ''
        @ decimal SUPPORTED_MAJOR @ ''.0''))"
| "AcceptError_response display (AcceptTenant e) =
     Some (with_hint ''Name the user in the connection string.''
       (ErrorResponse_fatal INVALID_AUTHORIZATION_SPECIFICATION (display (AcceptTenant e))))"
| "AcceptError_response display (UnsupportedMechanism m) =
     Some (ErrorResponse_fatal FEATURE_NOT_SUPPORTED (display (UnsupportedMechanism m)))"
| "AcceptError_response display (AcceptScram ChannelBinding) =
     Some (ErrorResponse_fatal FEATURE_NOT_SUPPORTED (display (AcceptScram ChannelBinding)))"
| "AcceptError_response display (TooManyClients m) =
     Some (with_hint ''Raise node.max_client_connections, or spread the clients over more proxy nodes.''
       (ErrorResponse_fatal TOO_MANY_CONNECTIONS (display (TooManyClients m))))"
| "AcceptError_response display (AuthenticationFailed user) =
     Some (ErrorResponse_fatal INVALID_PASSWORD (display (AuthenticationFailed user)))"
| "AcceptError_response display e = Some (ErrorResponse_fatal PROTOCOL_VIOLATION (display e))"

section \<open>Credentials\<close>

datatype AuthMethod = Trust | ScramSha256 ScramVerifier

type_synonym ClientCredentials = "(bytes, AuthMethod) btree_map"

definition ClientCredentials_new :: ClientCredentials where
  "ClientCredentials_new = []"

definition ClientCredentials_insert :: "bytes \<Rightarrow> AuthMethod \<Rightarrow> ClientCredentials \<Rightarrow> ClientCredentials" where
  "ClientCredentials_insert user m creds = bt_insert user m creds"

definition ClientCredentials_method :: "ClientCredentials \<Rightarrow> TenantId \<Rightarrow> AuthMethod option" where
  "ClientCredentials_method creds tenant = bt_get creds (TenantId_user tenant)"

definition TrustAll_method :: "TenantId \<Rightarrow> AuthMethod option" where
  "TrustAll_method tenant = Some Trust"

section \<open>The connection\<close>

record conn =
  reads :: "bytes option list"
  buffered :: bytes
  writes :: "(bool \<times> bytes) list"
  encrypted :: bool
  since_upgrade :: bytes

type_synonym 'a io_result = "(AcceptError + 'a) \<times> conn"

definition and_then :: "'a io_result \<Rightarrow> ('a \<Rightarrow> conn \<Rightarrow> 'b io_result) \<Rightarrow> 'b io_result" where
  "and_then r f = (case r of (Inl e, s) \<Rightarrow> (Inl e, s) | (Inr a, s) \<Rightarrow> f a s)"

definition write_all :: "bytes option \<Rightarrow> conn \<Rightarrow> unit io_result" where
  "write_all out s =
     (case out of
        None \<Rightarrow> (Inl AcceptPanic, s)
      | Some bs \<Rightarrow> (Inr (), s\<lparr>writes := writes s @ [(encrypted s, bs)]\<rparr>))"

text \<open>
  The loop of \<open>read_startup\<close> and \<open>read_frame\<close>: decode, and read more when a whole message is not
  there. When the reads given run out, the stream has ended.
\<close>

fun read_until :: "(bytes \<Rightarrow> FrameError + ('m option \<times> bytes)) \<Rightarrow> bytes option list \<Rightarrow> bytes \<Rightarrow> bytes
    \<Rightarrow> (AcceptError + 'm) \<times> bytes option list \<times> bytes \<times> bytes" where
  "read_until decode rs buf since =
     (case decode buf of
        Inl e \<Rightarrow> (Inl (AcceptFrame e), rs, buf, since)
      | Inr (Some m, rest) \<Rightarrow> (Inr m, rs, rest, since)
      | Inr (None, _) \<Rightarrow>
          (case rs of
             [] \<Rightarrow> (Inl ConnectionClosed, [], buf, since)
           | None # rs' \<Rightarrow> (Inl AcceptIo, rs', buf, since)
           | Some chunk # rs' \<Rightarrow>
               if chunk = [] then (Inl ConnectionClosed, rs', buf, since)
               else read_until decode rs' (buf @ chunk) (since @ chunk)))"

declare read_until.simps [simp del]

definition read_message :: "(bytes \<Rightarrow> FrameError + ('m option \<times> bytes)) \<Rightarrow> conn \<Rightarrow> 'm io_result" where
  "read_message decode s =
     (case read_until decode (reads s) (buffered s) (since_upgrade s) of
        (r, rs, buf, since) \<Rightarrow> (r, s\<lparr>reads := rs, buffered := buf, since_upgrade := since\<rparr>))"

definition read_startup :: "conn \<Rightarrow> StartupRequest io_result" where
  "read_startup s =
     and_then (read_message (\<lambda>buf. decode_startup_frame buf MAX_STARTUP_PACKET) s) (\<lambda>b s.
       (case decode_startup b of Inl e \<Rightarrow> (Inl (AcceptStartup e), s) | Inr r \<Rightarrow> (Inr r, s)))"

definition read_frame :: "conn \<Rightarrow> Frame io_result" where
  "read_frame s = read_message (\<lambda>buf. decode_frame buf MAX_AUTH_MESSAGE) s"

definition read_sasl_response :: "conn \<Rightarrow> bytes io_result" where
  "read_sasl_response s =
     and_then (read_frame s) (\<lambda>f s.
       if FrontendTag_try_from (tag f) \<noteq> Inr Password then (Inl (UnexpectedMessage (tag f)), s)
       else (Inr (body f), s))"

text \<open>\<open>scram\<close> in three parts: the offer, the answer to the initial response, the answer to the proof.\<close>

definition scram_proved :: "crypto \<Rightarrow> ScramExchange \<Rightarrow> bytes \<Rightarrow> conn \<Rightarrow> unit io_result" where
  "scram_proved C x answer s =
     (case server_final C answer x of
        (Inl e, _) \<Rightarrow> (Inl (AcceptScram e), s)
      | (Inr final, _) \<Rightarrow> write_all (encode_authentication_sasl_final final) s)"

definition scram_started :: "crypto \<Rightarrow> ScramExchange \<Rightarrow> bytes \<Rightarrow> conn \<Rightarrow> unit io_result" where
  "scram_started C x initial s =
     (case decode_sasl_initial_response initial of
        Inl e \<Rightarrow> (Inl (AcceptFrontend e), s)
      | Inr i \<Rightarrow>
          if mechanism i \<noteq> MECHANISM then (Inl (UnsupportedMechanism (mechanism i)), s)
          else (case server_first C (sasl_data i) x of
              (Inl e, _) \<Rightarrow> (Inl (AcceptScram e), s)
            | (Inr first, x) \<Rightarrow>
                and_then (write_all (encode_authentication_sasl_continue first) s) (\<lambda>_ s.
                and_then (read_sasl_response s) (scram_proved C x))))"

definition scram :: "crypto \<Rightarrow> bytes \<Rightarrow> ScramVerifier \<Rightarrow> conn \<Rightarrow> unit io_result" where
  "scram C nonce v s =
     and_then (write_all (encode_authentication_sasl [MECHANISM]) s) (\<lambda>_ s.
     and_then (read_sasl_response s) (scram_started C (ScramExchange_new v nonce)))"

definition authenticate :: "crypto \<Rightarrow> bytes \<Rightarrow> ScramVerifier \<Rightarrow> AuthMethod option \<Rightarrow> TenantId \<Rightarrow> conn \<Rightarrow> unit io_result" where
  "authenticate C nonce mock meth tenant s =
     (let by_scram = (\<lambda>v. case scram C nonce v s of
          (Inl (AcceptScram ProofMismatch), s') \<Rightarrow> (Inl (AuthenticationFailed (TenantId_user tenant)), s')
        | outcome \<Rightarrow> outcome) in
      case meth of
        Some Trust \<Rightarrow> (Inr (), s)
      | Some (ScramSha256 v) \<Rightarrow> by_scram v
      | None \<Rightarrow> by_scram mock)"

definition refuse :: "(AcceptError \<Rightarrow> string) \<Rightarrow> AcceptError \<Rightarrow> conn \<Rightarrow> 'a io_result" where
  "refuse display e s =
     (case AcceptError_response display e of
        None \<Rightarrow> (Inl e, s)
      | Some response \<Rightarrow>
          (case write_all (encode_error_response response) s of
             (Inl p, s') \<Rightarrow> (Inl p, s')
           | (Inr _, s') \<Rightarrow> (Inl e, s')))"

definition refuse_over_limit :: "(AcceptError \<Rightarrow> string) \<Rightarrow> nat \<Rightarrow> conn \<Rightarrow> 'a io_result" where
  "refuse_over_limit display m s = refuse display (TooManyClients m) (snd (read_startup s))"

record Negotiation =
  asked_tls :: bool
  asked_gssapi :: bool

definition first_time :: "Encryption \<Rightarrow> Negotiation \<Rightarrow> bool \<times> Negotiation" where
  "first_time e n =
     (case e of
        Tls \<Rightarrow> (\<not> asked_tls n, n\<lparr>asked_tls := True\<rparr>)
      | GssApi \<Rightarrow> (\<not> asked_gssapi n, n\<lparr>asked_gssapi := True\<rparr>))"

datatype Accepted = AcceptedSession TenantId StartupMessage | AcceptedCancel CancelKey

text \<open>What an accepted client is asked for depends on; the last two say what TLS this node has.\<close>

record acceptor =
  ac_crypto :: crypto
  ac_nonce :: bytes
  ac_mock :: ScramVerifier
  ac_method :: "TenantId \<Rightarrow> AuthMethod option"
  ac_display :: "AcceptError \<Rightarrow> string"
  ac_tls :: bool
  ac_handshake :: bool

definition accept_startup :: "acceptor \<Rightarrow> StartupMessage \<Rightarrow> conn \<Rightarrow> Accepted io_result" where
  "accept_startup A m s =
     (case TenantId_from_startup m of
        Inl e \<Rightarrow> refuse (ac_display A) (AcceptTenant e) s
      | Inr tenant \<Rightarrow>
          (case authenticate (ac_crypto A) (ac_nonce A) (ac_mock A) (ac_method A tenant) tenant s of
             (Inl e, s') \<Rightarrow> refuse (ac_display A) e s'
           | (Inr _, s') \<Rightarrow>
               and_then (write_all encode_authentication_ok s') (\<lambda>_ s. (Inr (AcceptedSession tenant m), s))))"

definition negotiate :: "acceptor \<Rightarrow> Encryption \<Rightarrow> conn \<Rightarrow> unit io_result" where
  "negotiate A e s =
     (if ac_tls A \<and> e = Tls then
        and_then (write_all (Some (encode_encryption_response Accepted)) s) (\<lambda>_ s.
          if buffered s \<noteq> [] then (Inl UnencryptedData, s)
          else if ac_handshake A then (Inr (), s\<lparr>encrypted := True, since_upgrade := []\<rparr>)
          else (Inl AcceptIo, s))
      else write_all (Some (encode_encryption_response Refused)) s)"

text \<open>One turn of the loop: it either ends the acceptance or goes on with what has been asked for.\<close>

definition ask_encryption :: "acceptor \<Rightarrow> Negotiation \<Rightarrow> Encryption \<Rightarrow> conn \<Rightarrow> Accepted io_result + Negotiation \<times> conn" where
  "ask_encryption A asked e s =
     (case first_time e asked of
        (False, asked') \<Rightarrow> Inl (refuse (ac_display A) (RepeatedEncryptionRequest e) s)
      | (True, asked') \<Rightarrow>
          (case negotiate A e s of
             (Inl err, s) \<Rightarrow> Inl (Inl err, s)
           | (Inr _, s) \<Rightarrow> Inr (asked', s)))"

definition accept_turn :: "acceptor \<Rightarrow> Negotiation \<Rightarrow> conn \<Rightarrow> Accepted io_result + Negotiation \<times> conn" where
  "accept_turn A asked s =
     (case read_startup s of
        (Inl e, s) \<Rightarrow> Inl (refuse (ac_display A) e s)
      | (Inr Ssl, s) \<Rightarrow> ask_encryption A asked Tls s
      | (Inr GssEnc, s) \<Rightarrow> ask_encryption A asked GssApi s
      | (Inr (Cancel key), s) \<Rightarrow> Inl (Inr (AcceptedCancel key), s)
      | (Inr (Startup m), s) \<Rightarrow> Inl (accept_startup A m s))"

definition unasked :: "Negotiation \<Rightarrow> nat" where
  "unasked n = (if asked_tls n then 0 else 1) + (if asked_gssapi n then 0 else 1)"

lemma first_time_less: "first_time e n = (True, n') \<Longrightarrow> unasked n' < unasked n"
  by (cases e) (auto simp: first_time_def unasked_def)

lemma accept_turn_Inr:
  assumes "accept_turn A asked s = Inr (asked', s')"
  shows "\<exists>q e s1. read_startup s = (Inr q, s1) \<and> first_time e asked = (True, asked') \<and> negotiate A e s1 = (Inr (), s')"
  using assms
  by (auto simp: accept_turn_def ask_encryption_def split: sum.splits prod.splits bool.splits StartupRequest.splits)

function accept_loop :: "acceptor \<Rightarrow> Negotiation \<Rightarrow> conn \<Rightarrow> Accepted io_result" where
  "accept_loop A asked s =
     (case accept_turn A asked s of
        Inl r \<Rightarrow> r
      | Inr (asked', s') \<Rightarrow> accept_loop A asked' s')"
  by pat_completeness auto
termination
  by (relation "measure (\<lambda>(_, asked, _). unasked asked)")
    (auto dest!: sym [of "Inr _"] accept_turn_Inr first_time_less)

declare accept_loop.simps [simp del]

definition accept :: "acceptor \<Rightarrow> conn \<Rightarrow> Accepted io_result" where
  "accept A s = accept_loop A \<lparr>asked_tls = False, asked_gssapi = False\<rparr> s"

text \<open>
  Accepting under the node's limit: the place is held by an accepted client and given back on every
  other way out.
\<close>

definition ClientLimit_accept :: "acceptor \<Rightarrow> conn \<Rightarrow> ClientLimit \<Rightarrow> Accepted io_result \<times> ClientLimit option" where
  "ClientLimit_accept A s l =
     (case admit l of
        (False, l') \<Rightarrow> (refuse_over_limit (ac_display A) (limit_max l) s, Some l')
      | (True, l') \<Rightarrow>
          (case accept A s of
             (Inr a, s') \<Rightarrow> ((Inr a, s'), Some l')
           | (Inl e, s') \<Rightarrow> ((Inl e, s'), drop_admitted l')))"

section \<open>What an operation does to the connection\<close>

text \<open>
  \<open>took p s s'\<close>: the bytes \<open>p\<close> were taken off the connection, the rest of what was read being
  still in the buffer. \<open>quiet s s'\<close>: whatever was written meanwhile, it was not the message that
  lets a client in.
\<close>

definition took :: "bytes \<Rightarrow> conn \<Rightarrow> conn \<Rightarrow> bool" where
  "took p s s' \<longleftrightarrow> encrypted s' = encrypted s
     \<and> (\<exists>chunks. since_upgrade s' = since_upgrade s @ chunks \<and> buffered s @ chunks = p @ buffered s')"

definition quiet :: "conn \<Rightarrow> conn \<Rightarrow> bool" where
  "quiet s s' \<longleftrightarrow> (\<exists>ws. writes s' = writes s @ ws \<and> (\<forall>(_, bs) \<in> set ws. encode_authentication_ok \<noteq> Some bs))"

named_theorems conn_intros

lemma took_refl [conn_intros, simp]: "took [] s s"
  by (simp add: took_def)

lemma took_trans: "took p s s1 \<Longrightarrow> took q s1 s2 \<Longrightarrow> took (p @ q) s s2"
  unfolding took_def by (metis append.assoc)

lemma quiet_refl [conn_intros, simp]: "quiet s s"
  by (simp add: quiet_def)

lemma quiet_trans: "quiet s s1 \<Longrightarrow> quiet s1 s2 \<Longrightarrow> quiet s s2"
  unfolding quiet_def by (metis (no_types, lifting) Un_iff append.assoc set_append)

definition took_some :: "conn \<Rightarrow> conn \<Rightarrow> bool" where
  "took_some s s' \<longleftrightarrow> (\<exists>p. took p s s')"

definition calm :: "conn \<Rightarrow> conn \<Rightarrow> bool" where
  "calm s s' \<longleftrightarrow> took_some s s' \<and> quiet s s'"

lemma calm_refl [conn_intros, simp]: "calm s s"
  unfolding calm_def took_some_def by (blast intro: took_refl quiet_refl)

lemma calm_trans: "calm s s1 \<Longrightarrow> calm s1 s2 \<Longrightarrow> calm s s2"
  unfolding calm_def took_some_def by (blast intro: took_trans quiet_trans)

lemma calm_and_then [conn_intros]:
  "calm s (snd r) \<Longrightarrow> (\<And>a s1. r = (Inr a, s1) \<Longrightarrow> calm s1 (snd (f a s1))) \<Longrightarrow> calm s (snd (and_then r f))"
  unfolding and_then_def by (auto split: prod.splits sum.splits intro: calm_trans)

lemma encode_frame_shape: "encode_frame t b = Some bs \<Longrightarrow> \<exists>n. bs = t # put_i32 n @ b"
  by (auto simp: encode_frame_def split: option.splits)

lemma encode_frame_inj:
  "encode_frame t b = Some bs \<Longrightarrow> encode_frame t' b' = Some bs \<Longrightarrow> t = t' \<and> b = b'"
  by (drule encode_frame_shape, drule encode_frame_shape) (clarify, simp)

lemma write_all_calm [conn_intros]:
  "out \<noteq> encode_authentication_ok \<or> out = None \<Longrightarrow> calm s (snd (write_all out s))"
  by (auto simp: write_all_def calm_def took_some_def took_def quiet_def split: option.splits)

lemma not_auth_ok [conn_intros]:
  "encode_authentication_sasl ms \<noteq> encode_authentication_ok \<or> encode_authentication_sasl ms = None"
  "encode_authentication_sasl_continue d \<noteq> encode_authentication_ok \<or> encode_authentication_sasl_continue d = None"
  "encode_authentication_sasl_final d \<noteq> encode_authentication_ok \<or> encode_authentication_sasl_final d = None"
  "encode_error_response e \<noteq> encode_authentication_ok \<or> encode_error_response e = None"
  "Some (encode_encryption_response r) \<noteq> encode_authentication_ok \<or> Some (encode_encryption_response r) = None"
proof -
  have *: "x \<noteq> encode_authentication_ok \<or> x = None" if "x = backend_frame t b"
    "BackendTag_byte t \<noteq> BackendTag_byte Authentication \<or> b \<noteq> put_i32 AUTHENTICATION_OK" for x t b
    using that encode_frame_inj [of "BackendTag_byte t" b _ "BackendTag_byte Authentication" "put_i32 AUTHENTICATION_OK"]
    unfolding encode_authentication_ok_def by (metis not_None_eq)
  have kinds: "put_i32 k @ d \<noteq> put_i32 AUTHENTICATION_OK" if "k \<in> {10, 11, 12}" for k d
  proof -
    have "put_i32 10 \<noteq> put_i32 0" "put_i32 11 \<noteq> put_i32 0" "put_i32 12 \<noteq> put_i32 0" by code_simp+
    with that show ?thesis by (auto simp: AUTHENTICATION_OK_def append_eq_conv_conj)
  qed
  show "encode_authentication_sasl ms \<noteq> encode_authentication_ok \<or> encode_authentication_sasl ms = None"
    by (rule *, rule encode_authentication_sasl_def)
      (simp add: authentication_sasl_body_def AUTHENTICATION_SASL_def kinds)
  show "encode_authentication_sasl_continue d \<noteq> encode_authentication_ok \<or> encode_authentication_sasl_continue d = None"
    by (rule *, simp only: encode_authentication_sasl_continue_def encode_authentication_sasl_data_def)
      (simp add: AUTHENTICATION_SASL_CONTINUE_def kinds)
  show "encode_authentication_sasl_final d \<noteq> encode_authentication_ok \<or> encode_authentication_sasl_final d = None"
    by (rule *, simp only: encode_authentication_sasl_final_def encode_authentication_sasl_data_def)
      (simp add: AUTHENTICATION_SASL_FINAL_def kinds)
  show "encode_error_response e \<noteq> encode_authentication_ok \<or> encode_error_response e = None"
    by (rule *, rule encode_error_response_def, rule disjI1) code_simp
  show "Some (encode_encryption_response r) \<noteq> encode_authentication_ok \<or> Some (encode_encryption_response r) = None"
    using length_put_i32 [of AUTHENTICATION_OK]
    by (simp add: encode_encryption_response_def encode_authentication_ok_def encode_frame_def
        del: length_put_i32 split: option.splits) fastforce
qed

lemma read_until_took:
  assumes "read_until decode rs buf since = (r, rs', buf', since')"
  shows "(\<exists>e. r = Inl e \<and> (\<exists>chunks. since' = since @ chunks \<and> buf @ chunks = buf'))
    \<or> (\<exists>m chunks buf1. r = Inr m \<and> since' = since @ chunks \<and> buf1 = buf @ chunks \<and> decode buf1 = Inr (Some m, buf'))"
  using assms
proof (induction decode rs buf since rule: read_until.induct)
  case (1 decode rs buf since)
  show ?case
  proof (cases "\<exists>rest chunk rs1. decode buf = Inr (None, rest) \<and> rs = Some chunk # rs1 \<and> chunk \<noteq> []")
    case True
    then obtain rest chunk rs1 where *: "decode buf = Inr (None, rest)" "rs = Some chunk # rs1" "chunk \<noteq> []" by blast
    with 1(2) have "read_until decode rs1 (buf @ chunk) (since @ chunk) = (r, rs', buf', since')"
      by (subst (asm) read_until.simps) simp
    from "1.IH" [OF *(1) refl refl *(2) refl *(3) this] show ?thesis by (metis append.assoc)
  next
    case False
    with 1(2) show ?thesis
      by (subst (asm) read_until.simps) (auto split: sum.splits option.splits list.splits if_splits)
  qed
qed

lemma read_message_calm [conn_intros]:
  assumes "\<And>buf m rest. decode buf = Inr (Some m, rest) \<Longrightarrow> \<exists>bs. encode m = Some bs \<and> buf = bs @ rest"
  shows "calm s (snd (read_message decode s))"
    and "read_message decode s = (Inr m, s') \<Longrightarrow> \<exists>bs. encode m = Some bs \<and> took bs s s'"
proof -
  obtain r rs buf since where *: "read_until decode (reads s) (buffered s) (since_upgrade s) = (r, rs, buf, since)"
    by (metis prod_cases4)
  note t = read_until_took [OF *]
  show "calm s (snd (read_message decode s))"
    using t assms
    by (fastforce simp: read_message_def * calm_def took_some_def took_def quiet_def)
  assume "read_message decode s = (Inr m, s')"
  with t assms show "\<exists>bs. encode m = Some bs \<and> took bs s s'"
    by (fastforce simp: read_message_def * took_def)
qed

lemmas decode_laws = frames.decode_written startups.decode_written

lemma read_frame_calm [conn_intros]: "calm s (snd (read_frame s))"
  unfolding read_frame_def by (rule read_message_calm(1)) (rule frames.decode_written)

lemma read_sasl_calm [conn_intros]: "calm s (snd (read_sasl_response s))"
  unfolding read_sasl_response_def by (rule conn_intros)+ (simp split: if_splits)

lemma read_startup_calm [conn_intros]: "calm s (snd (read_startup s))"
  unfolding read_startup_def
proof (rule calm_and_then)
  show "calm s (snd (read_message (\<lambda>buf. decode_startup_frame buf MAX_STARTUP_PACKET) s))"
    by (rule read_message_calm(1)) (rule startups.decode_written)
  show "calm s1 (snd (case decode_startup b of Inl e \<Rightarrow> (Inl (AcceptStartup e), s1) | Inr r \<Rightarrow> (Inr r, s1)))" for b s1
    by (cases "decode_startup b") simp_all
qed

lemma scram_calm [conn_intros]: "calm s (snd (scram C nonce v s))"
  unfolding scram_def scram_started_def scram_proved_def
  by (intro conn_intros) (auto intro!: conn_intros split: sum.splits prod.splits)

lemma authenticate_calm [conn_intros]: "calm s (snd (authenticate C nonce mock meth tenant s))"
proof -
  have "calm s (snd (case scram C nonce v s of
      (Inl (AcceptScram ProofMismatch), s') \<Rightarrow> (Inl (AuthenticationFailed (TenantId_user tenant)), s')
    | outcome \<Rightarrow> outcome))" for v
    using scram_calm [of s C nonce v]
    by (auto split: prod.splits sum.splits AcceptError.splits ScramError.splits)
  then show ?thesis by (simp add: authenticate_def Let_def split: option.splits AuthMethod.splits)
qed

lemma refuse_calm [conn_intros]: "calm s (snd (refuse display e s))"
  using write_all_calm [OF not_auth_ok(4), of s]
  by (auto simp: refuse_def split: option.splits prod.splits sum.splits) (metis snd_conv)+

section \<open>The two ways an acceptance ends\<close>

definition tidy :: "conn \<Rightarrow> bool" where
  "tidy s \<longleftrightarrow> (\<exists>used. since_upgrade s = used @ buffered s)"

lemma tidy_took: "tidy s \<Longrightarrow> took p s s' \<Longrightarrow> \<exists>used. since_upgrade s' = used @ p @ buffered s'"
  unfolding tidy_def took_def by auto

lemma tidy_calm: "tidy s \<Longrightarrow> calm s s' \<Longrightarrow> tidy s'"
  unfolding calm_def took_some_def using tidy_took by (metis append.assoc tidy_def)

lemma negotiate_keeps:
  assumes "negotiate A e s = (Inr u, s')"
  shows "quiet s s'" "tidy s \<Longrightarrow> tidy s'" "encrypted s' \<Longrightarrow> encrypted s \<or> ac_tls A \<and> ac_handshake A"
proof -
  have w: "calm s (snd (write_all (Some (encode_encryption_response r)) s))" for r
    by (intro conn_intros)
  have c: "quiet s s'" if "writes s' = writes s @ [(encrypted s, encode_encryption_response r)]" for r
    using that not_auth_ok(5) [of r] by (auto simp: quiet_def)
  show "quiet s s'" "tidy s \<Longrightarrow> tidy s'" "encrypted s' \<Longrightarrow> encrypted s \<or> ac_tls A \<and> ac_handshake A"
    using assms c by (auto simp: negotiate_def and_then_def write_all_def tidy_def split: if_splits)
qed

definition upgraded :: "acceptor \<Rightarrow> conn \<Rightarrow> conn \<Rightarrow> bool" where
  "upgraded A s s' \<longleftrightarrow> quiet s s' \<and> (tidy s \<longrightarrow> tidy s') \<and> (encrypted s' \<longrightarrow> encrypted s \<or> ac_tls A \<and> ac_handshake A)"

lemma upgraded_refl [simp]: "upgraded A s s"
  by (simp add: upgraded_def)

lemma upgraded_trans: "upgraded A s s1 \<Longrightarrow> upgraded A s1 s2 \<Longrightarrow> upgraded A s s2"
  unfolding upgraded_def by (blast intro: quiet_trans)

lemma calm_upgraded: "calm s s' \<Longrightarrow> upgraded A s s'"
  unfolding upgraded_def using tidy_calm by (auto simp: calm_def took_some_def took_def)

lemma accept_turn_upgraded:
  assumes "accept_turn A asked s = Inr (asked', s')"
  shows "upgraded A s s'"
proof -
  from accept_turn_Inr [OF assms] obtain q e s1
    where *: "read_startup s = (Inr q, s1)" "negotiate A e s1 = (Inr (), s')" by blast
  have "upgraded A s s1"
    using calm_upgraded [OF read_startup_calm [of s]] *(1) by simp
  moreover have "upgraded A s1 s'"
    using negotiate_keeps [OF *(2)] by (simp add: upgraded_def)
  ultimately show ?thesis by (rule upgraded_trans)
qed

text \<open>The turn an acceptance ends in.\<close>

lemma accept_loop_ends:
  "\<exists>asked' s1. upgraded A s s1 \<and> accept_turn A asked' s1 = Inl (accept_loop A asked s)"
proof (induction A asked s rule: accept_loop.induct)
  case (1 A asked s)
  show ?case
  proof (cases "accept_turn A asked s")
    case (Inl r)
    then show ?thesis by (subst accept_loop.simps) (use upgraded_refl in fastforce)
  next
    case (Inr n)
    then obtain asked' s' where n: "accept_turn A asked s = Inr (asked', s')" by (cases n) simp
    with "1.IH" [OF n refl] accept_turn_upgraded [OF n] show ?thesis
      by (subst accept_loop.simps) (auto intro: upgraded_trans)
  qed
qed

lemma accept_loop_session:
  assumes "accept_loop A asked s = (Inr (AcceptedSession tenant m), s')"
  shows "\<exists>s1 s2. upgraded A s s1 \<and> read_startup s1 = (Inr (Startup m), s2)
    \<and> accept_startup A m s2 = (Inr (AcceptedSession tenant m), s')"
proof -
  from accept_loop_ends [of A s asked] assms obtain asked' s1
    where *: "upgraded A s s1" "accept_turn A asked' s1 = Inl (Inr (AcceptedSession tenant m), s')" by auto
  have n: "refuse d e s2 \<noteq> (Inr a, s3)" for d e s2 s3 and a :: Accepted
    by (auto simp: refuse_def split: option.splits prod.splits sum.splits)
  have encrypt: "ask_encryption A asked' e s2 \<noteq> Inl (Inr a, s3)" for e s2 a s3
    using n by (auto simp: ask_encryption_def split: prod.splits bool.splits sum.splits)
  have m: "accept_startup A m' s2 = (Inr (AcceptedSession tenant m), s') \<Longrightarrow> m' = m" for m' s2
    using n by (auto simp: accept_startup_def and_then_def split: option.splits prod.splits sum.splits)
  obtain r s2 where r: "read_startup s1 = (r, s2)" by fastforce
  with * n encrypt m show ?thesis
    by (cases r; cases "projr r") (auto simp: accept_turn_def, blast)
qed

text \<open>What a client has shown that was let in: a proof made with the key behind the verifier.\<close>

definition proof_given :: "crypto \<Rightarrow> bytes \<Rightarrow> ScramVerifier \<Rightarrow> bool" where
  "proof_given C nonce v \<longleftrightarrow> (\<exists>client_nonce bare first without proof p.
     attribute without CHR ''r'' = Some (client_nonce @ nonce)
     \<and> base64_decode C proof = Some p \<and> length p = KEY_LEN
     \<and> sha256 C (xor_bytes p (hmac_sha256 C (stored_key v) (bare @ '','' @ first @ '','' @ without))) = stored_key v)"

lemma and_then_Inr: "and_then r f = (Inr b, s') \<longleftrightarrow> (\<exists>a s. r = (Inr a, s) \<and> f a s = (Inr b, s'))"
  by (cases r; cases "fst r") (auto simp: and_then_def)

lemma scram_started_Inr:
  assumes "scram_started C x0 initial s = (Inr u, s')"
  shows "\<exists>f first x m out x'. server_first C f x0 = (Inr first, x) \<and> server_final C m x = (Inr out, x')"
proof -
  from assms obtain f first x s1 where f: "server_first C f x0 = (Inr first, x)"
    and "and_then (write_all (encode_authentication_sasl_continue first) s1) (\<lambda>_ s.
      and_then (read_sasl_response s) (scram_proved C x)) = (Inr u, s')"
    by (auto simp: scram_started_def split: sum.splits if_splits prod.splits)
  then obtain m s2 where "scram_proved C x m s2 = (Inr u, s')" by (auto simp: and_then_Inr)
  then obtain out x' where "server_final C m x = (Inr out, x')"
    by (auto simp: scram_proved_def split: prod.splits sum.splits)
  with f show ?thesis by blast
qed

lemma scram_Inr:
  "scram C nonce v s = (Inr u, s') \<Longrightarrow>
    \<exists>f first x m out x'. server_first C f (ScramExchange_new v nonce) = (Inr first, x) \<and> server_final C m x = (Inr out, x')"
  by (simp only: scram_def and_then_Inr) (blast dest: scram_started_Inr)

lemma scram_proof:
  assumes "scram C nonce v s = (Inr u, s')"
  shows "proof_given C nonce v"
proof -
  from scram_Inr [OF assms] obtain f first x m out x'
    where "server_first C f (ScramExchange_new v nonce) = (Inr first, x)" "server_final C m x = (Inr out, x')" by blast
  from server_final_proof [OF this, of m] show ?thesis unfolding proof_given_def by blast
qed

lemma authenticate_Inr:
  assumes "authenticate C nonce mock meth tenant s = (Inr u, s')"
  shows "meth = Some Trust \<or> (\<exists>v. (meth = Some (ScramSha256 v) \<or> meth = None \<and> v = mock) \<and> proof_given C nonce v)"
proof -
  have *: "proof_given C nonce v" if "(case scram C nonce v s of
      (Inl (AcceptScram ProofMismatch), s') \<Rightarrow> (Inl (AuthenticationFailed (TenantId_user tenant)), s')
    | outcome \<Rightarrow> outcome) = (Inr u, s')" for v
    using that by (auto split: prod.splits sum.splits AcceptError.splits ScramError.splits intro: scram_proof)
  show ?thesis
  proof (cases meth)
    case None
    with assms * [of mock] show ?thesis by (simp add: authenticate_def)
  next
    case (Some k)
    with assms * show ?thesis by (cases k) (simp_all add: authenticate_def)
  qed
qed

lemma accept_startup_session:
  assumes "accept_startup A m s = (Inr (AcceptedSession tenant m'), s')"
  shows "\<exists>s1 bs. TenantId_from_startup m = Inr tenant
    \<and> authenticate (ac_crypto A) (ac_nonce A) (ac_mock A) (ac_method A tenant) tenant s = (Inr (), s1)
    \<and> encode_authentication_ok = Some bs \<and> s' = s1\<lparr>writes := writes s1 @ [(encrypted s1, bs)]\<rparr>"
proof -
  have n: "refuse d e s2 \<noteq> (Inr a, s3)" for d e s2 s3 and a :: Accepted
    by (auto simp: refuse_def split: option.splits prod.splits sum.splits)
  with assms show ?thesis
    by (auto simp: accept_startup_def and_then_def write_all_def split: option.splits prod.splits sum.splits)
qed

text \<open>An acceptance that fails with an error that has an answer ends by writing that answer.\<close>

definition told :: "acceptor \<Rightarrow> AcceptError \<Rightarrow> conn \<Rightarrow> bool" where
  "told A err s \<longleftrightarrow> (\<forall>response. AcceptError_response (ac_display A) err = Some response \<longrightarrow>
     (\<exists>ws bs. writes s = ws @ [(encrypted s, bs)] \<and> encode_error_response response = Some bs))"

lemma refuse_told:
  assumes "refuse (ac_display A) e s = ((Inl err, s') :: 'a io_result)"
  shows "calm s s' \<and> told A err s'"
proof -
  have "calm s (snd (refuse (ac_display A) e s :: 'a io_result))" by (rule conn_intros)
  with assms show ?thesis
    by (auto simp: refuse_def write_all_def told_def split: option.splits)
qed

lemma accept_startup_told:
  assumes "accept_startup A m s = (Inl err, s')"
  shows "calm s s' \<and> told A err s'"
proof (cases "TenantId_from_startup m")
  case (Inl e)
  with assms refuse_told show ?thesis by (simp add: accept_startup_def)
next
  case (Inr tenant)
  let ?r = "authenticate (ac_crypto A) (ac_nonce A) (ac_mock A) (ac_method A tenant) tenant s"
  have c: "calm s (snd ?r)" by (rule conn_intros)
  show ?thesis
  proof (cases "fst ?r")
    case (Inl e)
    with assms Inr have r: "refuse (ac_display A) e (snd ?r) = ((Inl err, s') :: Accepted io_result)"
      by (auto simp: accept_startup_def split: prod.splits)
    from refuse_told [OF this] c show ?thesis by (blast intro: calm_trans)
  next
    case (Inr u)
    with assms c \<open>TenantId_from_startup m = _\<close> show ?thesis
      by (auto simp: accept_startup_def and_then_def write_all_def told_def split: prod.splits option.splits)
  qed
qed

lemma negotiate_told:
  assumes "negotiate A e s = (Inl err, s')"
  shows "quiet s s' \<and> told A err s'"
proof -
  have c: "quiet s s'" if "writes s' = writes s @ [(encrypted s, encode_encryption_response r)]" for r
    using that not_auth_ok(5) [of r] by (auto simp: quiet_def)
  show ?thesis
    using assms c by (auto simp: negotiate_def and_then_def write_all_def told_def split: if_splits)
qed

lemma accept_turn_told:
  assumes "accept_turn A asked s = Inl (Inl err, s')"
  shows "quiet s s' \<and> told A err s'"
proof -
  have c: "calm s (snd (read_startup s))" by (rule conn_intros)
  obtain r s1 where r: "read_startup s = (r, s1)" by fastforce
  have e: "quiet s1 s' \<and> told A err s'" if "ask_encryption A asked k s1 = Inl (Inl err, s')" for k
    using that refuse_told negotiate_told
    by (fastforce simp: ask_encryption_def calm_def split: prod.splits bool.splits sum.splits)
  have "quiet s1 s' \<and> told A err s'"
    using assms r e accept_startup_told refuse_told
    by (cases r; cases "projr r") (fastforce simp: accept_turn_def calm_def)+
  with c r show ?thesis by (auto simp: calm_def intro: quiet_trans)
qed

text \<open>
  A client that asks for TLS, names its user and proves its password, and the acceptor that knows
  it; used to evaluate the properties below.
\<close>

definition demo_client :: scram_client where
  "demo_client = \<lparr>sc_flag = ''n'', sc_user = ''ann'', sc_nonce = ''abc'', sc_password = ''pw''\<rparr>"

definition demo_verifier :: ScramVerifier where
  "demo_verifier = ScramVerifier_from_password demo_crypto ''pw'' ''salt'' 3"

definition demo_acceptor :: acceptor where
  "demo_acceptor = \<lparr>ac_crypto = demo_crypto, ac_nonce = ''xyz'',
     ac_mock = ScramVerifier_from_password demo_crypto ''?'' ''mock'' 3,
     ac_method = ClientCredentials_method (ClientCredentials_insert ''ann'' (ScramSha256 demo_verifier) ClientCredentials_new),
     ac_display = (\<lambda>_. ''error''), ac_tls = True, ac_handshake = True\<rparr>"

definition demo_first :: bytes where
  "demo_first = projr (fst (server_first demo_crypto (client_first demo_client) (ScramExchange_new demo_verifier ''xyz'')))"

definition demo_conn :: "bytes \<Rightarrow> conn" where
  "demo_conn user = (let packet = (\<lambda>r. map_option id (encode_startup r));
       sasl = (\<lambda>b. encode_frame CHR ''p'' b) in
     \<lparr>reads = [packet Ssl, packet (Startup \<lparr>version = V3_0, parameters = [(''user'', user)]\<rparr>),
        sasl (MECHANISM @ NUL # put_i32 (int (length (client_first demo_client))) @ client_first demo_client),
        sasl (client_final demo_crypto demo_client ''salt'' 3 ''abcxyz'' demo_first)],
      buffered = [], writes = [], encrypted = False, since_upgrade = []\<rparr>)"

lemma accept_method:
  assumes "accept A s = (Inr (AcceptedSession tenant m), s')"
  shows "ac_method A tenant = Some Trust
    \<or> (\<exists>v. (ac_method A tenant = Some (ScramSha256 v) \<or> ac_method A tenant = None \<and> v = ac_mock A)
         \<and> proof_given (ac_crypto A) (ac_nonce A) v)"
proof -
  from accept_loop_session [OF assms [unfolded accept_def]] obtain s2
    where "accept_startup A m s2 = (Inr (AcceptedSession tenant m), s')" by blast
  from accept_startup_session [OF this] obtain s3 where
    "authenticate (ac_crypto A) (ac_nonce A) (ac_mock A) (ac_method A tenant) tenant s2 = (Inr (), s3)" by blast
  from authenticate_Inr [OF this] show ?thesis .
qed



text \<open>
  C14: A client that is turned away is told so and never told otherwise. When an acceptance fails,
  the client was not sent the message that lets it in; and unless it has gone away, the connection
  broke, or it broke the rules of encryption, the last thing it was sent is the error that says why,
  encrypted when the connection is.
\<close>

theorem refusal_told:
  assumes "accept A s = (Inl err, s')"
  shows "quiet s s' \<and> (\<forall>response. AcceptError_response (ac_display A) err = Some response \<longrightarrow>
    (\<exists>ws bs. writes s' = ws @ [(encrypted s', bs)] \<and> encode_error_response response = Some bs))"
proof -
  from accept_loop_ends [of A s] assms obtain asked s1
    where "upgraded A s s1" "accept_turn A asked s1 = Inl (Inl err, s')" unfolding accept_def by metis
  with accept_turn_told [OF this(2)] show ?thesis
    unfolding upgraded_def told_def by (blast intro: quiet_trans)
qed

theorem refusal_told_witness:
  "\<exists>s'. accept demo_acceptor (demo_conn ''bob'') = (Inl (AuthenticationFailed ''bob''), s') \<and> quiet (demo_conn ''bob'') s'
    \<and> (\<exists>ws bs. writes s' = ws @ [(encrypted s', bs)]
         \<and> encode_error_response (ErrorResponse_fatal INVALID_PASSWORD ''error'') = Some bs)"
proof -
  obtain s' where a: "accept demo_acceptor (demo_conn ''bob'') = (Inl (AuthenticationFailed ''bob''), s')"
  proof -
    have "fst (accept demo_acceptor (demo_conn ''bob'')) = Inl (AuthenticationFailed ''bob'')" by code_simp
    then show ?thesis using that by (metis prod.collapse)
  qed
  have "AcceptError_response (ac_display demo_acceptor) (AuthenticationFailed ''bob'')
    = Some (ErrorResponse_fatal INVALID_PASSWORD ''error'')" by (simp add: demo_acceptor_def)
  with refusal_told [OF a] a show ?thesis by blast
qed

text \<open>
  C13: Nothing sent in the clear enters an encrypted session. However the bytes arrive, the startup
  message a session was accepted with, what is left for the session to read, and everything in
  between lie in what was read since the connection was encrypted; a connection ends encrypted only
  when this node has a certificate and the handshake was completed.
\<close>

theorem no_plaintext_in_session:
  assumes "accept A s = (Inr (AcceptedSession tenant m), s')" "buffered s = []" "\<not> encrypted s"
  shows "\<exists>before body packet between. since_upgrade s' = before @ packet @ between @ buffered s'
    \<and> write_startup MAX_STARTUP_PACKET body = Some packet \<and> decode_startup body = Inr (Startup m)
    \<and> (encrypted s' \<longrightarrow> ac_tls A \<and> ac_handshake A)"
proof -
  from accept_loop_session [OF assms(1) [unfolded accept_def]] obtain s1 s2
    where s: "upgraded A s s1" "read_startup s1 = (Inr (Startup m), s2)"
      "accept_startup A m s2 = (Inr (AcceptedSession tenant m), s')" by blast
  from s(1) assms(2,3) have s1: "tidy s1" "encrypted s1 \<longrightarrow> ac_tls A \<and> ac_handshake A"
    by (auto simp: upgraded_def tidy_def)
  from s(2) obtain body where "read_message (\<lambda>buf. decode_startup_frame buf MAX_STARTUP_PACKET) s1 = (Inr body, s2)"
    and body: "decode_startup body = Inr (Startup m)"
    by (auto simp: read_startup_def and_then_Inr split: sum.splits) (metis sum.exhaust)
  from read_message_calm(2) [where encode = "write_startup MAX_STARTUP_PACKET", OF _ this(1)] obtain packet
    where p: "write_startup MAX_STARTUP_PACKET body = Some packet" "took packet s1 s2"
    using startups.decode_written by blast
  from accept_startup_session [OF s(3)] obtain s3 bs where
    "authenticate (ac_crypto A) (ac_nonce A) (ac_mock A) (ac_method A tenant) tenant s2 = (Inr (), s3)"
    and s': "s' = s3\<lparr>writes := writes s3 @ [(encrypted s3, bs)]\<rparr>" by blast
  with authenticate_calm [of s2] have "calm s2 s3" by (metis snd_conv)
  then obtain between where "took between s2 s3" by (auto simp: calm_def took_some_def)
  with p(2) have t: "took (packet @ between) s1 s3" by (rule took_trans)
  with s1(2) have "encrypted s' \<longrightarrow> ac_tls A \<and> ac_handshake A" by (simp add: took_def s')
  with tidy_took [OF s1(1) t] p(1) body show ?thesis by (auto simp: s')
qed

theorem no_plaintext_in_session_witness:
  "\<exists>s'. accept (demo_acceptor\<lparr>ac_method := TrustAll_method\<rparr>) (demo_conn ''ann'') =
      (Inr (AcceptedSession (TenantId ''ann'' ''ann'') \<lparr>version = V3_0, parameters = [(''user'', ''ann'')]\<rparr>), s')
    \<and> (\<exists>before body packet between. since_upgrade s' = before @ packet @ between @ buffered s'
         \<and> write_startup MAX_STARTUP_PACKET body = Some packet)"
proof -
  let ?r = "accept (demo_acceptor\<lparr>ac_method := TrustAll_method\<rparr>) (demo_conn ''ann'')"
  have "fst ?r = Inr (AcceptedSession (TenantId ''ann'' ''ann'') \<lparr>version = V3_0, parameters = [(''user'', ''ann'')]\<rparr>)"
    by code_simp
  then have r: "?r = (Inr (AcceptedSession (TenantId ''ann'' ''ann'') \<lparr>version = V3_0, parameters = [(''user'', ''ann'')]\<rparr>), snd ?r)"
    by (metis prod.collapse)
  have "buffered (demo_conn ''ann'') = []" "\<not> encrypted (demo_conn ''ann'')" by (simp_all add: demo_conn_def Let_def)
  from no_plaintext_in_session [OF r this] r show ?thesis by blast
qed

text \<open>
  A place is taken exactly by a client that was accepted, and never above the limit: every refusal,
  over the limit or not, leaves the count as it was.
\<close>

lemma accept_counts_exactly:
  "snd (ClientLimit_accept A s l) = Some (l\<lparr>limit_live := limit_live l
     + (if isl (fst (fst (ClientLimit_accept A s l))) then 0 else 1)\<rparr>)
   \<and> (limit_live l \<ge> limit_max l \<longrightarrow> isl (fst (fst (ClientLimit_accept A s l))))"
proof (cases "limit_live l \<ge> limit_max l")
  case True
  have "isl (fst (refuse d e s1 :: Accepted io_result))" for d e s1
    by (simp add: refuse_def split: option.split prod.split sum.split)
  with True show ?thesis by (simp add: ClientLimit_accept_def admit_def refuse_over_limit_def)
next
  case False
  then show ?thesis
    by (cases "accept A s"; cases "fst (accept A s)") (simp_all add: ClientLimit_accept_def admit_def drop_admitted_def)
qed

end
