(* ===== verification/Tls.thy ===== *)
theory Tls
  imports Server
begin

text \<open>
  TLS as the node configures it (\<open>crates/core/src/tls.rs\<close>): which certificate verifier each mode of a
  server connection gets, which name the certificate is checked against, and what makes the
  configuration of the client side. Reading PEM, building the \<open>rustls\<close> configurations and verifying a
  chain are the library \<open>tls_lib\<close>; the handshake itself is its answer to the chain the server presents.
  The stream that is either plain or encrypted is the flag \<open>encrypted\<close> of the theory Session and the
  first result of \<open>connect\<close>.
\<close>

section \<open>The library\<close>

text \<open>An error of the library is the text it displays.\<close>

record ('cert, 'key, 'roots, 'name) tls_lib =
  tl_certificates :: "bytes \<Rightarrow> string + 'cert list"
  tl_private_key :: "bytes \<Rightarrow> string + 'key"
  tl_single_cert :: "'cert list \<Rightarrow> 'key \<Rightarrow> string + unit"
  tl_protocol_versions :: "string + unit"
  tl_no_items :: string
  tl_no_roots :: 'roots
  tl_add_root :: "'cert \<Rightarrow> 'roots \<Rightarrow> string + 'roots"
  tl_build_webpki :: "'roots \<Rightarrow> string + unit"
  tl_server_name :: "string \<Rightarrow> string + 'name"
  tl_signed_by :: "'roots \<Rightarrow> 'cert list \<Rightarrow> bool"
  tl_webpki :: "'roots \<Rightarrow> 'cert list \<Rightarrow> 'name \<Rightarrow> bool"
  tl_handshake :: "'cert list \<Rightarrow> bool"

datatype TlsError =
    TlsCertificate string
  | NoCertificate
  | TlsPrivateKey string
  | TlsUnusable string
  | RootCertificate string
  | NoRootCertificate
  | TlsVerifier string

fun TlsError_display :: "TlsError \<Rightarrow> string" where
  "TlsError_display (TlsCertificate e) = ''cannot read a PEM certificate chain: '' @ e"
| "TlsError_display NoCertificate = ''holds no certificate''"
| "TlsError_display (TlsPrivateKey e) = ''cannot read a PEM private key: '' @ e"
| "TlsError_display (TlsUnusable e) = ''the certificate and the key do not make a TLS configuration: '' @ e"
| "TlsError_display (RootCertificate e) = ''cannot read a PEM root certificate: '' @ e"
| "TlsError_display NoRootCertificate = ''holds no root certificate to verify the server with''"
| "TlsError_display (TlsVerifier e) = ''the root certificate does not make a verifier: '' @ e"

section \<open>The client side\<close>

text \<open>The configuration of the acceptor is the chain and the key it was made of.\<close>

definition ClientTls_from_pem :: "('cert, 'key, 'roots, 'name, 'z) tls_lib_scheme \<Rightarrow> bytes \<Rightarrow> bytes \<Rightarrow> TlsError + 'cert list \<times> 'key" where
  "ClientTls_from_pem T certificates private_key =
     (case tl_certificates T certificates of
        Inl e \<Rightarrow> Inl (TlsCertificate e)
      | Inr chain \<Rightarrow>
          if chain = [] then Inl NoCertificate
          else (case tl_private_key T private_key of
              Inl e \<Rightarrow> Inl (TlsPrivateKey e)
            | Inr key \<Rightarrow>
                (case tl_protocol_versions T of
                   Inl e \<Rightarrow> Inl (TlsUnusable e)
                 | Inr _ \<Rightarrow>
                     (case tl_single_cert T chain key of Inl e \<Rightarrow> Inl (TlsUnusable e) | Inr _ \<Rightarrow> Inr (chain, key)))))"

section \<open>The server side\<close>

datatype 'roots verifier = AnyCertificate | SignedByKnownAuthority 'roots | WebPki 'roots

record 'roots ServerTls =
  tls_mode :: SslMode
  tls_connector :: "'roots verifier option"

definition ServerTls_disabled :: "'roots ServerTls" where
  "ServerTls_disabled = \<lparr>tls_mode = SslDisable, tls_connector = None\<rparr>"

fun add_roots :: "('cert, 'key, 'roots, 'name, 'z) tls_lib_scheme \<Rightarrow> 'cert list \<Rightarrow> 'roots \<Rightarrow> TlsError + 'roots" where
  "add_roots T [] roots = Inr roots"
| "add_roots T (c # cs) roots =
     (case tl_add_root T c roots of Inl e \<Rightarrow> Inl (TlsUnusable e) | Inr roots \<Rightarrow> add_roots T cs roots)"

definition root_store :: "('cert, 'key, 'roots, 'name, 'z) tls_lib_scheme \<Rightarrow> bytes option \<Rightarrow> TlsError + 'roots" where
  "root_store T root_certificates =
     (case root_certificates of
        None \<Rightarrow> Inl NoRootCertificate
      | Some pem \<Rightarrow>
          (case tl_certificates T pem of
             Inl e \<Rightarrow> Inl (RootCertificate e)
           | Inr certificates \<Rightarrow>
               if certificates = [] then Inl (RootCertificate (tl_no_items T))
               else add_roots T certificates (tl_no_roots T)))"

definition mode_verifier :: "('cert, 'key, 'roots, 'name, 'z) tls_lib_scheme \<Rightarrow> SslMode \<Rightarrow> bytes option
    \<Rightarrow> TlsError + 'roots verifier option" where
  "mode_verifier T mode root_certificates =
     (case mode of
        SslDisable \<Rightarrow> Inr None
      | SslPrefer \<Rightarrow> Inr (Some AnyCertificate)
      | SslRequire \<Rightarrow> Inr (Some AnyCertificate)
      | SslVerifyCa \<Rightarrow>
          (case root_store T root_certificates of
             Inl e \<Rightarrow> Inl e | Inr roots \<Rightarrow> Inr (Some (SignedByKnownAuthority roots)))
      | SslVerifyFull \<Rightarrow>
          (case root_store T root_certificates of
             Inl e \<Rightarrow> Inl e
           | Inr roots \<Rightarrow>
               (case tl_build_webpki T roots of Inl e \<Rightarrow> Inl (TlsVerifier e) | Inr _ \<Rightarrow> Inr (Some (WebPki roots)))))"

definition ServerTls_new :: "('cert, 'key, 'roots, 'name, 'z) tls_lib_scheme \<Rightarrow> SslMode \<Rightarrow> bytes option \<Rightarrow> TlsError + 'roots ServerTls" where
  "ServerTls_new T mode root_certificates =
     (case mode_verifier T mode root_certificates of
        Inl e \<Rightarrow> Inl e
      | Inr None \<Rightarrow> Inr \<lparr>tls_mode = mode, tls_connector = None\<rparr>
      | Inr (Some v) \<Rightarrow>
          (case tl_protocol_versions T of
             Inl e \<Rightarrow> Inl (TlsUnusable e)
           | Inr _ \<Rightarrow> Inr \<lparr>tls_mode = mode, tls_connector = Some v\<rparr>))"

definition UNVERIFIED_NAME :: string where "UNVERIFIED_NAME = ''unverified.invalid''"

text \<open>The name for a host; no name is the panic of the literal \<open>UNVERIFIED_NAME\<close> or an error, which both end the attempt.\<close>

definition server_name :: "('cert, 'key, 'roots, 'name, 'z) tls_lib_scheme \<Rightarrow> 'roots ServerTls \<Rightarrow> string \<Rightarrow> 'name option" where
  "server_name T tls host =
     (case tl_server_name T host of
        Inr name \<Rightarrow> Some name
      | Inl _ \<Rightarrow>
          if SslMode_verifies (tls_mode tls) then None
          else (case tl_server_name T UNVERIFIED_NAME of Inr name \<Rightarrow> Some name | Inl _ \<Rightarrow> None))"

fun verify_server_cert :: "('cert, 'key, 'roots, 'name, 'z) tls_lib_scheme \<Rightarrow> 'roots verifier \<Rightarrow> 'cert list \<Rightarrow> 'name \<Rightarrow> bool" where
  "verify_server_cert T AnyCertificate chain name = True"
| "verify_server_cert T (SignedByKnownAuthority roots) chain name = tl_signed_by T roots chain"
| "verify_server_cert T (WebPki roots) chain name = tl_webpki T roots chain name"

text \<open>
  Whether the handshake with a server that presents \<open>chain\<close> ends with an encrypted stream. The
  signatures of the handshake are checked by the library in every mode.
\<close>

definition ServerTls_encrypt :: "('cert, 'key, 'roots, 'name, 'z) tls_lib_scheme \<Rightarrow> 'roots ServerTls \<Rightarrow> 'cert list \<Rightarrow> string \<Rightarrow> bool" where
  "ServerTls_encrypt T tls chain host \<longleftrightarrow>
     (case tls_connector tls of
        None \<Rightarrow> False
      | Some v \<Rightarrow>
          (case server_name T tls host of
             None \<Rightarrow> False
           | Some name \<Rightarrow> verify_server_cert T v chain name \<and> tl_handshake T chain))"

section \<open>What each mode checks\<close>

lemma ServerTls_new_mode: "ServerTls_new T mode pem = Inr tls \<Longrightarrow> tls_mode tls = mode \<and> mode_verifier T mode pem = Inr (tls_connector tls)"
  by (auto simp: ServerTls_new_def split: sum.splits option.splits)

lemma root_store_None [simp]: "root_store T None = Inl NoRootCertificate"
  by (simp add: root_store_def)

lemma verifier_roots:
  assumes "mode_verifier T mode pem = Inr v" "SslMode_verifies mode"
  shows "\<exists>certificate roots. pem = Some certificate \<and> root_store T pem = Inr roots
    \<and> v = Some (if mode = SslVerifyFull then WebPki roots else SignedByKnownAuthority roots)"
  using assms by (cases pem)
    (auto simp: mode_verifier_def SslMode_verifies_def split: SslMode.splits sum.splits)

text \<open>
  C19: Encryption that is demanded is had, and checked as far as the mode says. With a mode that
  demands encryption a connection is handed out only encrypted, and the server has heard nothing in
  the clear but the request for it. With \<open>verify-ca\<close> the chain it presented is signed by an authority
  of the configured root certificates, with \<open>verify-full\<close> it is valid under them for the very host of
  the address; without root certificates no such connection is configured.
\<close>

theorem verified_server:
  assumes "ServerTls_new T mode pem = Inr tls" "demands_encryption mode"
    and "connect L reached addr c app (tls_mode tls) (ServerTls_encrypt T tls chain) reply arrivals = Inr (enc, s)"
  shows "enc \<and> reply = Some CHR ''S''
    \<and> snd (request_encryption mode (ServerTls_encrypt T tls chain) (host_of addr) reply) = [SentStartup Ssl]
    \<and> (SslMode_verifies mode \<longrightarrow> (\<exists>roots. root_store T pem = Inr roots
         \<and> (if mode = SslVerifyFull
            then \<exists>name. tl_server_name T (host_of addr) = Inr name \<and> tl_webpki T roots chain name
            else tl_signed_by T roots chain)))"
proof -
  note new = ServerTls_new_mode [OF assms(1)]
  from connect_encrypted [OF assms(2) assms(3) [unfolded conjunct1 [OF new]]] have
    enc: "enc" "reply = Some CHR ''S''" "ServerTls_encrypt T tls chain (host_of addr)"
      "snd (request_encryption mode (ServerTls_encrypt T tls chain) (host_of addr) reply) = [SentStartup Ssl]"
    by auto
  have "\<exists>roots. root_store T pem = Inr roots \<and> (if mode = SslVerifyFull
      then \<exists>name. tl_server_name T (host_of addr) = Inr name \<and> tl_webpki T roots chain name
      else tl_signed_by T roots chain)" if "SslMode_verifies mode"
    using verifier_roots [OF conjunct2 [OF new] that] enc(3) new that
    by (auto simp: ServerTls_encrypt_def server_name_def split: option.splits sum.splits)
  with enc show ?thesis by blast
qed

text \<open>A library whose certificates are names signed by themselves.\<close>

definition demo_tls :: "(string, string, string list, string) tls_lib" where
  "demo_tls = \<lparr>tl_certificates = (\<lambda>pem. Inr [pem]), tl_private_key = Inr, tl_single_cert = (\<lambda>_ _. Inr ()),
     tl_protocol_versions = Inr (), tl_no_items = ''no items'', tl_no_roots = [], tl_add_root = (\<lambda>c roots. Inr (c # roots)),
     tl_build_webpki = (\<lambda>_. Inr ()), tl_server_name = (\<lambda>h. if h = [] then Inl ''empty'' else Inr h),
     tl_signed_by = (\<lambda>roots chain. set chain \<subseteq> set roots),
     tl_webpki = (\<lambda>roots chain name. set chain \<subseteq> set roots \<and> hd chain = name), tl_handshake = (\<lambda>_. True)\<rparr>"

theorem verified_server_witness:
  "\<exists>tls s. ServerTls_new demo_tls SslVerifyFull (Some ''db'') = Inr tls
    \<and> connect demo_lib True ''db:5433'' demo_login (ApplicationName_new ''proxy'') (tls_mode tls)
      (ServerTls_encrypt demo_tls tls [''db'']) (Some CHR ''S'') (map Arrived (demo_startup @ [MReadyForQuery CHR ''I''])) = Inr (True, s)
    \<and> (\<exists>roots name. root_store demo_tls (Some ''db'') = Inr roots \<and> tl_server_name demo_tls ''db'' = Inr name
         \<and> tl_webpki demo_tls roots [''db''] name)"
proof -
  let ?tls = "\<lparr>tls_mode = SslVerifyFull, tls_connector = Some (WebPki [''db''])\<rparr>"
  let ?r = "connect demo_lib True ''db:5433'' demo_login (ApplicationName_new ''proxy'') (tls_mode ?tls)
      (ServerTls_encrypt demo_tls ?tls [''db'']) (Some CHR ''S'') (map Arrived (demo_startup @ [MReadyForQuery CHR ''I'']))"
  have new: "ServerTls_new demo_tls SslVerifyFull (Some ''db'') = Inr ?tls" by code_simp
  have "\<not> isl ?r" by code_simp
  then obtain enc s where r: "?r = Inr (enc, s)" by (cases ?r) auto
  have h: "host_of ''db:5433'' = ''db''" by code_simp
  have "demands_encryption SslVerifyFull" "SslMode_verifies SslVerifyFull"
    by (simp_all add: demands_encryption_def SslMode_verifies_def)
  with verified_server [OF new _ r] new r h show ?thesis by auto
qed

end
