(* ===== verification/Config.thy ===== *)
theory Config
  imports Policy Session Tls
begin

text \<open>
  The configuration of a node and of a cluster (\<open>crates/node/src/config.rs\<close>). The text is parsed by
  \<open>toml\<close> and \<open>serde\<close>; the model starts at the parsed sections, which are the records below. Reading
  a file, the TLS library and the debug text of a duration are arguments. A \<open>nonzero\<close> of zero
  panics, a missing result.
\<close>

section \<open>Sections\<close>

text \<open>A syntax error carries the text of the TOML library.\<close>

datatype ConfigError = Syntax string | Invalid string string

definition invalid :: "string \<Rightarrow> string \<Rightarrow> ConfigError + 'a" where
  "invalid path message = Inl (Invalid path message)"

datatype PoolMode = PoolSession | PoolTransaction

fun PoolMode_as_str :: "PoolMode \<Rightarrow> string" where
  "PoolMode_as_str PoolSession = ''session''"
| "PoolMode_as_str PoolTransaction = ''transaction''"

datatype Role = RoleProxy | RoleCoordinator

record MonitorSection =
  mon_user :: string
  mon_database :: string

record ServerTlsSection =
  stls_mode :: SslMode
  stls_root_cert :: "string option"

record NodeSection =
  nd_role :: Role
  nd_listen :: string
  nd_coordinator :: string
  nd_max_client_connections :: nat
  nd_metrics_listen :: "string option"
  nd_tls :: "(string \<times> string) option"
  nd_server_tls :: "ServerTlsSection option"

record NodeConfig =
  nc_node :: NodeSection
  nc_client :: "(string, string) btree_map"
  nc_server :: "(string, string) btree_map"
  nc_monitor :: "MonitorSection option"

record ClusterSection =
  cs_pool_mode :: PoolMode
  cs_grant_ttl :: nat
  cs_arbitration_interval :: nat

record InstanceSection =
  ins_name :: string
  ins_weight :: nat

record TenantSection =
  ts_instances :: "string list"
  ts_min :: nat
  ts_max :: "nat option"
  ts_weight :: nat

record ClusterConfig =
  cc_cluster :: ClusterSection
  cc_instance :: "InstanceSection list"
  cc_tenant :: "(string, TenantSection) btree_map"

definition default_monitor_database :: string where "default_monitor_database = ''postgres''"
definition default_weight :: nat where "default_weight = 1"
definition DEFAULT_PORT :: nat where "DEFAULT_PORT = 5432"

section \<open>Blank names\<close>

text \<open>
  \<open>s.trim().is_empty()\<close>: every character of the text is white space, in the sense of the Unicode
  property, whose characters have one, two or three bytes.
\<close>

definition is_white1 :: "byte \<Rightarrow> bool" where
  "is_white1 a \<longleftrightarrow> in_range 0x09 0x0D a \<or> a = CHR '' ''"

definition is_white2 :: "byte \<Rightarrow> byte \<Rightarrow> bool" where
  "is_white2 a b \<longleftrightarrow> code_of a = 0xC2 \<and> (code_of b = 0x85 \<or> code_of b = 0xA0)"

definition is_white3 :: "byte \<Rightarrow> byte \<Rightarrow> byte \<Rightarrow> bool" where
  "is_white3 a b c \<longleftrightarrow>
     code_of a = 0xE1 \<and> code_of b = 0x9A \<and> code_of c = 0x80
     \<or> code_of a = 0xE2 \<and> code_of b = 0x80
         \<and> (in_range 0x80 0x8A c \<or> code_of c = 0xA8 \<or> code_of c = 0xA9 \<or> code_of c = 0xAF)
     \<or> code_of a = 0xE2 \<and> code_of b = 0x81 \<and> code_of c = 0x9F
     \<or> code_of a = 0xE3 \<and> code_of b = 0x80 \<and> code_of c = 0x80"

fun is_blank :: "bytes \<Rightarrow> bool" where
  "is_blank [] = True"
| "is_blank (a # bs) \<longleftrightarrow>
     is_white1 a \<and> is_blank bs
     \<or> (case bs of b # cs \<Rightarrow>
          is_white2 a b \<and> is_blank cs
          \<or> (case cs of c # ds \<Rightarrow> is_white3 a b c \<and> is_blank ds | [] \<Rightarrow> False)
        | [] \<Rightarrow> False)"

section \<open>The node\<close>

fun VerifierError_display :: "VerifierError \<Rightarrow> string" where
  "VerifierError_display NotMechanism =
     ''not a '' @ MECHANISM @ '' verifier; expected '' @ CHR 0x60 # MECHANISM
     @ ''$<iterations>:<salt>$<stored key>:<server key>'' @ [CHR 0x60]"
| "VerifierError_display (VerifierMalformed what) = ''malformed '' @ MECHANISM @ '' verifier: '' @ what"
| "VerifierError_display BadIterations =
     ''the iteration count of a '' @ MECHANISM @ '' verifier must be a positive number''"

abbreviation quoted_name :: "string \<Rightarrow> string" where
  "quoted_name s \<equiv> CHR 0x22 # s @ [CHR 0x22]"

fun credentials_loop :: "crypto \<Rightarrow> (string \<times> string) list \<Rightarrow> ClientCredentials \<Rightarrow> ConfigError + ClientCredentials" where
  "credentials_loop C [] creds = Inr creds"
| "credentials_loop C ((user, t) # rest) creds =
     (case ScramVerifier_from_str C t of
        Inl e \<Rightarrow> invalid (''client.'' @ quoted_name user @ ''.verifier'') (VerifierError_display e)
      | Inr v \<Rightarrow> credentials_loop C rest (ClientCredentials_insert user (ScramSha256 v) creds))"

definition client_credentials :: "crypto \<Rightarrow> NodeConfig \<Rightarrow> ConfigError + ClientCredentials" where
  "client_credentials C n = credentials_loop C (nc_client n) ClientCredentials_new"

definition NodeConfig_password :: "NodeConfig \<Rightarrow> string \<Rightarrow> string option" where
  "NodeConfig_password n user = bt_get (nc_server n) user"

definition server_credentials :: "NodeConfig \<Rightarrow> TenantId \<Rightarrow> ServerCredentials" where
  "server_credentials n tenant =
     \<lparr>sc_login = TenantId_user tenant, sc_database = TenantId_database tenant,
      sc_secret = NodeConfig_password n (TenantId_user tenant)\<rparr>"

definition monitor_credentials :: "NodeConfig \<Rightarrow> ServerCredentials option" where
  "monitor_credentials n =
     (case nc_monitor n of
        None \<Rightarrow> None
      | Some m \<Rightarrow> Some \<lparr>sc_login = mon_user m, sc_database = mon_database m,
                      sc_secret = NodeConfig_password n (mon_user m)\<rparr>)"

definition client_limit :: "NodeConfig \<Rightarrow> ClientLimit" where
  "client_limit n = ClientLimit_new (nd_max_client_connections (nc_node n))"

text \<open>
  TLS on both sides, with the library of the theory Tls; \<open>files\<close> is the file system, whose error
  text makes the message.
\<close>

definition read_pem :: "(string \<Rightarrow> string + bytes) \<Rightarrow> string \<Rightarrow> string \<Rightarrow> ConfigError + bytes" where
  "read_pem files path key =
     (case files path of
        Inl e \<Rightarrow> invalid key (''cannot read '' @ CHR 0x60 # path @ CHR 0x60 # '': '' @ e)
      | Inr b \<Rightarrow> Inr b)"

fun client_tls_key :: "TlsError \<Rightarrow> string" where
  "client_tls_key (TlsCertificate _) = ''node.tls.cert''"
| "client_tls_key NoCertificate = ''node.tls.cert''"
| "client_tls_key (TlsPrivateKey _) = ''node.tls.key''"
| "client_tls_key _ = ''node.tls''"

definition client_tls :: "(string \<Rightarrow> string + bytes) \<Rightarrow> ('cert, 'key, 'roots, 'name, 'z) tls_lib_scheme \<Rightarrow> NodeConfig
    \<Rightarrow> ConfigError + ('cert list \<times> 'key) option" where
  "client_tls files T n =
     (case nd_tls (nc_node n) of
        None \<Rightarrow> Inr None
      | Some (cert, key) \<Rightarrow>
          (case read_pem files cert ''node.tls.cert'' of
             Inl e \<Rightarrow> Inl e
           | Inr certificates \<Rightarrow>
               (case read_pem files key ''node.tls.key'' of
                  Inl e \<Rightarrow> Inl e
                | Inr private_key \<Rightarrow>
                    (case ClientTls_from_pem T certificates private_key of
                       Inl e \<Rightarrow> invalid (client_tls_key e) (TlsError_display e)
                     | Inr tls \<Rightarrow> Inr (Some tls)))))"

fun server_tls_key :: "TlsError \<Rightarrow> string" where
  "server_tls_key (RootCertificate _) = ''node.server_tls.root_cert''"
| "server_tls_key NoRootCertificate = ''node.server_tls.root_cert''"
| "server_tls_key (TlsVerifier _) = ''node.server_tls.root_cert''"
| "server_tls_key _ = ''node.server_tls''"

definition new_server_tls :: "('cert, 'key, 'roots, 'name, 'z) tls_lib_scheme \<Rightarrow> SslMode \<Rightarrow> bytes option \<Rightarrow> ConfigError + 'roots ServerTls" where
  "new_server_tls T mode root =
     (case ServerTls_new T mode root of
        Inl e \<Rightarrow> invalid (server_tls_key e) (TlsError_display e)
      | Inr tls \<Rightarrow> Inr tls)"

definition server_tls :: "(string \<Rightarrow> string + bytes) \<Rightarrow> ('cert, 'key, 'roots, 'name, 'z) tls_lib_scheme \<Rightarrow> NodeConfig
    \<Rightarrow> ConfigError + 'roots ServerTls" where
  "server_tls files T n =
     (case nd_server_tls (nc_node n) of
        None \<Rightarrow> new_server_tls T SslMode_default None
      | Some section \<Rightarrow>
          (let mode = stls_mode section; key = ''node.server_tls.root_cert'' in
           case stls_root_cert section of
             Some path \<Rightarrow>
               if SslMode_verifies mode then
                 (case read_pem files path key of Inl e \<Rightarrow> Inl e | Inr root \<Rightarrow> new_server_tls T mode (Some root))
               else invalid key (CHR 0x60 # SslMode_display mode
                 @ CHR 0x60 # '' never reads a root certificate; use verify-ca or verify-full'')
           | None \<Rightarrow>
               if SslMode_verifies mode
               then invalid key (CHR 0x60 # SslMode_display mode
                 @ CHR 0x60 # '' verifies the certificate and needs a root certificate'')
               else new_server_tls T mode None))"

definition NodeConfig_validate :: "crypto \<Rightarrow> NodeConfig \<Rightarrow> ConfigError + unit" where
  "NodeConfig_validate C n =
     (if nd_max_client_connections (nc_node n) = 0
      then invalid ''node.max_client_connections'' ''must be at least 1''
      else if is_blank (nd_coordinator (nc_node n))
      then invalid ''node.coordinator'' ''must name one coordinator entry point''
      else if list_ex is_blank (bt_keys (nc_client n))
      then invalid ''client'' ''a client section must name the user it holds a verifier for''
      else case client_credentials C n of
        Inl e \<Rightarrow> Inl e
      | Inr _ \<Rightarrow>
          if list_ex is_blank (bt_keys (nc_server n))
          then invalid ''server'' ''a server section must name the user it holds a password for''
          else case nc_monitor n of
            None \<Rightarrow> Inr ()
          | Some m \<Rightarrow> if is_blank (mon_user m) then invalid ''monitor.user'' ''must not be empty'' else Inr ())"

text \<open>
  \<open>parse\<close>: \<open>toml\<close> is \<open>toml::from_str\<close>, with the tables of a file as its sections, and answers the text of
  its error.
\<close>

definition NodeConfig_parse :: "(bytes \<Rightarrow> string + NodeConfig) \<Rightarrow> crypto \<Rightarrow> bytes \<Rightarrow> ConfigError + NodeConfig" where
  "NodeConfig_parse toml C source =
     (case toml source of
        Inl e \<Rightarrow> Inl (Syntax e)
      | Inr config \<Rightarrow> (case NodeConfig_validate C config of Inl e \<Rightarrow> Inl e | Inr _ \<Rightarrow> Inr config))"

section \<open>The cluster\<close>

definition nonzero :: "nat \<Rightarrow> nat option" where
  "nonzero weight = (if weight = 0 then None else Some weight)"

definition InstanceSection_id :: "InstanceSection \<Rightarrow> InstanceId" where
  "InstanceSection_id s = InstanceId (ins_name s)"

definition InstanceSection_address :: "InstanceSection \<Rightarrow> string" where
  "InstanceSection_address s =
     (case rsplit_colon (ins_name s) of
        Some (_, port) \<Rightarrow> if parse_u16 port \<noteq> None then ins_name s else ins_name s @ '':'' @ decimal DEFAULT_PORT
      | None \<Rightarrow> ins_name s @ '':'' @ decimal DEFAULT_PORT)"

fun fold_option :: "('a \<Rightarrow> 'b \<Rightarrow> 'b option) \<Rightarrow> 'a list \<Rightarrow> 'b \<Rightarrow> 'b option" where
  "fold_option f [] b = Some b"
| "fold_option f (a # as) b = (case f a b of None \<Rightarrow> None | Some b' \<Rightarrow> fold_option f as b')"

definition add_instance_section :: "InstanceSection \<Rightarrow> Policies \<Rightarrow> Policies option" where
  "add_instance_section s p = map_option (Policies_instance p (InstanceSection_id s)) (nonzero (ins_weight s))"

definition add_tenant_section :: "string \<times> TenantSection \<Rightarrow> Policies \<Rightarrow> Policies option" where
  "add_tenant_section t p =
     (case t of (key, s) \<Rightarrow>
        map_option (\<lambda>weight. Policies_tenant p key
           \<lparr>rule_instances = map InstanceId (ts_instances s),
            rule_policy = \<lparr>policy_min = ts_min s,
              policy_max = (case ts_max s of Some m \<Rightarrow> m | None \<Rightarrow> u32_max), policy_weight = weight\<rparr>\<rparr>)
          (nonzero (ts_weight s)))"

definition ClusterConfig_policies :: "ClusterConfig \<Rightarrow> Policies option" where
  "ClusterConfig_policies c =
     (case fold_option add_instance_section (cc_instance c) Policies_new of
        None \<Rightarrow> None
      | Some p \<Rightarrow> fold_option add_tenant_section (cc_tenant c) p)"

definition validate_cluster_section :: "(nat \<Rightarrow> string) \<Rightarrow> ClusterSection \<Rightarrow> ConfigError + unit" where
  "validate_cluster_section debug c =
     (if cs_grant_ttl c = 0 then invalid ''cluster.grant_ttl'' ''must be longer than 0''
      else if cs_arbitration_interval c = 0 then invalid ''cluster.arbitration_interval'' ''must be longer than 0''
      else if cs_arbitration_interval c \<ge> cs_grant_ttl c
      then invalid ''cluster.arbitration_interval''
        (''must be shorter than cluster.grant_ttl ('' @ debug (cs_grant_ttl c) @ '')'')
      else Inr ())"

fun instances_loop :: "nat \<Rightarrow> InstanceSection list \<Rightarrow> string set \<Rightarrow> ConfigError + string set" where
  "instances_loop index [] names = Inr names"
| "instances_loop index (s # rest) names =
     (let path = ''instance['' @ decimal index @ '']'' in
      if is_blank (ins_name s) then invalid (path @ ''.name'') ''must not be empty''
      else if ins_weight s = 0 then invalid (path @ ''.weight'') ''must be at least 1''
      else if ins_name s \<in> names
      then invalid (path @ ''.name'') (''instance '' @ CHR 0x60 # ins_name s @ CHR 0x60 # '' is declared more than once'')
      else instances_loop (Suc index) rest (insert (ins_name s) names))"

definition validate_instances :: "ClusterConfig \<Rightarrow> ConfigError + string set" where
  "validate_instances c =
     (if cc_instance c = [] then invalid ''instance'' ''at least one [[instance]] is required''
      else instances_loop 0 (cc_instance c) {})"

fun tenant_instances_loop :: "string \<Rightarrow> string set \<Rightarrow> string list \<Rightarrow> string set \<Rightarrow> ConfigError + unit" where
  "tenant_instances_loop path names [] seen = Inr ()"
| "tenant_instances_loop path names (i # rest) seen =
     (if i \<notin> names
      then invalid (path @ ''.instances'') (''instance '' @ CHR 0x60 # i @ CHR 0x60 # '' is not declared in [[instance]]'')
      else if i \<in> seen
      then invalid (path @ ''.instances'') (''instance '' @ CHR 0x60 # i @ CHR 0x60 # '' is listed more than once'')
      else tenant_instances_loop path names rest (insert i seen))"

definition validate_tenant :: "string \<Rightarrow> TenantSection \<Rightarrow> string set \<Rightarrow> ConfigError + unit" where
  "validate_tenant name t names =
     (let path = ''tenant.'' @ quoted_name name in
      if name = [] then invalid ''tenant'' ''tenant name must not be empty''
      else if ts_instances t = [] then invalid (path @ ''.instances'') ''must list at least one instance''
      else case tenant_instances_loop path names (ts_instances t) {} of
        Inl e \<Rightarrow> Inl e
      | Inr _ \<Rightarrow>
          if ts_weight t = 0 then invalid (path @ ''.weight'') ''must be at least 1''
          else case ts_max t of
            Some m \<Rightarrow>
              if ts_min t > m
              then invalid (path @ ''.min'')
                (''min ('' @ decimal (ts_min t) @ '') must not exceed max ('' @ decimal m @ '')'')
              else Inr ()
          | None \<Rightarrow> Inr ())"

fun tenants_loop :: "(string \<times> TenantSection) list \<Rightarrow> string set \<Rightarrow> ConfigError + unit" where
  "tenants_loop [] names = Inr ()"
| "tenants_loop ((name, t) # rest) names =
     (case validate_tenant name t names of Inl e \<Rightarrow> Inl e | Inr _ \<Rightarrow> tenants_loop rest names)"

definition ClusterConfig_validate :: "(nat \<Rightarrow> string) \<Rightarrow> ClusterConfig \<Rightarrow> ConfigError + unit" where
  "ClusterConfig_validate debug c =
     (case validate_cluster_section debug (cc_cluster c) of
        Inl e \<Rightarrow> Inl e
      | Inr _ \<Rightarrow>
          (case validate_instances c of
             Inl e \<Rightarrow> Inl e
           | Inr names \<Rightarrow> tenants_loop (cc_tenant c) names))"

definition ClusterConfig_parse :: "(bytes \<Rightarrow> string + ClusterConfig) \<Rightarrow> (nat \<Rightarrow> string) \<Rightarrow> bytes \<Rightarrow> ConfigError + ClusterConfig" where
  "ClusterConfig_parse toml debug source =
     (case toml source of
        Inl e \<Rightarrow> Inl (Syntax e)
      | Inr config \<Rightarrow> (case ClusterConfig_validate debug config of Inl e \<Rightarrow> Inl e | Inr _ \<Rightarrow> Inr config))"

section \<open>What is accepted\<close>

lemma server_tls_mode:
  "server_tls files T n = Inr tls \<Longrightarrow>
    tls_mode tls = (case nd_server_tls (nc_node n) of None \<Rightarrow> SslMode_default | Some section \<Rightarrow> stls_mode section)"
  by (auto simp: server_tls_def new_server_tls_def invalid_def Let_def ServerTls_new_mode
      split: option.splits if_splits sum.splits)

lemma instances_loop_Inr:
  "instances_loop k ss names = Inr names' \<longleftrightarrow>
     (\<forall>s \<in> set ss. \<not> is_blank (ins_name s) \<and> ins_weight s \<noteq> 0 \<and> ins_name s \<notin> names)
     \<and> distinct (map ins_name ss) \<and> names' = names \<union> ins_name ` set ss"
proof (induction k ss names rule: instances_loop.induct)
  case (2 index s rest names)
  then show ?case by (auto simp: Let_def invalid_def image_iff)
qed auto

lemma tenant_instances_loop_Inr:
  "tenant_instances_loop path names is seen = Inr u \<longleftrightarrow> set is \<subseteq> names \<and> set is \<inter> seen = {} \<and> distinct is"
  by (induction path names "is" seen rule: tenant_instances_loop.induct) (auto simp: invalid_def)

definition tenant_section_ok :: "string set \<Rightarrow> string \<Rightarrow> TenantSection \<Rightarrow> bool" where
  "tenant_section_ok names name t \<longleftrightarrow>
     name \<noteq> [] \<and> ts_instances t \<noteq> [] \<and> set (ts_instances t) \<subseteq> names \<and> distinct (ts_instances t)
     \<and> ts_weight t \<noteq> 0 \<and> (\<forall>m. ts_max t = Some m \<longrightarrow> ts_min t \<le> m)"

lemma validate_tenant_Inr: "validate_tenant name t names = Inr u \<longleftrightarrow> tenant_section_ok names name t"
  using tenant_instances_loop_Inr [of "''tenant.'' @ quoted_name name" names "ts_instances t" "{}"]
  by (cases "tenant_instances_loop (''tenant.'' @ quoted_name name) names (ts_instances t) {}")
    (auto simp: validate_tenant_def tenant_section_ok_def invalid_def Let_def not_less split: option.splits)

lemma tenants_loop_Inr: "tenants_loop ts names = Inr u \<longleftrightarrow> (\<forall>(name, t) \<in> set ts. tenant_section_ok names name t)"
proof (induction ts names rule: tenants_loop.induct)
  case (2 name t rest names)
  with validate_tenant_Inr [of name t names "()"] show ?case by (cases "validate_tenant name t names") auto
qed simp

definition instances_ok :: "InstanceSection list \<Rightarrow> bool" where
  "instances_ok ss \<longleftrightarrow> ss \<noteq> [] \<and> (\<forall>s \<in> set ss. \<not> is_blank (ins_name s) \<and> ins_weight s \<noteq> 0) \<and> distinct (map ins_name ss)"

lemma cluster_accepted:
  "ClusterConfig_validate debug c = Inr () \<longleftrightarrow>
     0 < cs_arbitration_interval (cc_cluster c) \<and> cs_arbitration_interval (cc_cluster c) < cs_grant_ttl (cc_cluster c)
     \<and> instances_ok (cc_instance c)
     \<and> (\<forall>(name, t) \<in> set (cc_tenant c). tenant_section_ok (ins_name ` set (cc_instance c)) name t)"
proof -
  have "validate_cluster_section debug (cc_cluster c) = Inr () \<longleftrightarrow>
      0 < cs_arbitration_interval (cc_cluster c) \<and> cs_arbitration_interval (cc_cluster c) < cs_grant_ttl (cc_cluster c)"
    by (auto simp: validate_cluster_section_def invalid_def)
  moreover have "validate_instances c = Inr names \<longleftrightarrow> instances_ok (cc_instance c) \<and> names = ins_name ` set (cc_instance c)" for names
    by (auto simp: validate_instances_def instances_ok_def instances_loop_Inr invalid_def)
  moreover have "ClusterConfig_validate debug c = Inr () \<longleftrightarrow> validate_cluster_section debug (cc_cluster c) = Inr ()
      \<and> (\<exists>names. validate_instances c = Inr names \<and> tenants_loop (cc_tenant c) names = Inr ())"
    by (auto simp: ClusterConfig_validate_def split: sum.splits)
  ultimately show ?thesis by (simp add: tenants_loop_Inr)
qed

lemma instance_policies:
  assumes "\<forall>s \<in> set ss. ins_weight s \<noteq> 0" "distinct (map ins_name ss)"
  shows "\<exists>p'. fold_option add_instance_section ss p = Some p' \<and> policies_rules p' = policies_rules p
    \<and> (\<forall>i. bt_get (policies_weights p') i = (case find (\<lambda>s. InstanceSection_id s = i) ss of
         Some s \<Rightarrow> Some (ins_weight s) | None \<Rightarrow> bt_get (policies_weights p) i))"
  using assms
proof (induction ss arbitrary: p)
  case (Cons s ss)
  let ?p = "Policies_instance p (InstanceSection_id s) (ins_weight s)"
  from Cons.IH [of ?p] Cons.prems obtain p' where
    p': "fold_option add_instance_section ss ?p = Some p'" "policies_rules p' = policies_rules ?p"
      "\<And>i. bt_get (policies_weights p') i = (case find (\<lambda>s. InstanceSection_id s = i) ss of
         Some s \<Rightarrow> Some (ins_weight s) | None \<Rightarrow> bt_get (policies_weights ?p) i)" by auto
  have "find (\<lambda>s'. InstanceSection_id s' = InstanceSection_id s) ss = None"
    using Cons.prems(2) by (auto simp: find_None_iff InstanceSection_id_def image_iff)
  moreover have "fold_option add_instance_section (s # ss) p = Some p'"
    using p'(1) Cons.prems(1) by (simp add: add_instance_section_def nonzero_def)
  ultimately show ?case
    using p'(2,3) by (intro exI [of _ p']) (auto simp: Policies_instance_def split: option.splits)
qed simp

definition rule_of :: "TenantSection \<Rightarrow> TenantRule" where
  "rule_of s = \<lparr>rule_instances = map InstanceId (ts_instances s),
     rule_policy = \<lparr>policy_min = ts_min s,
       policy_max = (case ts_max s of Some m \<Rightarrow> m | None \<Rightarrow> u32_max), policy_weight = ts_weight s\<rparr>\<rparr>"

lemma tenant_policies:
  assumes "\<forall>(name, t) \<in> set ts. ts_weight t \<noteq> 0" "distinct (map fst ts)"
  shows "\<exists>p'. fold_option add_tenant_section ts p = Some p' \<and> policies_weights p' = policies_weights p
    \<and> (\<forall>k. Policies_rule p' k = (case map_of ts k of Some t \<Rightarrow> Some (rule_of t) | None \<Rightarrow> Policies_rule p k))"
  using assms
proof (induction ts arbitrary: p)
  case (Cons x ts)
  obtain key s where x: "x = (key, s)" by (cases x)
  let ?p = "Policies_tenant p key (rule_of s)"
  from Cons.IH [of ?p] Cons.prems x obtain p' where
    p': "fold_option add_tenant_section ts ?p = Some p'" "policies_weights p' = policies_weights ?p"
      "\<And>k. Policies_rule p' k = (case map_of ts k of Some t \<Rightarrow> Some (rule_of t) | None \<Rightarrow> Policies_rule ?p k)" by auto
  have "map_of ts key = None" using Cons.prems(2) x by (auto simp: map_of_eq_None_iff)
  moreover have "fold_option add_tenant_section (x # ts) p = Some p'"
    using p'(1) Cons.prems(1) by (simp add: x add_tenant_section_def nonzero_def rule_of_def)
  ultimately show ?case
    using p'(2,3) by (intro exI [of _ p']) (auto simp: x Policies_tenant_def Policies_rule_def split: option.splits)
qed simp

lemma config_policies:
  assumes "ClusterConfig_validate debug c = Inr ()" "bt_wf (cc_tenant c)"
  shows "\<exists>p. ClusterConfig_policies c = Some p
    \<and> (\<forall>key. Policies_rule p key = map_option rule_of (bt_get (cc_tenant c) key))
    \<and> (\<forall>i. bt_get (policies_weights p) i = map_option ins_weight (find (\<lambda>s. InstanceSection_id s = i) (cc_instance c)))"
proof -
  note ok = assms(1) [unfolded cluster_accepted]
  have new: "policies_rules Policies_new = []" "bt_get (policies_weights Policies_new) i = None" for i
    by (simp_all add: Policies_new_def)
  from instance_policies [of "cc_instance c" Policies_new] ok obtain p1 where
    p1: "fold_option add_instance_section (cc_instance c) Policies_new = Some p1" "policies_rules p1 = []"
      "\<And>i. bt_get (policies_weights p1) i = map_option ins_weight (find (\<lambda>s. InstanceSection_id s = i) (cc_instance c))"
    by (auto simp: instances_ok_def new map_option_case cong: option.case_cong)
  have "\<forall>(name, t) \<in> set (cc_tenant c). ts_weight t \<noteq> 0" using ok by (auto simp: tenant_section_ok_def)
  from tenant_policies [OF this bt_wf_distinct [OF assms(2)], of p1] obtain p where
    p: "fold_option add_tenant_section (cc_tenant c) p1 = Some p" "policies_weights p = policies_weights p1"
      "\<And>k. Policies_rule p k = (case map_of (cc_tenant c) k of Some t \<Rightarrow> Some (rule_of t) | None \<Rightarrow> Policies_rule p1 k)"
    by blast
  have "Policies_rule p1 k = None" for k by (simp add: Policies_rule_def p1(2))
  then have "Policies_rule p k = map_option rule_of (bt_get (cc_tenant c) k)" for k
    unfolding p(3) bt_get_def by (cases "map_of (cc_tenant c) k") simp_all
  then show ?thesis using p(1,2) p1(1,3) by (auto simp: ClusterConfig_policies_def)
qed

text \<open>A declared instance has the weight of its section.\<close>

lemma config_weight:
  assumes "instances_ok ss" "n \<in> ins_name ` set ss"
    and "\<And>i. bt_get (policies_weights p) i = map_option ins_weight (find (\<lambda>s. InstanceSection_id s = i) ss)"
  shows "\<exists>s \<in> set ss. InstanceId n = InstanceSection_id s \<and> instance_weight p (InstanceId n) = ins_weight s
    \<and> 0 < instance_weight p (InstanceId n)"
proof -
  from assms(2) obtain s where s: "find (\<lambda>s. InstanceSection_id s = InstanceId n) ss = Some s"
    by (fastforce simp: InstanceSection_id_def find_None_iff dest: option.exhaust)
  then have "s \<in> set ss" "InstanceSection_id s = InstanceId n" by (auto simp: find_Some_iff)
  with s assms(1,3) show ?thesis
    by (intro bexI [of _ s]) (auto simp: instance_weight_def bt_get_or_def instances_ok_def)
qed

lemma resolve_rule: "Policies_resolve p tenant = Some rule \<Longrightarrow> \<exists>key. Policies_rule p key = Some rule"
  by (auto simp: Policies_resolve_def Policies_rule_def split: option.splits)

lemma route_defined:
  assumes "Policies_resolve p tenant = Some rule" "(\<Sum>i \<leftarrow> rule_instances rule. instance_weight p i) \<le> u32_max"
    and "rule_instances rule \<noteq> []" "\<forall>i \<in> set (rule_instances rule). 0 < instance_weight p i"
  shows "\<exists>i \<in> set (rule_instances rule). Policies_route p tenant roll = Some i"
proof -
  let ?total = "\<Sum>i \<leftarrow> rule_instances rule. instance_weight p i"
  have pos: "0 < ?total" using assms(3,4) by (cases "rule_instances rule") auto
  have "?total mod (u32_max + 1) = ?total" using assms(2) by simp
  with assms(1) pos have "Policies_route p tenant roll = route_loop (instance_weight p) (rule_instances rule) (roll ?total mod ?total)"
    by (simp add: Policies_route_def Let_def del: sum_list_eq_0_iff)
  with route_loop_Some [of "roll ?total mod ?total" "instance_weight p" "rule_instances rule"] pos show ?thesis
    by (simp del: sum_list_eq_0_iff)
qed


definition demo_cluster :: ClusterConfig where
  "demo_cluster = \<lparr>cc_cluster = \<lparr>cs_pool_mode = PoolTransaction, cs_grant_ttl = 10, cs_arbitration_interval = 1\<rparr>,
     cc_instance = [\<lparr>ins_name = ''db1'', ins_weight = 2\<rparr>, \<lparr>ins_name = ''db2:5433'', ins_weight = 1\<rparr>],
     cc_tenant = [(''*'', \<lparr>ts_instances = [''db2:5433'', ''db1''], ts_min = 1, ts_max = None, ts_weight = 1\<rparr>)]\<rparr>"


lemma credentials_loop_Inr:
  "distinct (map fst us) \<Longrightarrow> credentials_loop C us creds = Inr creds' \<Longrightarrow>
    (\<forall>(user, t) \<in> set us. \<exists>v. ScramVerifier_from_str C t = Inr v)
    \<and> (\<forall>user. bt_get creds' user = (case map_of us user of
         Some t \<Rightarrow> Some (ScramSha256 (projr (ScramVerifier_from_str C t))) | None \<Rightarrow> bt_get creds user))"
proof (induction C us creds rule: credentials_loop.induct)
  case (2 C user t rest creds)
  from 2(3) obtain v where v: "ScramVerifier_from_str C t = Inr v"
    "credentials_loop C rest (ClientCredentials_insert user (ScramSha256 v) creds) = Inr creds'"
    by (auto simp: invalid_def split: sum.splits)
  have "map_of rest user = None" using 2(2) by (auto simp: map_of_eq_None_iff)
  with 2(1) [OF v(1) _ v(2)] 2(2) v(1) show ?case
    by (auto simp: ClientCredentials_insert_def split: option.splits)
qed simp

text \<open>
  The credentials of an accepted node configuration are built, with the verifier of each client
  section and no other: what authenticates a user is never trust.
\<close>

lemma configured_methods:
  assumes "NodeConfig_validate C n = Inr ()" "bt_wf (nc_client n)"
  shows "\<exists>creds. client_credentials C n = Inr creds
    \<and> (\<forall>tenant. case bt_get (nc_client n) (TenantId_user tenant) of
         Some t \<Rightarrow> (\<exists>v. ScramVerifier_from_str C t = Inr v \<and> ClientCredentials_method creds tenant = Some (ScramSha256 v))
       | None \<Rightarrow> ClientCredentials_method creds tenant = None)"
proof -
  from assms(1) obtain creds where creds: "client_credentials C n = Inr creds"
    by (auto simp: NodeConfig_validate_def invalid_def split: if_splits sum.splits)
  from credentials_loop_Inr [OF bt_wf_distinct [OF assms(2)] creds [unfolded client_credentials_def]]
  have "\<And>user t. bt_get (nc_client n) user = Some t \<Longrightarrow> \<exists>v. ScramVerifier_from_str C t = Inr v \<and> bt_get creds user = Some (ScramSha256 v)"
    "\<And>user. bt_get (nc_client n) user = None \<Longrightarrow> bt_get creds user = None"
    by (auto simp: bt_get_def ClientCredentials_new_def dest!: map_of_SomeD)
  with creds show ?thesis
    by (intro exI [of _ creds]) (auto simp: ClientCredentials_method_def split: option.split)
qed

lemma configured_proof:
  assumes "NodeConfig_validate C n = Inr ()" "bt_wf (nc_client n)" "client_credentials C n = Inr creds"
    and "ac_crypto A = C" "ac_method A = ClientCredentials_method creds"
    and "accept A s = (Inr (AcceptedSession tenant m), s')"
  shows "case bt_get (nc_client n) (TenantId_user tenant) of
      Some t \<Rightarrow> (\<exists>v. ScramVerifier_from_str C t = Inr v \<and> proof_given C (ac_nonce A) v)
    | None \<Rightarrow> proof_given C (ac_nonce A) (ac_mock A)"
proof -
  from configured_methods [OF assms(1,2)] assms(3) have
    "case bt_get (nc_client n) (TenantId_user tenant) of
       Some t \<Rightarrow> (\<exists>v. ScramVerifier_from_str C t = Inr v \<and> ClientCredentials_method creds tenant = Some (ScramSha256 v))
     | None \<Rightarrow> ClientCredentials_method creds tenant = None" by auto
  with accept_method [OF assms(6)] assms(4,5) show ?thesis by (auto split: option.splits)
qed

definition demo_node_config :: NodeConfig where
  "demo_node_config = \<lparr>nc_node = \<lparr>nd_role = RoleProxy, nd_listen = ''127.0.0.1:6432'', nd_coordinator = ''here'', nd_max_client_connections = 10,
       nd_metrics_listen = None, nd_tls = None, nd_server_tls = None\<rparr>,
     nc_client = [(''ann'', verifier_text demo_crypto demo_verifier)], nc_server = [], nc_monitor = None\<rparr>"

end
