(* ===== verification/Metrics.thy ===== *)
theory Metrics
  imports Console Config
begin

text \<open>
  The metrics of a node (\<open>crates/node/src/metrics.rs\<close>): which series a reading of the node gives and
  how a scrape over HTTP is answered. The text format is written by \<open>prometheus_client\<close>, an argument
  that takes the prefix and the metrics; a metric is its name, its help text, its type and its series
  in the order they are encoded, a series being its labels and its value.
\<close>

section \<open>The series\<close>

definition METRICS_PREFIX :: string where "METRICS_PREFIX = ''pgsteward''"
definition STATE_IDLE :: string where "STATE_IDLE = ''idle''"
definition STATE_ACTIVE :: string where "STATE_ACTIVE = ''active''"
definition STATE_CLOSING :: string where "STATE_CLOSING = ''closing''"

datatype MetricType = Gauge | Counter

type_synonym labels = "(string \<times> string) list"

record metric =
  me_name :: string
  me_help :: string
  me_type :: MetricType
  me_series :: "(labels \<times> nat) list"

definition gauges :: "string \<Rightarrow> string \<Rightarrow> (labels \<times> nat) list \<Rightarrow> metric" where
  "gauges name help series = \<lparr>me_name = name, me_help = help, me_type = Gauge, me_series = series\<rparr>"

definition counters :: "string \<Rightarrow> string \<Rightarrow> (labels \<times> nat) list \<Rightarrow> metric" where
  "counters name help series = \<lparr>me_name = name, me_help = help, me_type = Counter, me_series = series\<rparr>"

definition i64_max :: nat where "i64_max = 2 ^ 63 - 1"

definition counted :: "nat \<Rightarrow> nat" where
  "counted n = (if n \<le> i64_max then n else i64_max)"

definition GrantLabels :: "InstanceId \<Rightarrow> Holder \<Rightarrow> labels" where
  "GrantLabels i h = [(''instance'', InstanceId_as_str i), (''database'', TenantId_database (Holder_tenant h)),
     (''user'', TenantId_user (Holder_tenant h)), (''proxy'', ProxyId_as_str (Holder_proxy h))]"

definition InstanceLabels :: "InstanceId \<Rightarrow> labels" where
  "InstanceLabels i = [(''instance'', InstanceId_as_str i)]"

definition labels_of :: "NodePool \<Rightarrow> labels" where
  "labels_of p = [(''instance'', InstanceId_as_str (np_instance p)), (''database'', TenantId_database (np_tenant p)),
     (''user'', TenantId_user (np_tenant p))]"

definition ConnectionLabels :: "NodePool \<Rightarrow> string \<Rightarrow> labels" where
  "ConnectionLabels p state = labels_of p @ [(''state'', state)]"

definition encode_grants :: "ConsoleView \<Rightarrow> metric list" where
  "encode_grants v =
     [gauges ''granted_slots'' ''Connection slots the allocation table grants to a holder on an instance''
        (concat (map (\<lambda>i. map (\<lambda>(h, slots). (GrantLabels i h, slots)) (AllocationTable_holders (cv_table v) i))
           (AllocationTable_instances (cv_table v)))),
      gauges ''unallocated_slots'' (''Connection slots of an instance'' @ CHR 0x27 # ''s total budget that are granted to no one'')
        (map (\<lambda>i. (InstanceLabels i, AllocationTable_headroom (cv_table v) i)) (AllocationTable_instances (cv_table v)))]"

definition connection_states :: "NodePool \<Rightarrow> (labels \<times> nat) list" where
  "connection_states p =
     map (\<lambda>(state, n). (ConnectionLabels p state, counted n))
       [(STATE_IDLE, stats_idle (np_stats p)), (STATE_ACTIVE, stats_in_use (np_stats p)),
        (STATE_CLOSING, stats_closing (np_stats p))]"

definition encode_pools :: "ConsoleView \<Rightarrow> metric list" where
  "encode_pools v =
     (let pools = node_pools v in
      [gauges ''server_connections'' ''Server connections this node holds, by the state they are in''
         (concat (map connection_states pools)),
       gauges ''server_connections_opening'' ''Server connections this node is opening and the instance does not hold yet''
         (map (\<lambda>p. (labels_of p, counted (stats_opening (np_stats p)))) pools),
       counters ''server_connections_opened'' ''Server connections this node has opened for a tenant since it started''
         (map (\<lambda>p. (labels_of p, stats_opened (np_stats p))) pools),
       gauges ''clients_waiting'' ''Clients queued for a connection slot''
         (map (\<lambda>p. (labels_of p, counted (stats_waiting (np_stats p)))) pools),
       gauges ''demand_slots'' ''Connection slots this node reports it needs for a tenant''
         (map (\<lambda>p. (labels_of p, counted (PoolStats_demand (np_stats p)))) pools),
       gauges ''tenant_min_slots'' ''The slots a tenant is guaranteed by the rule the cluster configuration writes''
         (List.map_filter (\<lambda>p. map_option (\<lambda>policy. (labels_of p, policy_min policy)) (np_policy p)) pools),
       gauges ''tenant_max_slots'' ''The slots a tenant may not exceed by the rule the cluster configuration writes''
         (List.map_filter (\<lambda>p. map_option (\<lambda>policy. (labels_of p, policy_max policy)) (np_policy p)) pools)])"

definition INSTANCE_METRICS :: "(string \<times> string \<times> (TotalBudget \<Rightarrow> nat)) list" where
  "INSTANCE_METRICS =
     [(''max_connections'', ''The instance'' @ CHR 0x27 # ''s max_connections setting'',
         \<lambda>b. max_connections (in_limits (tb_inputs b))),
      (''reserved_connections'', ''Connections the instance reserves for superusers and for reserved roles'',
         \<lambda>b. ServerLimits_reserved (in_limits (tb_inputs b))),
      (''foreign_connections_peak'', ''The highest number of connections not opened by this system seen over the window'',
         \<lambda>b. in_foreign_peak (tb_inputs b)),
      (''budget_margin'', ''The margin held back from the instance'' @ CHR 0x27 # ''s total budget'',
         \<lambda>b. in_margin (tb_inputs b)),
      (''budget_shortfall'', ''By how much the deductions exceed max_connections, leaving the budget at zero'',
         tb_shortfall),
      (''total_budget_slots'', ''Connections this system may hold on the instance, as derived from the instance'',
         tb_total)]"

definition encode_instances :: "ConsoleView \<Rightarrow> metric list" where
  "encode_instances v =
     map (\<lambda>(name, help, f). gauges name help
            (map (\<lambda>s. (InstanceLabels (is_instance s), f (is_budget s))) (sort_key is_instance (cv_instances v))))
       INSTANCE_METRICS"

definition NodeMetrics_encode :: "ConsoleView \<Rightarrow> metric list" where
  "NodeMetrics_encode v = encode_grants v @ encode_pools v @ encode_instances v"

definition exposition :: "(string \<Rightarrow> metric list \<Rightarrow> string) \<Rightarrow> ConsoleView \<Rightarrow> string" where
  "exposition encode v = encode METRICS_PREFIX (NodeMetrics_encode v)"

section \<open>Scrapes\<close>

definition PATH :: string where "PATH = ''/metrics''"
definition CONTENT_TYPE :: string where
  "CONTENT_TYPE = ''application/openmetrics-text; version=1.0.0; charset=utf-8''"
definition HEAD_LIMIT :: nat where "HEAD_LIMIT = 8 * 1024"

abbreviation CRLF :: string where "CRLF \<equiv> [CHR 0x0D, CHR 0x0A]"

definition HEAD_END :: string where "HEAD_END = CRLF @ CRLF"

text \<open>\<open>str::lines\<close>, its first line, and \<open>str::split_whitespace\<close>.\<close>

definition first_line :: "string \<Rightarrow> string option" where
  "first_line s =
     (if s = [] then None
      else
        (let line = takeWhile (\<lambda>c. c \<noteq> CHR 0x0A) s in
         Some (if CHR 0x0A \<in> set s \<and> line \<noteq> [] \<and> last line = CHR 0x0D then butlast line else line)))"

definition white_len :: "bytes \<Rightarrow> nat" where
  "white_len s =
     (case s of
        [] \<Rightarrow> 0
      | a # bs \<Rightarrow>
          if is_white1 a then 1
          else (case bs of
              [] \<Rightarrow> 0
            | b # cs \<Rightarrow>
                if is_white2 a b then 2
                else (case cs of [] \<Rightarrow> 0 | c # _ \<Rightarrow> if is_white3 a b c then 3 else 0)))"

function split_whitespace :: "bytes \<Rightarrow> bytes \<Rightarrow> bytes list" where
  "split_whitespace word [] = (if word = [] then [] else [word])"
| "split_whitespace word (a # bs) =
     (if white_len (a # bs) = 0 then split_whitespace (word @ [a]) bs
      else (if word = [] then [] else [word]) @ split_whitespace [] (drop (white_len (a # bs)) (a # bs)))"
  by pat_completeness auto
termination
  by (relation "measure (\<lambda>(_, s). length s)") auto

definition request_line :: "string \<Rightarrow> (string \<times> string) option" where
  "request_line head =
     (case first_line head of
        None \<Rightarrow> None
      | Some line \<Rightarrow> (case split_whitespace [] line of verb # addressed # _ \<Rightarrow> Some (verb, addressed) | _ \<Rightarrow> None))"

definition path_of :: "string \<Rightarrow> string" where
  "path_of addressed = takeWhile (\<lambda>c. c \<noteq> CHR ''?'' \<and> c \<noteq> CHR ''#'') addressed"

definition http_body :: "nat \<Rightarrow> string \<Rightarrow> string \<Rightarrow> string \<Rightarrow> string" where
  "http_body code reason content_type b =
     ''HTTP/1.1 '' @ decimal code @ '' '' @ reason @ CRLF
     @ ''Content-Type: '' @ content_type @ CRLF
     @ ''Content-Length: '' @ decimal (length b) @ CRLF
     @ ''Connection: close'' @ CRLF @ CRLF @ b"

definition http_refusal :: "nat \<Rightarrow> string \<Rightarrow> string \<Rightarrow> string" where
  "http_refusal code reason message = http_body code reason ''text/plain; charset=utf-8'' message"

text \<open>
  The head is read byte by byte. A read that fails is a missing byte, the end of the list the end of
  the stream. The last result is what is left unread.
\<close>

datatype head_end = HeadFailed | HeadAbsent | HeadRead string

fun read_head :: "byte option list \<Rightarrow> bytes \<Rightarrow> head_end \<times> byte option list" where
  "read_head input head =
     (if length head < HEAD_LIMIT then
        (case input of
           [] \<Rightarrow> (HeadAbsent, [])
         | None # rest \<Rightarrow> (HeadFailed, rest)
         | Some b # rest \<Rightarrow>
             if suffix HEAD_END (head @ [b]) then (HeadRead (from_utf8_lossy (head @ [b])), rest)
             else read_head rest (head @ [b]))
      else (HeadRead (from_utf8_lossy head), input))"

declare read_head.simps [simp del]

definition respond :: "(string \<Rightarrow> metric list \<Rightarrow> string) \<Rightarrow> string \<Rightarrow> ConsoleView \<Rightarrow> string" where
  "respond encode head v =
     (case request_line head of
        None \<Rightarrow> http_refusal 400 ''Bad Request'' (''Not an HTTP request.'' @ [CHR 0x0A])
      | Some (verb, addressed) \<Rightarrow>
          if verb = ''GET'' then
            (if path_of addressed = PATH then http_body 200 ''OK'' CONTENT_TYPE (exposition encode v)
             else http_refusal 404 ''Not Found'' (''This node publishes /metrics.'' @ [CHR 0x0A]))
          else http_refusal 405 ''Method Not Allowed'' (''A scrape reads /metrics.'' @ [CHR 0x0A]))"

text \<open>What a scrape is answered: nothing when it sent no head, an error when reading failed.\<close>

definition scrape_answer :: "(string \<Rightarrow> metric list \<Rightarrow> string) \<Rightarrow> ('n, 'z) console_node_scheme \<Rightarrow> 'n
    \<Rightarrow> byte option list \<Rightarrow> unit + string option" where
  "scrape_answer encode N n input =
     (case fst (read_head input []) of
        HeadFailed \<Rightarrow> Inl ()
      | HeadAbsent \<Rightarrow> Inr None
      | HeadRead head \<Rightarrow> Inr (Some (respond encode head (node_view N n))))"

section \<open>The metrics add up\<close>

text \<open>The sum of the series of a metric that carry the label of an instance.\<close>

definition sum_on :: "InstanceId \<Rightarrow> (labels \<times> nat) list \<Rightarrow> nat" where
  "sum_on i series = (\<Sum>(l, n) \<leftarrow> filter (\<lambda>(l, n). map_of l ''instance'' = Some (InstanceId_as_str i)) series. n)"

definition published_on :: "string \<Rightarrow> InstanceId \<Rightarrow> metric list \<Rightarrow> nat" where
  "published_on name i ms = (\<Sum>m \<leftarrow> filter (\<lambda>m. me_name m = name) ms. sum_on i (me_series m))"

lemma sum_on_append: "sum_on i (xs @ ys) = sum_on i xs + sum_on i ys"
  by (simp add: sum_on_def)

lemma sum_on_concat: "sum_on i (concat (map f xs)) = (\<Sum>x \<leftarrow> xs. sum_on i (f x))"
  by (induction xs) (simp_all add: sum_on_append, simp add: sum_on_def)

lemma sum_on_same:
  assumes "\<And>x. x \<in> set xs \<Longrightarrow> map_of (l x) ''instance'' = Some (InstanceId_as_str j)"
  shows "sum_on i (map (\<lambda>x. (l x, f x)) xs) = (if i = j then \<Sum>x \<leftarrow> xs. f x else 0)"
  using assms by (induction xs; cases i; cases j) (auto simp: sum_on_def)

lemma sum_on_instances: "sum_on i (map (\<lambda>j. (InstanceLabels j, f j)) js) = (\<Sum>j \<leftarrow> js. if j = i then f j else 0)"
proof (induction js)
  case (Cons j js)
  then show ?case by (cases i; cases j) (auto simp: sum_on_def InstanceLabels_def)
qed (simp add: sum_on_def)

lemmas metrics_defs = published_on_def NodeMetrics_encode_def encode_grants_def encode_pools_def
  encode_instances_def INSTANCE_METRICS_def gauges_def counters_def Let_def

lemma instance_label [simp]:
  "map_of (GrantLabels i h) ''instance'' = Some (InstanceId_as_str i)"
  "map_of (InstanceLabels i) ''instance'' = Some (InstanceId_as_str i)"
  "map_of (labels_of p) ''instance'' = Some (InstanceId_as_str (np_instance p))"
  "map_of (ConnectionLabels p state) ''instance'' = Some (InstanceId_as_str (np_instance p))"
  by (simp_all add: GrantLabels_def InstanceLabels_def labels_of_def ConnectionLabels_def)

lemma sum_list_only: "distinct xs \<Longrightarrow> (\<Sum>x \<leftarrow> xs. if x = a then f x else (0 :: nat)) = (if a \<in> set xs then f a else 0)"
  by (induction xs) auto

lemma sum_by_key:
  "distinct ks \<Longrightarrow> (\<Sum>k \<leftarrow> ks. \<Sum>x \<leftarrow> filter (\<lambda>x. key x = k) xs. f x) = (\<Sum>x \<leftarrow> filter (\<lambda>x. key x \<in> set ks) xs. (f x :: nat))"
proof (induction xs)
  case (Cons x xs)
  have "(\<Sum>y \<leftarrow> filter (\<lambda>y. key y = k) (x # xs). f y)
      = (if k = key x then f x else 0) + (\<Sum>y \<leftarrow> filter (\<lambda>y. key y = k) xs. f y)" for k by simp
  with Cons sum_list_only [of ks "key x" "\<lambda>_. f x"] show ?case
    by (simp only: sum_list_addf) simp
qed simp

lemma grants_published:
  assumes "table_ok (cv_table v)" "i \<in> set (AllocationTable_instances (cv_table v))"
  shows "published_on ''granted_slots'' i (NodeMetrics_encode v) = (\<Sum>(h, slots) \<leftarrow> AllocationTable_holders (cv_table v) i. slots)"
    and "published_on ''unallocated_slots'' i (NodeMetrics_encode v) = AllocationTable_headroom (cv_table v) i"
proof -
  let ?is = "AllocationTable_instances (cv_table v)"
  have d: "distinct ?is"
    using assms(1) bt_wf_distinct by (auto simp: table_ok_def AllocationTable_instances_def)
  have "sum_on i (map (\<lambda>(h, slots). (GrantLabels j h, slots)) (AllocationTable_holders (cv_table v) j))
      = (if j = i then \<Sum>(h, slots) \<leftarrow> AllocationTable_holders (cv_table v) j. slots else 0)" for j
    using sum_on_same [of "AllocationTable_holders (cv_table v) j" "\<lambda>x. GrantLabels j (fst x)" j i snd]
    by (simp add: case_prod_unfold)
  with sum_list_only [OF d, of i] assms(2)
  show "published_on ''granted_slots'' i (NodeMetrics_encode v) = (\<Sum>(h, slots) \<leftarrow> AllocationTable_holders (cv_table v) i. slots)"
    by (simp add: metrics_defs sum_on_concat)
  show "published_on ''unallocated_slots'' i (NodeMetrics_encode v) = AllocationTable_headroom (cv_table v) i"
    using sum_list_only [OF d, of i] assms(2) by (simp add: metrics_defs sum_on_instances)
qed

lemma actual_by_pool:
  "(\<Sum>p \<leftarrow> filter (\<lambda>p. np_instance p = i) (node_pools v). PoolStats_actual (np_stats p)) = actual_on v i"
proof -
  let ?ks = "filter (\<lambda>k. fst k = i) (map node_pool_key (node_pools v))"
  have "distinct ?ks" using node_pools_sorted [of v] by (simp add: strict_sorted_iff)
  have "(\<Sum>p \<leftarrow> filter (\<lambda>p. np_instance p = i) (node_pools v). PoolStats_actual (np_stats p))
      = (\<Sum>p \<leftarrow> filter (\<lambda>p. np_instance p = i) (node_pools v). view_sum v (\<lambda>q. snapshot_key q = node_pool_key p))"
    by (intro arg_cong [of _ _ sum_list] map_cong refl node_pool_sums) simp
  also have "\<dots> = (\<Sum>k \<leftarrow> ?ks. \<Sum>q \<leftarrow> filter (\<lambda>q. snapshot_key q = k) (cv_pools v). PoolStats_actual (ps_stats q))"
    by (simp add: filter_map comp_def view_sum_def)
  also have "\<dots> = (\<Sum>q \<leftarrow> filter (\<lambda>q. snapshot_key q \<in> set ?ks) (cv_pools v). PoolStats_actual (ps_stats q))"
    by (rule sum_by_key) fact
  also have "filter (\<lambda>q. snapshot_key q \<in> set ?ks) (cv_pools v) = filter (\<lambda>q. ps_instance q = i) (cv_pools v)"
    using node_pools_cover [of v] by (intro filter_cong refl) auto
  finally show ?thesis by (simp add: actual_on_def view_sum_def)
qed

lemma connections_published:
  assumes "actual_on v i \<le> i64_max"
  shows "published_on ''server_connections'' i (NodeMetrics_encode v) = actual_on v i"
proof -
  have "sum_on i (connection_states p) = (if np_instance p = i then PoolStats_actual (np_stats p) else 0)"
    if "p \<in> set (node_pools v)" for p
  proof (cases "np_instance p = i")
    case True
    with that have "PoolStats_actual (np_stats p) \<le> actual_on v i"
      unfolding actual_by_pool [symmetric] by (intro member_le_sum_list) auto
    with assms True show ?thesis
      by (simp add: connection_states_def sum_on_def counted_def PoolStats_actual_def)
  next
    case False
    then show ?thesis by (cases i; cases "np_instance p") (auto simp: connection_states_def sum_on_def)
  qed
  then have "(\<Sum>p \<leftarrow> node_pools v. sum_on i (connection_states p))
      = (\<Sum>p \<leftarrow> node_pools v. if np_instance p = i then PoolStats_actual (np_stats p) else 0)"
    by (intro arg_cong [of _ _ sum_list] map_cong) auto
  also have "\<dots> = actual_on v i"
    by (simp add: actual_by_pool [symmetric] sum_list_map_filter')
  finally show ?thesis
    by (simp add: metrics_defs sum_on_concat)
qed

text \<open>
  C23: The metrics of an instance add up. In one reading of the node, the granted slots of all holders
  and the unallocated slots of an instance sum to its total budget in the allocation table, and the
  server connections published for it, over all tenants and states, are the connections this node
  holds there (up to the range of a gauge).
\<close>

theorem metrics_add_up:
  assumes "table_ok (cv_table v)" "i \<in> set (AllocationTable_instances (cv_table v))" "actual_on v i \<le> i64_max"
  shows "published_on ''granted_slots'' i (NodeMetrics_encode v) + published_on ''unallocated_slots'' i (NodeMetrics_encode v)
      = AllocationTable_budget (cv_table v) i
    \<and> published_on ''server_connections'' i (NodeMetrics_encode v) = actual_on v i"
  using table_totals [OF assms(1), of i] grants_published [OF assms(1,2)] connections_published [OF assms(3)] by simp

definition demo_reading :: ConsoleView where
  "demo_reading = demo_view\<lparr>cv_pools := [\<lparr>ps_proxy = ProxyId ''p'', ps_instance = InstanceId ''db1'',
     ps_tenant = TenantId ''app'' ''app'', ps_policy = None,
     ps_stats = \<lparr>stats_slots = 4, stats_idle = 1, stats_in_use = 2, stats_opening = 0, stats_closing = 0,
       stats_waiting = 3, stats_opened = 9\<rparr>\<rparr>]\<rparr>"

theorem metrics_add_up_witness:
  "published_on ''granted_slots'' (InstanceId ''db1'') (NodeMetrics_encode demo_reading)
     + published_on ''unallocated_slots'' (InstanceId ''db1'') (NodeMetrics_encode demo_reading) = 10
   \<and> published_on ''server_connections'' (InstanceId ''db1'') (NodeMetrics_encode demo_reading) = 3"
proof -
  have "table_ok (cv_table demo_reading)" using demo_view_ok by (simp add: demo_reading_def)
  moreover have "InstanceId ''db1'' \<in> set (AllocationTable_instances (cv_table demo_reading))"
    "AllocationTable_budget (cv_table demo_reading) (InstanceId ''db1'') = 10"
    "actual_on demo_reading (InstanceId ''db1'') = 3" by code_simp+
  ultimately show ?thesis using metrics_add_up [of demo_reading "InstanceId ''db1''"] by (simp add: i64_max_def)
qed

section \<open>A scrape is read\<close>

lemma white_len_ascii: "code_of a < 0x80 \<Longrightarrow> white_len (a # bs) = (if is_white1 a then 1 else 0)"
  by (auto simp: white_len_def is_white2_def is_white3_def split: list.split)

lemma split_word:
  "(\<forall>b \<in> set w. code_of b < 0x80 \<and> \<not> is_white1 b) \<Longrightarrow> split_whitespace word (w @ s) = split_whitespace (word @ w) s"
  by (induction w arbitrary: word) (simp_all add: white_len_ascii)

lemma split_space: "split_whitespace word (CHR '' '' # s) = (if word = [] then [] else [word]) @ split_whitespace [] s"
  by (simp add: white_len_ascii is_white1_def)

lemma split_word_space:
  "w \<noteq> [] \<Longrightarrow> (\<forall>b \<in> set w. code_of b < 0x80 \<and> \<not> is_white1 b) \<Longrightarrow>
    split_whitespace [] (w @ CHR '' '' # s) = w # split_whitespace [] s"
  by (simp only: split_word split_space) simp

lemma read_head_stops:
  assumes "head @ input = a @ HEAD_END @ b" "length head < length a + 4" "length a + 4 \<le> HEAD_LIMIT"
  shows "\<exists>h. prefix h (head @ input) \<and> suffix HEAD_END h
    \<and> fst (read_head (map Some input @ tail) head) = HeadRead (from_utf8_lossy h)"
  using assms(1,2)
proof (induction input arbitrary: head)
  case (Cons c input)
  note step = read_head.simps [of "Some c # map Some input @ tail" head]
  show ?case
  proof (cases "suffix HEAD_END (head @ [c])")
    case True
    moreover have "prefix (head @ [c]) (head @ c # input)" by simp
    ultimately show ?thesis using step Cons.prems(2) assms(3) by (intro exI [of _ "head @ [c]"]) auto
  next
    case False
    have "length (head @ [c]) \<noteq> length a + 4"
    proof
      assume "length (head @ [c]) = length a + 4"
      with Cons.prems(1) have "head @ [c] = a @ HEAD_END"
        using append_eq_append_conv [of "head @ [c]" "a @ HEAD_END" input b] by (simp add: HEAD_END_def)
      then have "suffix HEAD_END (head @ [c])" by (simp add: suffix_def)
      with False show False ..
    qed
    with Cons.prems have "length (head @ [c]) < length a + 4" by simp
    from Cons.IH [OF _ this] Cons.prems(1) obtain h where "prefix h (head @ c # input)" "suffix HEAD_END h"
      "fst (read_head (map Some input @ tail) (head @ [c])) = HeadRead (from_utf8_lossy h)" by auto
    with step Cons.prems assms(3) False show ?thesis by (intro exI [of _ h]) auto
  qed
qed (simp add: HEAD_END_def)

lemma takeWhile_prefix: "prefix h r \<Longrightarrow> x \<in> set h \<Longrightarrow> \<not> P x \<Longrightarrow> takeWhile P h = takeWhile P r"
  by (auto simp: prefix_def)

text \<open>
  A scrape is answered with the reading of the moment it asks. A GET request in ASCII, with any
  headers, whose head is within the limit, is answered with status 200 and the metrics of the node
  when its path is \<open>/metrics\<close>, whatever query string it carries, and with status 404 otherwise; and
  however much follows the head, it is not waited for.
\<close>

theorem scrape_answered:
  assumes "req = ''GET '' @ addressed @ '' HTTP/1.1'' @ CRLF @ rest" "req = a @ HEAD_END @ b"
    and "length a + 4 \<le> HEAD_LIMIT" "\<forall>c \<in> set req. code_of c < 0x80"
    and "addressed \<noteq> []" "\<forall>c \<in> set addressed. \<not> is_white1 c"
  shows "scrape_answer encode N n (map Some req @ tail) = Inr (Some
    (if path_of addressed = PATH then http_body 200 ''OK'' CONTENT_TYPE (exposition encode (node_view N n))
     else http_refusal 404 ''Not Found'' (''This node publishes /metrics.'' @ [CHR 0x0A])))"
proof -
  let ?line = "''GET '' @ addressed @ '' HTTP/1.1''"
  from read_head_stops [of "[]" req a b tail] assms(2,3) obtain h where
    h: "prefix h req" "suffix HEAD_END h" "fst (read_head (map Some req @ tail) []) = HeadRead (from_utf8_lossy h)"
    by auto
  have lf: "CHR 0x0A \<in> set h" using h(2) by (auto simp: suffix_def HEAD_END_def)
  have "valid_utf8 h" using h(1) assms(4) by (intro valid_utf8_ascii) (auto dest: set_mono_prefix)
  then have lossy: "from_utf8_lossy h = h" by (rule lossy_id)
  have "takeWhile (\<lambda>c. c \<noteq> CHR 0x0A) h = takeWhile (\<lambda>c. c \<noteq> CHR 0x0A) req"
    by (rule takeWhile_prefix [OF h(1) lf]) simp
  also have "\<dots> = ?line @ [CHR 0x0D]"
  proof -
    have "is_white1 (CHR 0x0A)" by (simp add: is_white1_def in_range_def)
    then have "CHR 0x0A \<notin> set addressed" using assms(6) by blast
    then have "\<forall>c \<in> set (?line @ [CHR 0x0D]). c \<noteq> CHR 0x0A" by auto
    moreover have "req = (?line @ [CHR 0x0D]) @ CHR 0x0A # rest" by (simp add: assms(1))
    ultimately show ?thesis by (simp only: takeWhile_append2) simp
  qed
  finally have "first_line h = Some ?line" using lf by (auto simp: first_line_def Let_def butlast_append)
  moreover have "\<exists>more. split_whitespace [] ?line = ''GET'' # addressed # more"
  proof -
    have "\<forall>c \<in> set addressed. code_of c < 0x80 \<and> \<not> is_white1 c" using assms(1,4,6) by auto
    moreover have "\<forall>c \<in> set ''GET''. code_of c < 0x80 \<and> \<not> is_white1 c" by (simp add: is_white1_def in_range_def)
    ultimately have "split_whitespace [] (''GET'' @ CHR '' '' # addressed @ CHR '' '' # ''HTTP/1.1'')
        = ''GET'' # addressed # split_whitespace [] ''HTTP/1.1''"
      using assms(5) split_word_space [of "''GET''" "addressed @ CHR '' '' # ''HTTP/1.1''"]
        split_word_space [of addressed "''HTTP/1.1''"] by (simp del: split_whitespace.simps)
    then show ?thesis by (simp del: split_whitespace.simps)
  qed
  ultimately have "request_line h = Some (''GET'', addressed)" by (auto simp: request_line_def)
  then show ?thesis by (simp add: scrape_answer_def h(3) lossy respond_def)
qed

theorem scrape_answered_witness:
  "scrape_answer (\<lambda>_ ms. concat (map me_name ms)) demo_node 0
     (map Some (''GET /metrics?x=1 HTTP/1.1'' @ CRLF @ ''Host: db'' @ CRLF @ CRLF @ ''more''))
   = Inr (Some (http_body 200 ''OK'' CONTENT_TYPE (exposition (\<lambda>_ ms. concat (map me_name ms)) (node_view demo_node 0))))"
proof -
  let ?req = "''GET /metrics?x=1 HTTP/1.1'' @ CRLF @ ''Host: db'' @ CRLF @ CRLF @ ''more''"
  have "?req = ''GET '' @ ''/metrics?x=1'' @ '' HTTP/1.1'' @ CRLF @ ''Host: db'' @ CRLF @ CRLF @ ''more''"
    "?req = (''GET /metrics?x=1 HTTP/1.1'' @ CRLF @ ''Host: db'') @ HEAD_END @ ''more''" by (simp_all add: HEAD_END_def)
  from scrape_answered [OF this, where tail = "[]" and N = demo_node and n = 0 and encode = "\<lambda>_ ms. concat (map me_name ms)"]
  show ?thesis by (simp add: HEAD_LIMIT_def path_of_def PATH_def is_white1_def in_range_def)
qed

end
