(* ===== verification/Inspect.thy ===== *)
theory Inspect
  imports Server Budget
begin

text \<open>
  What a node asks a server (\<open>crates/core/src/inspect.rs\<close>): its limits, its timeouts and the number
  of connections that are not this system's. The trait \<open>SimpleQuery\<close> is the argument \<open>query\<close>, over
  the state \<open>'s\<close> of the connection; \<open>simple_query\<close> of the theory Server is what the program passes.
  Durations are in nanoseconds, and \<open>checked_mul\<close> fails when the seconds exceed 64 bits.
\<close>

definition SQLSTATE_UNDEFINED_OBJECT :: string where "SQLSTATE_UNDEFINED_OBJECT = ''42704''"
definition FOREIGN_CONNECTIONS :: string where "FOREIGN_CONNECTIONS = ''the number of foreign connections''"

record TimeoutSettings =
  tcp_keepalives_idle :: nat
  tcp_user_timeout :: nat

datatype InspectError =
    InspectQuery QueryError
  | Missing string
  | Unreadable string bytes

type_synonym 's query = "bytes \<Rightarrow> 's \<Rightarrow> (QueryError + row list) \<times> 's"
type_synonym ('s, 'a) asked = "(InspectError + 'a) \<times> 's"

definition ask_then :: "('s, 'a) asked \<Rightarrow> ('a \<Rightarrow> 's \<Rightarrow> ('s, 'b) asked) \<Rightarrow> ('s, 'b) asked" where
  "ask_then r f = (case r of (Inl e, s) \<Rightarrow> (Inl e, s) | (Inr a, s) \<Rightarrow> f a s)"

definition first_value :: "row list \<Rightarrow> bytes option" where
  "first_value rows = (case rows of (v # _) # _ \<Rightarrow> v | _ \<Rightarrow> None)"

definition show_setting :: "'s query \<Rightarrow> string \<Rightarrow> 's \<Rightarrow> ('s, bytes) asked" where
  "show_setting query setting s =
     (case query (''SHOW '' @ setting) s of
        (Inr rows, s') \<Rightarrow> ((case first_value rows of None \<Rightarrow> Inl (Missing setting) | Some v \<Rightarrow> Inr v), s')
      | (Inl (QueryServer code message), s') \<Rightarrow>
          (Inl (if code = SQLSTATE_UNDEFINED_OBJECT then Missing setting
                else InspectQuery (QueryServer code message)), s')
      | (Inl e, s') \<Rightarrow> (Inl (InspectQuery e), s'))"

definition parse_count :: "string \<Rightarrow> bytes \<Rightarrow> InspectError + nat" where
  "parse_count what v = (case parse_u32 v of None \<Rightarrow> Inl (Unreadable what v) | Some n \<Rightarrow> Inr n)"

definition show_count :: "'s query \<Rightarrow> string \<Rightarrow> 's \<Rightarrow> ('s, nat) asked" where
  "show_count query setting s = ask_then (show_setting query setting s) (\<lambda>v s. (parse_count setting v, s))"

definition read_server_limits :: "'s query \<Rightarrow> 's \<Rightarrow> ('s, ServerLimits) asked" where
  "read_server_limits query s =
     ask_then (show_count query ''max_connections'' s) (\<lambda>m s.
     ask_then (show_count query ''superuser_reserved_connections'' s) (\<lambda>su s.
     ask_then
       (case show_setting query ''reserved_connections'' s of
          (Inr v, s') \<Rightarrow> (parse_count ''reserved_connections'' v, s')
        | (Inl (Missing _), s') \<Rightarrow> (Inr 0, s')
        | (Inl e, s') \<Rightarrow> (Inl e, s')) (\<lambda>r s.
       (Inr \<lparr>max_connections = m, superuser_reserved_connections = su, reserved_connections = r\<rparr>, s))))"

definition u64_max :: nat where "u64_max = 2 ^ 64 - 1"
definition nanos :: "nat \<Rightarrow> nat" where "nanos secs = secs * 1000000000"

definition Duration_checked_mul :: "nat \<Rightarrow> nat \<Rightarrow> nat option" where
  "Duration_checked_mul unit n = (if unit * n div 1000000000 \<le> u64_max then Some (unit * n) else None)"

definition duration_unit :: "nat \<Rightarrow> bytes \<Rightarrow> nat option" where
  "duration_unit base unit =
     (if unit = [] then Some base
      else if unit = ''us'' then Some 1000
      else if unit = ''ms'' then Some 1000000
      else if unit = ''s'' then Some (nanos 1)
      else if unit = ''min'' then Some (nanos 60)
      else if unit = ''h'' then Some (nanos (60 * 60))
      else if unit = ''d'' then Some (nanos (24 * 60 * 60))
      else None)"

definition parse_duration :: "string \<Rightarrow> bytes \<Rightarrow> nat \<Rightarrow> InspectError + nat" where
  "parse_duration what v base =
     (case parse_u32 (takeWhile is_ascii_digit v) of
        None \<Rightarrow> Inl (Unreadable what v)
      | Some amount \<Rightarrow>
          (case duration_unit base (dropWhile is_ascii_digit v) of
             None \<Rightarrow> Inl (Unreadable what v)
           | Some unit \<Rightarrow>
               (case Duration_checked_mul unit amount of None \<Rightarrow> Inl (Unreadable what v) | Some d \<Rightarrow> Inr d)))"

definition read_timeout_settings :: "'s query \<Rightarrow> 's \<Rightarrow> ('s, TimeoutSettings) asked" where
  "read_timeout_settings query s =
     ask_then (show_setting query ''tcp_keepalives_idle'' s) (\<lambda>v s.
     ask_then (parse_duration ''tcp_keepalives_idle'' v (nanos 1), s) (\<lambda>idle s.
     ask_then (show_setting query ''tcp_user_timeout'' s) (\<lambda>v s.
     ask_then (parse_duration ''tcp_user_timeout'' v 1000000, s) (\<lambda>timeout s.
       (Inr \<lparr>tcp_keepalives_idle = idle, tcp_user_timeout = timeout\<rparr>, s)))))"

definition foreign_sql :: bytes where
  "foreign_sql = ''SELECT count(*) FROM pg_stat_activity WHERE backend_type = '' @ [CHR 0x27] @ ''client backend''
     @ [CHR 0x27] @ '' AND left(application_name, '' @ decimal (length PREFIX) @ '') IS DISTINCT FROM ''
     @ [CHR 0x27] @ PREFIX @ [CHR 0x27]"

definition count_foreign_connections :: "'s query \<Rightarrow> 's \<Rightarrow> ('s, nat) asked" where
  "count_foreign_connections query s =
     (case query foreign_sql s of
        (Inl e, s') \<Rightarrow> (Inl (InspectQuery e), s')
      | (Inr rows, s') \<Rightarrow>
          (case first_value rows of
             None \<Rightarrow> (Inl (Missing FOREIGN_CONNECTIONS), s')
           | Some v \<Rightarrow> (parse_count FOREIGN_CONNECTIONS v, s')))"

section \<open>A server that answers\<close>

text \<open>
  What a server sends for a setting: one row with the value, or the error of a server that does not
  have the setting.
\<close>

fun setting_messages :: "bytes option \<Rightarrow> Message list" where
  "setting_messages (Some v) = [MRowDescription, MDataRow (Some [Some v]), MCommandComplete]"
| "setting_messages None = [MErrorResponse [(SQLSTATE_FIELD, SQLSTATE_UNDEFINED_OBJECT), (MESSAGE_FIELD, ''unrecognized'')]]"

definition setting_reply :: "bytes option \<Rightarrow> arrival list" where
  "setting_reply v = map Arrived (setting_messages v) @ [Arrived (MReadyForQuery IDLE)]"

lemma lossy_decimal [simp]: "from_utf8_lossy (decimal n) = decimal n"
proof (rule lossy_id, rule valid_utf8_ascii)
  fix b
  assume "b \<in> set (decimal n)"
  then show "code_of b < 0x80" using decimal_all_digits by (fastforce simp: is_ascii_digit_def in_range_def)
qed

lemma lossy_sqlstate [simp]: "from_utf8_lossy SQLSTATE_UNDEFINED_OBJECT = SQLSTATE_UNDEFINED_OBJECT"
  by code_simp

lemma show_setting_replied:
  assumes "\<And>m. encodes L m" "cn_arrivals s = setting_reply (map_option decimal v) @ rest"
  shows "fst (show_setting (simple_query L) setting s) = (case v of None \<Rightarrow> Inl (Missing setting) | Some n \<Rightarrow> Inr (decimal n))
    \<and> cn_arrivals (snd (show_setting (simple_query L) setting s)) = rest"
proof -
  have "list_all in_result (setting_messages (map_option decimal v))" by (cases v) simp_all
  from simple_query_result [OF this, of L "''SHOW '' @ setting" s IDLE rest] assms
  have "fst (simple_query L (''SHOW '' @ setting) s) =
      (case v of None \<Rightarrow> Inl (QueryServer SQLSTATE_UNDEFINED_OBJECT (error_field [(MESSAGE_FIELD, ''unrecognized'')] MESSAGE_FIELD))
       | Some n \<Rightarrow> Inr [[Some (decimal n)]])"
    "cn_arrivals (snd (simple_query L (''SHOW '' @ setting) s)) = rest"
    by (cases v; simp add: setting_reply_def SQLSTATE_FIELD_def MESSAGE_FIELD_def)+
  then show ?thesis
    by (cases "simple_query L (''SHOW '' @ setting) s"; cases v) (auto simp: show_setting_def first_value_def)
qed

lemma ask_then_Inr: "fst r = Inr a \<Longrightarrow> ask_then r f = f a (snd r)"
  by (cases r) (simp add: ask_then_def)

lemma show_count_replied:
  assumes "\<And>m. encodes L m" "cn_arrivals s = setting_reply (Some (decimal n)) @ rest" "n \<le> u32_max"
  shows "fst (show_count (simple_query L) setting s) = Inr n
    \<and> cn_arrivals (snd (show_count (simple_query L) setting s)) = rest"
  using show_setting_replied [OF assms(1), of s "Some n" rest setting] assms(2,3)
  by (simp add: show_count_def ask_then_Inr parse_count_def parse_u32_decimal)

lemma reserved_replied:
  assumes "\<And>m. encodes L m" "cn_arrivals s = setting_reply (map_option decimal r) @ rest" "\<forall>n. r = Some n \<longrightarrow> n \<le> u32_max"
  shows "fst (case show_setting (simple_query L) ''reserved_connections'' s of
       (Inr v, s') \<Rightarrow> (parse_count ''reserved_connections'' v, s')
     | (Inl (Missing _), s') \<Rightarrow> (Inr 0, s')
     | (Inl e, s') \<Rightarrow> (Inl e, s')) = Inr (case r of None \<Rightarrow> 0 | Some n \<Rightarrow> n)
    \<and> cn_arrivals (snd (case show_setting (simple_query L) ''reserved_connections'' s of
       (Inr v, s') \<Rightarrow> (parse_count ''reserved_connections'' v, s')
     | (Inl (Missing _), s') \<Rightarrow> (Inr 0, s')
     | (Inl e, s') \<Rightarrow> (Inl e, s'))) = rest"
  using show_setting_replied [OF assms(1,2), of "''reserved_connections''"] assms(3)
  by (cases "show_setting (simple_query L) ''reserved_connections'' s"; cases r)
    (simp_all add: parse_count_def parse_u32_decimal)

lemma limits_replied:
  assumes "\<And>m. encodes L m" "m \<le> u32_max" "su \<le> u32_max" "\<forall>n. r = Some n \<longrightarrow> n \<le> u32_max"
    and "cn_arrivals s = setting_reply (Some (decimal m)) @ setting_reply (Some (decimal su))
      @ setting_reply (map_option decimal r) @ rest"
  shows "\<exists>s'. read_server_limits (simple_query L) s = (Inr \<lparr>max_connections = m, superuser_reserved_connections = su,
      reserved_connections = (case r of None \<Rightarrow> 0 | Some n \<Rightarrow> n)\<rparr>, s') \<and> cn_arrivals s' = rest"
proof -
  note one = show_count_replied [OF assms(1) assms(5) assms(2), of "''max_connections''"]
  note two = show_count_replied [OF assms(1) conjunct2 [OF one] assms(3), of "''superuser_reserved_connections''"]
  note three = reserved_replied [OF assms(1) conjunct2 [OF two] assms(4)]
  show ?thesis
    unfolding read_server_limits_def ask_then_Inr [OF conjunct1 [OF one]] ask_then_Inr [OF conjunct1 [OF two]]
      ask_then_Inr [OF conjunct1 [OF three]] using conjunct2 [OF three] by blast
qed

lemma foreign_replied:
  assumes "\<And>m. encodes L m" "cn_arrivals s = setting_reply (Some (decimal n)) @ rest" "n \<le> u32_max"
  shows "\<exists>s'. count_foreign_connections (simple_query L) s = (Inr n, s') \<and> cn_arrivals s' = rest"
proof -
  have "list_all in_result (setting_messages (Some (decimal n)))" by simp
  from simple_query_result [OF this, of L foreign_sql s IDLE rest] assms(1,2)
  have "fst (simple_query L foreign_sql s) = Inr [[Some (decimal n)]]"
    "cn_arrivals (snd (simple_query L foreign_sql s)) = rest" by (simp_all add: setting_reply_def)
  then show ?thesis
    using assms(3) by (cases "simple_query L foreign_sql s")
      (auto simp: count_foreign_connections_def first_value_def parse_count_def parse_u32_decimal)
qed

lemma derived_total:
  assumes "m \<le> u32_max"
  shows "tb_total (TotalBudget_derive \<lparr>in_limits = \<lparr>max_connections = m, superuser_reserved_connections = su,
      reserved_connections = r\<rparr>, in_foreign_peak = peak, in_margin = margin\<rparr>)
    = m - (min u32_max (su + r) + peak + margin)"
proof -
  have "m - k \<le> u32_max" for k using assms by simp
  then show ?thesis
    by (simp add: TotalBudget_derive_def BudgetInputs_deductions_def ServerLimits_reserved_def sat_add32_def
        clamp32_id clamp32_def add.assoc Let_def min.commute)
qed

text \<open>
  The limits are read as the server has them. Whatever limits a server reports, they are read
  exactly, with no reserved connections on a server that does not have that setting, and the
  connection is left where the answers end; the total budget derived from them with a foreign peak
  and a margin is what they leave, never below zero.
\<close>

theorem limits_read:
  assumes "\<And>m. encodes L m" "m \<le> u32_max" "su \<le> u32_max" "\<forall>n. r = Some n \<longrightarrow> n \<le> u32_max"
    and "cn_arrivals s = setting_reply (Some (decimal m)) @ setting_reply (Some (decimal su))
      @ setting_reply (map_option decimal r) @ rest"
  shows "\<exists>limits s'. read_server_limits (simple_query L) s = (Inr limits, s') \<and> cn_arrivals s' = rest
    \<and> limits = \<lparr>max_connections = m, superuser_reserved_connections = su,
        reserved_connections = (case r of None \<Rightarrow> 0 | Some n \<Rightarrow> n)\<rparr>
    \<and> tb_total (TotalBudget_derive \<lparr>in_limits = limits, in_foreign_peak = peak, in_margin = margin\<rparr>)
      = m - (min u32_max (su + (case r of None \<Rightarrow> 0 | Some n \<Rightarrow> n)) + peak + margin)"
  using limits_replied [OF assms] derived_total [OF assms(2)] by auto

theorem limits_read_witness:
  "\<exists>limits s'. read_server_limits (simple_query demo_lib) \<lparr>cn_parameters = [], cn_backend_key = \<lparr>process_id = 1, secret_key = 2\<rparr>,
       cn_arrivals = setting_reply (Some (decimal 100)) @ setting_reply (Some (decimal 3)) @ setting_reply (map_option decimal None) @ [],
       cn_sent = []\<rparr> = (Inr limits, s')
    \<and> tb_total (TotalBudget_derive \<lparr>in_limits = limits, in_foreign_peak = 5, in_margin = 15\<rparr>) = 77"
proof -
  let ?s = "\<lparr>cn_parameters = [], cn_backend_key = \<lparr>process_id = 1, secret_key = 2\<rparr>,
    cn_arrivals = setting_reply (Some (decimal 100)) @ setting_reply (Some (decimal 3)) @ setting_reply (map_option decimal None) @ [],
    cn_sent = []\<rparr>"
  have "encodes demo_lib m" for m by (simp add: demo_lib_def)
  from limits_read [OF this, of 100 3 None ?s "[]" 5 15] show ?thesis by (auto simp: u32_max_def)
qed

section \<open>Durations\<close>

lemma duration_unit_bound: "base \<le> nanos 1 \<Longrightarrow> duration_unit base u = Some d \<Longrightarrow> d \<le> nanos (24 * 60 * 60)"
  by (auto simp: duration_unit_def nanos_def split: if_splits)

text \<open>
  Reading a timeout never overflows: every amount that fits 32 bits, in any unit a server prints, is
  a duration, so a value is refused only when it is not a number with a known unit.
\<close>

lemma durations_never_overflow:
  assumes "base \<le> nanos 1" "parse_u32 (takeWhile is_ascii_digit v) = Some n"
    "duration_unit base (dropWhile is_ascii_digit v) = Some u"
  shows "parse_duration what v base = Inr (u * n)"
proof -
  have "u * n \<le> nanos (24 * 60 * 60) * u32_max"
    using duration_unit_bound [OF assms(1,3)] parse_u32_bound [OF assms(2)] by (rule mult_le_mono)
  then have "u * n div 1000000000 \<le> nanos (24 * 60 * 60) * u32_max div 1000000000" by (rule div_le_mono)
  also have "\<dots> \<le> u64_max" by (simp add: nanos_def u32_max_def u64_max_def)
  finally show ?thesis by (simp add: parse_duration_def assms(2,3) Duration_checked_mul_def)
qed

end
