(* ===== verification/Node.thy ===== *)
theory Node
  imports Cluster Transaction Metrics Inspect
begin

text \<open>
  The node (\<open>crates/node/src/serve.rs\<close>): starting it from its configuration, the observers that keep
  each instance's budget, the front that gives every accepted client what it asked for, the console
  over the coordinator, and stopping.

  The network is what the operations are given: \<open>dial\<close> says what connecting to an instance meets,
  \<open>bind\<close> which addresses can be listened on. The tasks of the node run beside each other; an operation
  here is what one of them does between two waits. A panic is the error \<open>ServePanic\<close>, or a missing
  result where there is no error.
\<close>

section \<open>Options and errors\<close>

definition PROXY :: string where "PROXY = ''proxy''"
definition MONITOR :: string where "MONITOR = ''monitor''"

record ServeOptions =
  so_margin :: nat
  so_foreign_window :: nat
  so_observe_interval :: nat
  so_wait_timeout :: nat
  so_shutdown_grace :: nat
  so_release_delay :: nat

definition ServeOptions_default :: ServeOptions where
  "ServeOptions_default = \<lparr>so_margin = 15, so_foreign_window = nanos 60, so_observe_interval = nanos 1,
     so_wait_timeout = nanos 30, so_shutdown_grace = nanos 15, so_release_delay = nanos 60\<rparr>"

datatype ServeError =
    SessionMode
  | NoMonitor
  | ServeConfig ConfigError
  | ServeConnect InstanceId ConnectError
  | ServeInspect InstanceId InspectError
  | ServeListen string
  | ServeWorker
  | ServePanic

section \<open>Observers\<close>

definition including_the_observer :: "nat \<Rightarrow> nat" where
  "including_the_observer foreign_count = sat_add32 foreign_count 1"

record 'cert dial =
  di_reached :: bool
  di_chain :: "'cert list"
  di_answer :: "byte option"
  di_arrivals :: "arrival list"

record 'roots Observer =
  ob_instance :: InstanceId
  ob_address :: string
  ob_credentials :: ServerCredentials
  ob_tls :: "'roots ServerTls"
  ob_connection :: "ServerConnection option"

definition connect_monitor :: "('k, 'y) client_lib_scheme \<Rightarrow> ('cert, 'key, 'roots, 'name, 'z) tls_lib_scheme
    \<Rightarrow> 'cert dial \<Rightarrow> InstanceId \<Rightarrow> string \<Rightarrow> ServerCredentials \<Rightarrow> 'roots ServerTls \<Rightarrow> ServeError + ServerConnection" where
  "connect_monitor L T d i address credentials tls =
     (case connect L (di_reached d) address credentials (ApplicationName_new MONITOR) (tls_mode tls)
         (ServerTls_encrypt T tls (di_chain d)) (di_answer d) (di_arrivals d) of
        Inl e \<Rightarrow> Inl (ServeConnect i e)
      | Inr (_, connection) \<Rightarrow> Inr connection)"

definition Observer_start :: "('k, 'y) client_lib_scheme \<Rightarrow> ('cert, 'key, 'roots, 'name, 'z) tls_lib_scheme
    \<Rightarrow> 'cert dial \<Rightarrow> nat \<Rightarrow> InstanceId \<Rightarrow> string \<Rightarrow> ServerCredentials \<Rightarrow> 'roots ServerTls \<Rightarrow> ServeOptions \<Rightarrow> State
    \<Rightarrow> ServeError + 'roots Observer \<times> State" where
  "Observer_start L T d now i address credentials tls options st =
     (case connect_monitor L T d i address credentials tls of
        Inl e \<Rightarrow> Inl e
      | Inr connection \<Rightarrow>
          (case read_server_limits (simple_query L) connection of
             (Inl e, _) \<Rightarrow> Inl (ServeInspect i e)
           | (Inr limits, connection) \<Rightarrow>
               (case count_foreign_connections (simple_query L) connection of
                  (Inl e, _) \<Rightarrow> Inl (ServeInspect i e)
                | (Inr foreign_count, connection) \<Rightarrow>
                    (let budget = InstanceBudget_new limits (so_margin options) (so_foreign_window options);
                         (budget, _) = InstanceBudget_observe budget now (including_the_observer foreign_count) in
                     Inr (\<lparr>ob_instance = i, ob_address = address, ob_credentials = credentials, ob_tls = tls,
                            ob_connection = Some connection\<rparr>,
                          add_instance i budget st)))))"

text \<open>A connection that is missing is opened again; one that cannot be is still missing.\<close>

definition Observer_observe :: "('k, 'y) client_lib_scheme \<Rightarrow> ('cert, 'key, 'roots, 'name, 'z) tls_lib_scheme
    \<Rightarrow> 'cert dial \<Rightarrow> 'roots Observer \<Rightarrow> (ServeError + nat) \<times> 'roots Observer" where
  "Observer_observe L T d ob =
     (case (case ob_connection ob of
              Some connection \<Rightarrow> Inr connection
            | None \<Rightarrow> connect_monitor L T d (ob_instance ob) (ob_address ob) (ob_credentials ob) (ob_tls ob)) of
        Inl e \<Rightarrow> (Inl e, ob)
      | Inr connection \<Rightarrow>
          (case count_foreign_connections (simple_query L) connection of
             (Inl e, connection) \<Rightarrow> (Inl (ServeInspect (ob_instance ob) e), ob\<lparr>ob_connection := Some connection\<rparr>)
           | (Inr foreign_count, connection) \<Rightarrow> (Inr foreign_count, ob\<lparr>ob_connection := Some connection\<rparr>)))"

text \<open>One turn of \<open>run\<close>: a count that fails leaves the budget where it was and drops the connection.\<close>

definition Observer_turn :: "('k, 'y) client_lib_scheme \<Rightarrow> ('cert, 'key, 'roots, 'name, 'z) tls_lib_scheme
    \<Rightarrow> 'cert dial \<Rightarrow> nat \<Rightarrow> 'roots Observer \<Rightarrow> State \<Rightarrow> 'roots Observer \<times> State" where
  "Observer_turn L T d now ob st =
     (case Observer_observe L T d ob of
        (Inr foreign_count, ob) \<Rightarrow>
          (ob, fst (observe_instance (ob_instance ob) now (including_the_observer foreign_count) st))
      | (Inl _, ob) \<Rightarrow> (ob\<lparr>ob_connection := None\<rparr>, st))"

section \<open>The front\<close>

text \<open>
  The pools keep the opener of their connections beside the welcome of their clients; the release
  delay is the coordinator's.
\<close>

type_synonym node_pools = "(server_conn, InstanceOpener \<times> Welcome) ProxyPools"

record Front =
  fr_proxy :: ProxyId
  fr_pool_mode :: string
  fr_cancels :: CancelRegistry
  fr_limit :: ClientLimit
  fr_credentials :: ClientCredentials
  fr_tls :: bool
  fr_addresses :: "(InstanceId, string) btree_map"
  fr_node :: NodeConfig
  fr_pools :: node_pools
  fr_coordinator :: State
  fr_wait_timeout :: nat
  fr_release_delay :: nat

text \<open>The node runs \<open>WeightedMaxMinFair::default()\<close>.\<close>

definition WeightedMaxMinFair_default :: nat where "WeightedMaxMinFair_default = 1"

abbreviation node_allocator :: allocator where
  "node_allocator \<equiv> allocate WeightedMaxMinFair_default"

text \<open>Opening a pool: no address for the instance is a panic.\<close>

definition Front_open :: "Front \<Rightarrow> InstanceId \<Rightarrow> TenantId \<Rightarrow> (InstanceOpener \<times> server_conn Pool) option" where
  "Front_open f i tenant =
     (case bt_get (fr_addresses f) i of
        None \<Rightarrow> None
      | Some addr \<Rightarrow>
          Some (\<lparr>op_addr = addr, op_credentials = server_credentials (fr_node f) tenant,
                 op_application_name = ApplicationName_new PROXY\<rparr>, Pool_new 0))"

text \<open>The pool of a tenant on an instance, opened if it is missing.\<close>

definition Front_checkout :: "Front \<Rightarrow> InstanceId \<Rightarrow> TenantId \<Rightarrow> (Front \<times> server_conn Pool \<times> InstanceOpener \<times> Welcome) option" where
  "Front_checkout f i tenant =
     (case bt_get (pp_pools (fr_pools f)) (i, tenant) of
        Some e \<Rightarrow>
          (case ProxyPools_checkout (pe_welcome e) i tenant (pe_pool e) (fr_pools f) of
             (pools, pool, opener, welcome) \<Rightarrow> Some (f\<lparr>fr_pools := pools\<rparr>, pool, opener, welcome))
      | None \<Rightarrow>
          (case Front_open f i tenant of
             None \<Rightarrow> None
           | Some (opener, opened) \<Rightarrow>
               (case ProxyPools_checkout (opener, None) i tenant opened (fr_pools f) of
                  (pools, pool, opener, welcome) \<Rightarrow> Some (f\<lparr>fr_pools := pools\<rparr>, pool, opener, welcome))))"

text \<open>What a cancel request with this key makes the node send, and where.\<close>

definition Front_cancel :: "Front \<Rightarrow> CancelKey \<Rightarrow> (string \<times> bytes option) option" where
  "Front_cancel f key =
     (case target key (fr_cancels f) of
        None \<Rightarrow> None
      | Some t \<Rightarrow>
          (case bt_get (fr_addresses f) (target_instance t) of
             None \<Rightarrow> None
           | Some address \<Rightarrow> Some (address, forward_cancel (target_backend t))))"

abbreviation (input) ELLIPSIS :: bytes where
  "ELLIPSIS \<equiv> [CHR 0xE2, CHR 0x80, CHR 0xA6]"

definition unknown_tenant :: "TenantId \<Rightarrow> ErrorResponse" where
  "unknown_tenant tenant =
     ErrorResponse_fatal INVALID_AUTHORIZATION_SPECIFICATION
       (''no [tenant.'' @ quoted_name ELLIPSIS @ ''] rule covers '' @ TenantId_display tenant
        @ '', and there is no [tenant.'' @ quoted_name ''*'' @ '']'')"

text \<open>
  What becomes of a client. A refused client and a cancel request have given their place back; a
  console session and a pooled session start with theirs held. A client no rule covers is told and
  gives its place back.
\<close>

datatype client_fate =
    FateRefused AcceptError
  | FateCancel "(string \<times> bytes option) option"
  | FateConsole TenantId
  | FateUnknown "bytes option"
  | FatePooled InstanceId TenantId "server_conn Pool" InstanceOpener Welcome
  | FatePanic

definition leave :: "Front \<Rightarrow> Front option" where
  "leave f = map_option (\<lambda>l. f\<lparr>fr_limit := l\<rparr>) (drop_admitted (fr_limit f))"

definition serve_session :: "(nat \<Rightarrow> nat) \<Rightarrow> TenantId \<Rightarrow> Front \<Rightarrow> client_fate \<times> Front option" where
  "serve_session roll tenant f =
     (if is_console tenant then (FateConsole tenant, Some f)
      else case Policies_route (st_policies (fr_coordinator f)) tenant roll of
        None \<Rightarrow> (FateUnknown (encode_error_response (unknown_tenant tenant)), leave f)
      | Some i \<Rightarrow>
          (case Front_checkout f i tenant of
             None \<Rightarrow> (FatePanic, leave f)
           | Some (f, pool, opener, welcome) \<Rightarrow> (FatePooled i tenant pool opener welcome, Some f)))"

definition serve_client :: "acceptor \<Rightarrow> (nat \<Rightarrow> nat) \<Rightarrow> conn \<Rightarrow> Front \<Rightarrow> client_fate \<times> Front option" where
  "serve_client A roll s f =
     (case ClientLimit_accept (A\<lparr>ac_method := ClientCredentials_method (fr_credentials f), ac_tls := fr_tls f\<rparr>) s (fr_limit f) of
        ((Inl e, _), l) \<Rightarrow> (FateRefused e, map_option (\<lambda>l. f\<lparr>fr_limit := l\<rparr>) l)
      | ((Inr a, _), None) \<Rightarrow> (FatePanic, None)
      | ((Inr a, _), Some l) \<Rightarrow>
          (let f = f\<lparr>fr_limit := l\<rparr> in
           case a of
             AcceptedCancel key \<Rightarrow> (FateCancel (Front_cancel f key), leave f)
           | AcceptedSession tenant _ \<Rightarrow> serve_session roll tenant f))"

section \<open>The console of the node\<close>

definition Front_view :: "Front \<Rightarrow> ConsoleView" where
  "Front_view f =
     \<lparr>cv_proxies = [fr_proxy f], cv_pool_mode = fr_pool_mode f,
      cv_pools = map (\<lambda>(i, tenant, stats).
          \<lparr>ps_proxy = fr_proxy f, ps_instance = i, ps_tenant = tenant,
           ps_policy = Policies_policy (st_policies (fr_coordinator f)) i tenant, ps_stats = stats\<rparr>)
        (ProxyPools_stats (fr_pools f)),
      cv_instances = map (\<lambda>(i, budget). \<lparr>is_instance = i, is_budget = budget\<rparr>) (instances (fr_coordinator f)),
      cv_table = st_table (fr_coordinator f)\<rparr>"

definition Front_set_tenant :: "string \<Rightarrow> PolicyChange \<Rightarrow> Front \<Rightarrow> (SettingError + unit) \<times> Front" where
  "Front_set_tenant tenant change f =
     (case set_tenant node_allocator (fr_release_delay f) tenant change (fr_coordinator f) of
        (st, r) \<Rightarrow> (r, f\<lparr>fr_coordinator := st\<rparr>))"

text \<open>
  A margin that shrinks the budget is answered once the instance is within it. \<open>later st\<close> are the
  states of the coordinator the wait sees after \<open>st\<close>, one after each report.
\<close>

definition Front_set_instance :: "(State \<Rightarrow> State list) \<Rightarrow> string \<Rightarrow> nat \<Rightarrow> Front \<Rightarrow> ((SettingError + unit) \<times> Front) option" where
  "Front_set_instance later i margin f =
     (case set_margin node_allocator (fr_release_delay f) (InstanceId i) margin (fr_coordinator f) of
        (st, Inl e) \<Rightarrow> Some (Inl e, f\<lparr>fr_coordinator := st\<rparr>)
      | (st, Inr waits) \<Rightarrow>
          if waits then
            (case converged (InstanceId i) (st # later st) of
               None \<Rightarrow> None
             | Some st \<Rightarrow> Some (Inr (), f\<lparr>fr_coordinator := st\<rparr>))
          else Some (Inr (), f\<lparr>fr_coordinator := st\<rparr>))"

definition Front_console :: "(State \<Rightarrow> State list) \<Rightarrow> Front console_node" where
  "Front_console later =
     \<lparr>node_view = Front_view, node_set_tenant = Front_set_tenant, node_set_instance = Front_set_instance later\<rparr>"

section \<open>Starting\<close>

fun start_observers :: "('k, 'y) client_lib_scheme \<Rightarrow> ('cert, 'key, 'roots, 'name, 'z) tls_lib_scheme
    \<Rightarrow> (InstanceId \<Rightarrow> 'cert dial \<times> nat) \<Rightarrow> ServerCredentials \<Rightarrow> 'roots ServerTls \<Rightarrow> ServeOptions \<Rightarrow> InstanceSection list
    \<Rightarrow> 'roots Observer list \<times> (InstanceId, string) btree_map \<times> State
    \<Rightarrow> ServeError + 'roots Observer list \<times> (InstanceId, string) btree_map \<times> State" where
  "start_observers L T dials credentials tls options [] acc = Inr acc"
| "start_observers L T dials credentials tls options (s # ss) (obs, addresses, st) =
     (case dials (InstanceSection_id s) of
        (d, now) \<Rightarrow>
          (case Observer_start L T d now (InstanceSection_id s) (InstanceSection_address s) credentials tls options st of
             Inl e \<Rightarrow> Inl e
           | Inr (ob, st) \<Rightarrow>
               start_observers L T dials credentials tls options ss
                 (obs @ [ob], bt_insert (InstanceSection_id s) (InstanceSection_address s) addresses, st)))"

text \<open>What the node meets outside: the libraries, the file system, the network and the listeners.\<close>

record ('k, 'cert, 'key, 'roots, 'name) outside =
  ou_lib :: "'k client_lib"
  ou_tls :: "('cert, 'key, 'roots, 'name) tls_lib"
  ou_crypto :: crypto
  ou_files :: "string \<Rightarrow> string + bytes"
  ou_dials :: "InstanceId \<Rightarrow> 'cert dial \<times> nat"
  ou_binds :: "string \<Rightarrow> bool"
  ou_worker :: bool

definition start_front :: "NodeConfig \<Rightarrow> ClusterConfig \<Rightarrow> ServeOptions \<Rightarrow> ClientCredentials \<Rightarrow> bool
    \<Rightarrow> (InstanceId, string) btree_map \<Rightarrow> State \<Rightarrow> Front" where
  "start_front node cluster options credentials tls addresses st =
     (let proxy = ProxyId (nd_listen (nc_node node)) in
      \<lparr>fr_proxy = proxy, fr_pool_mode = PoolMode_as_str (cs_pool_mode (cc_cluster cluster)),
       fr_cancels = CancelRegistry_new (ProxyTag_of proxy), fr_limit = client_limit node,
       fr_credentials = credentials, fr_tls = tls, fr_addresses = addresses, fr_node = node,
       fr_pools = ProxyPools_new, fr_coordinator = st,
       fr_wait_timeout = so_wait_timeout options, fr_release_delay = so_release_delay options\<rparr>)"

definition start_coordinator :: "('k, 'cert, 'key, 'roots, 'name) outside \<Rightarrow> NodeConfig \<Rightarrow> ClusterConfig \<Rightarrow> ServeOptions
    \<Rightarrow> ServerCredentials \<Rightarrow> 'roots ServerTls \<Rightarrow> ServeError + 'roots Observer list \<times> (InstanceId, string) btree_map \<times> State" where
  "start_coordinator W node cluster options monitor tls =
     (case ClusterConfig_policies cluster of
        None \<Rightarrow> Inl ServePanic
      | Some policies \<Rightarrow>
          (case start_observers (ou_lib W) (ou_tls W) (ou_dials W) monitor tls options (cc_instance cluster)
              ([], [], set_policies policies (InProcessCoordinator_new (ProxyId (nd_listen (nc_node node))))) of
             Inl e \<Rightarrow> Inl e
           | Inr (obs, addresses, st) \<Rightarrow>
               Inr (obs, addresses, fst (reconcile node_allocator (so_release_delay options) st))))"

definition listen_all :: "('k, 'cert, 'key, 'roots, 'name) outside \<Rightarrow> NodeConfig \<Rightarrow> ServeError option" where
  "listen_all W node =
     (case nd_metrics_listen (nc_node node) of
        Some addr \<Rightarrow> if ou_binds W addr then None else Some (ServeListen addr)
      | None \<Rightarrow> None)"

definition serve :: "('k, 'cert, 'key, 'roots, 'name) outside \<Rightarrow> NodeConfig \<Rightarrow> ClusterConfig \<Rightarrow> ServeOptions
    \<Rightarrow> ServeError + Front \<times> 'roots Observer list" where
  "serve W node cluster options =
     (if cs_pool_mode (cc_cluster cluster) = PoolSession then Inl SessionMode
      else case monitor_credentials node of
        None \<Rightarrow> Inl NoMonitor
      | Some monitor \<Rightarrow>
          (case server_tls (ou_files W) (ou_tls W) node of
             Inl e \<Rightarrow> Inl (ServeConfig e)
           | Inr tls \<Rightarrow>
               (case start_coordinator W node cluster options monitor tls of
                  Inl e \<Rightarrow> Inl e
                | Inr (obs, addresses, st) \<Rightarrow>
                    (case client_credentials (ou_crypto W) node of
                       Inl e \<Rightarrow> Inl (ServeConfig e)
                     | Inr credentials \<Rightarrow>
                         (case client_tls (ou_files W) (ou_tls W) node of
                            Inl e \<Rightarrow> Inl (ServeConfig e)
                          | Inr ctls \<Rightarrow>
                              (case listen_all W node of
                                 Some e \<Rightarrow> Inl e
                               | None \<Rightarrow>
                                   if \<not> ou_worker W then Inl ServeWorker
                                   else if \<not> ou_binds W (nd_listen (nc_node node)) then Inl (ServeListen (nd_listen (nc_node node)))
                                   else Inr (start_front node cluster options credentials (ctls \<noteq> None) addresses st, obs)))))))"

section \<open>Stopping\<close>

datatype Stage = StageServing | StageClosing | StageDraining

record Stopped =
  stopped_closed :: nat
  stopped_held :: nat

text \<open>
  The proxy's thread, over the stages it sees: it drains the pools once it was told to close and
  then to drain. A thread that could not listen, or whose node was dropped before, never does.
\<close>

definition work_drains :: "bool \<Rightarrow> Stage list \<Rightarrow> bool" where
  "work_drains bound stages \<longleftrightarrow> bound \<and> StageDraining \<in> set (dropWhile (\<lambda>stage. stage = StageServing) stages)"

text \<open>
  What stopping does once the clients have left or the grace has ended. \<open>drains\<close> says that the
  proxy's thread is still there to drain the pools; \<open>alive\<close> which waiters are still waiting. The
  grants go back only when nothing is held.
\<close>

definition shutdown :: "bool \<Rightarrow> (Slot \<Rightarrow> nat \<Rightarrow> bool) \<Rightarrow> Front \<Rightarrow> Stopped \<times> Front" where
  "shutdown drains alive f =
     (if \<not> drains then (\<lparr>stopped_closed = 0, stopped_held = ProxyPools_occupied (fr_pools f)\<rparr>, f)
      else
        (let (pools, n) = ProxyPools_drain alive (fr_pools f);
             f = f\<lparr>fr_pools := pools\<rparr>;
             held = ProxyPools_occupied pools in
         (\<lparr>stopped_closed = n, stopped_held = held\<rparr>,
          if held = 0
          then f\<lparr>fr_coordinator := withdraw_proxy node_allocator (fr_release_delay f) (fr_proxy f) (fr_coordinator f)\<rparr>
          else f)))"

text \<open>What a node that is serving answers about itself.\<close>

definition Serving_budget :: "Front \<Rightarrow> InstanceId \<Rightarrow> nat" where
  "Serving_budget f i = AllocationTable_budget (st_table (fr_coordinator f)) i"

definition Serving_pool_count :: "Front \<Rightarrow> nat" where
  "Serving_pool_count f = ProxyPools_len (fr_pools f)"

definition Serving_granted :: "Front \<Rightarrow> InstanceId \<Rightarrow> nat" where
  "Serving_granted f i = AllocationTable_granted_total (st_table (fr_coordinator f)) i"

section \<open>The budget an observer derives\<close>

lemma observed_once: "ForeignPeak_peak (ForeignPeak_observe (ForeignPeak_new window) at n) = n"
  by (simp add: ForeignPeak_observe_def ForeignPeak_new_def ForeignPeak_peak_def pop_back_while_def)

lemma first_budget:
  "tb_total (ib_budget (fst (InstanceBudget_observe (InstanceBudget_new limits margin window) at n)))
     = tb_total (TotalBudget_derive \<lparr>in_limits = limits, in_foreign_peak = n, in_margin = margin\<rparr>)"
  by (simp add: InstanceBudget_observe_def InstanceBudget_derive_def InstanceBudget_new_def Let_def observed_once)

lemma budget_total_add: "budget_total (add_instance i b st) j = (if j = i then Some (tb_total (ib_budget b)) else budget_total st j)"
  by (simp add: budget_total_def add_instance_def)

lemma Observer_start_Inr:
  assumes "Observer_start L T d now i address credentials tls options st = Inr (ob, st')"
  shows "\<exists>b. st' = add_instance i b st \<and> tb_total (ib_budget b) \<le> u32_max" "ob_instance ob = i"
  using assms
  by (auto simp: Observer_start_def Let_def InstanceBudget_observe_def derived_total_bound case_prod_unfold
      split: sum.splits prod.splits intro!: exI)


definition demo_replies :: "arrival list" where
  "demo_replies = setting_reply (Some (decimal 100)) @ setting_reply (Some (decimal 3))
     @ setting_reply (map_option decimal None) @ setting_reply (Some (decimal 5))"

definition demo_dial :: "string dial" where
  "demo_dial = \<lparr>di_reached = True, di_chain = [''db''], di_answer = Some CHR ''N'',
     di_arrivals = map Arrived (demo_startup @ [MReadyForQuery CHR ''I'']) @ demo_replies\<rparr>"

abbreviation demo_monitor_tls :: "string list ServerTls" where
  "demo_monitor_tls \<equiv> \<lparr>tls_mode = SslPrefer, tls_connector = Some AnyCertificate\<rparr>"


section \<open>The node as a transition system\<close>

text \<open>
  Every task of the node between two waits is a step: a client that comes or leaves, a setting typed
  at the console, the arbitration, a report, an observation, a convergence, what a session does with
  its pool (which may change anything of the entry but its opener) and with the registry of cancel
  keys, and stopping.
\<close>

inductive node_step :: "Front \<Rightarrow> Front \<Rightarrow> bool" where
  ns_client: "serve_client A roll s f = (fate, Some f') \<Longrightarrow> node_step f f'"
| ns_left: "leave f = Some f' \<Longrightarrow> node_step f f'"
| ns_set_tenant: "Front_set_tenant tenant change f = (r, f') \<Longrightarrow> node_step f f'"
| ns_set_margin: "node_step f (f\<lparr>fr_coordinator := fst (set_margin node_allocator (fr_release_delay f) i margin (fr_coordinator f))\<rparr>)"
| ns_reconcile: "node_step f (f\<lparr>fr_coordinator := fst (reconcile_at node_allocator (fr_release_delay f) now (fr_coordinator f))\<rparr>)"
| ns_report: "node_step f (f\<lparr>fr_coordinator := report_for (fr_proxy f) r (fr_coordinator f)\<rparr>)"
| ns_observe: "node_step f (f\<lparr>fr_coordinator := fst (observe_instance i now n (fr_coordinator f))\<rparr>)"
| ns_converge: "node_step f (f\<lparr>fr_pools := fst (ProxyPools_converge alive grants (fr_pools f))\<rparr>)"
| ns_pool: "bt_get (pp_pools (fr_pools f)) slot = Some e \<Longrightarrow> fst (pe_welcome e') = fst (pe_welcome e) \<Longrightarrow>
    node_step f (f\<lparr>fr_pools := (fr_pools f)\<lparr>pp_pools := bt_insert slot e' (pp_pools (fr_pools f))\<rparr>\<rparr>)"
| ns_cancels: "node_step f (f\<lparr>fr_cancels := r\<rparr>)"
| ns_shutdown: "node_step f (snd (shutdown drains alive f))"

inductive node_reachable :: "('k, 'cert, 'key, 'roots, 'name) outside \<Rightarrow> NodeConfig \<Rightarrow> ClusterConfig \<Rightarrow> ServeOptions \<Rightarrow> Front \<Rightarrow> bool"
  for W node cluster options where
  node_started: "serve W node cluster options = Inr (f, obs) \<Longrightarrow> node_reachable W node cluster options f"
| node_next: "node_reachable W node cluster options f \<Longrightarrow> node_step f f' \<Longrightarrow> node_reachable W node cluster options f'"

interpretation node_run: transition_system "\<lambda>f. \<exists>obs. serve W node cluster options = Inr (f, obs)" node_step
    "node_reachable W node cluster options" for W node cluster options
proof
  fix f P
  assume "node_reachable W node cluster options f" "\<And>t. \<exists>obs. serve W node cluster options = Inr (t, obs) \<Longrightarrow> P t"
    "\<And>t u. node_reachable W node cluster options t \<Longrightarrow> P t \<Longrightarrow> node_step t u \<Longrightarrow> P u"
  then show "P f" by (induction rule: node_reachable.induct) blast+
qed

text \<open>Every pool opens its connections to its own instance and as its own tenant.\<close>

definition opener_ok :: "(InstanceId, string) btree_map \<Rightarrow> NodeConfig \<Rightarrow> Slot \<Rightarrow> InstanceOpener \<Rightarrow> bool" where
  "opener_ok addresses node slot opener \<longleftrightarrow>
     bt_get addresses (fst slot) = Some (op_addr opener) \<and> op_credentials opener = server_credentials node (snd slot)
     \<and> op_application_name opener = ApplicationName_new PROXY"

definition pools_ok :: "(InstanceId, string) btree_map \<Rightarrow> NodeConfig \<Rightarrow> node_pools \<Rightarrow> bool" where
  "pools_ok addresses node pools \<longleftrightarrow> bt_wf (pp_pools pools)
     \<and> (\<forall>slot e. (slot, e) \<in> set (pp_pools pools) \<longrightarrow> opener_ok addresses node slot (fst (pe_welcome e)))"

definition rules_within :: "InstanceId set \<Rightarrow> Policies \<Rightarrow> bool" where
  "rules_within declared p \<longleftrightarrow> (\<forall>key rule. Policies_rule p key = Some rule \<longrightarrow> set (rule_instances rule) \<subseteq> declared)"

abbreviation declared :: "ClusterConfig \<Rightarrow> InstanceId set" where
  "declared cluster \<equiv> InstanceSection_id ` set (cc_instance cluster)"

definition node_ok :: "NodeConfig \<Rightarrow> ClusterConfig \<Rightarrow> Front \<Rightarrow> bool" where
  "node_ok node cluster f \<longleftrightarrow> fr_node f = node
     \<and> (\<forall>s \<in> set (cc_instance cluster). bt_get (fr_addresses f) (InstanceSection_id s) = Some (InstanceSection_address s))
     \<and> coord_reachable node_allocator (fr_release_delay f) (fr_coordinator f)
     \<and> rules_within (declared cluster) (st_policies (fr_coordinator f))
     \<and> pools_ok (fr_addresses f) node (fr_pools f)"

subsection \<open>The start\<close>

lemma start_observers_Inr:
  assumes "start_observers L T dials credentials tls options ss (obs, addresses, st) = Inr (obs', addresses', st')"
    and "distinct (map InstanceSection_id ss)"
  shows "(coord_reachable alloc delay st \<longrightarrow> coord_reachable alloc delay st') \<and> st_policies st' = st_policies st
    \<and> (\<forall>s \<in> set ss. bt_get addresses' (InstanceSection_id s) = Some (InstanceSection_address s))
    \<and> (\<forall>i. i \<notin> InstanceSection_id ` set ss \<longrightarrow> bt_get addresses' i = bt_get addresses i)
    \<and> map ob_instance obs' = map ob_instance obs @ map InstanceSection_id ss"
  using assms
proof (induction ss arbitrary: obs addresses st)
  case (Cons s ss)
  from Cons.prems(1) obtain ob st1 where
    ob: "Observer_start L T (fst (dials (InstanceSection_id s))) (snd (dials (InstanceSection_id s)))
        (InstanceSection_id s) (InstanceSection_address s) credentials tls options st = Inr (ob, st1)"
      "start_observers L T dials credentials tls options ss
        (obs @ [ob], bt_insert (InstanceSection_id s) (InstanceSection_address s) addresses, st1) = Inr (obs', addresses', st')"
    by (auto simp: case_prod_unfold split: sum.splits)
  from Observer_start_Inr [OF ob(1)] obtain b where
    b: "st1 = add_instance (InstanceSection_id s) b st" "tb_total (ib_budget b) \<le> u32_max"
      "ob_instance ob = InstanceSection_id s" by blast
  have "coord_reachable alloc delay st \<longrightarrow> coord_reachable alloc delay st1"
    using coord_next [OF _ step_add_instance [OF b(2)]] b(1) by blast
  moreover have "st_policies st1 = st_policies st" by (simp add: b(1) add_instance_def)
  ultimately show ?case
    using Cons.IH [OF ob(2)] Cons.prems(2) b(3) by (auto simp: image_iff)
qed simp

lemma serve_Inr:
  assumes "serve W node cluster options = Inr (f, obs)" "ClusterConfig_validate debug cluster = Inr ()" "bt_wf (cc_tenant cluster)"
  shows "node_ok node cluster f" "limit_live (fr_limit f) = 0" "map ob_instance obs = map InstanceSection_id (cc_instance cluster)"
proof -
  from assms(1) obtain monitor tls addresses st creds ctls where
    st: "start_coordinator W node cluster options monitor tls = Inr (obs, addresses, st)"
      "f = start_front node cluster options creds ctls addresses st"
    by (auto simp: serve_def split: if_splits option.splits sum.splits)
  from st(1) obtain policies st1 where
    p: "ClusterConfig_policies cluster = Some policies"
      "start_observers (ou_lib W) (ou_tls W) (ou_dials W) monitor tls options (cc_instance cluster)
        ([], [], set_policies policies (InProcessCoordinator_new (ProxyId (nd_listen (nc_node node))))) = Inr (obs, addresses, st1)"
      "st = fst (reconcile node_allocator (so_release_delay options) st1)"
    by (auto simp: start_coordinator_def split: option.splits sum.splits)
  note valid = assms(2) [unfolded cluster_accepted]
  have "distinct (map InstanceSection_id (cc_instance cluster))"
    using valid by (auto simp: instances_ok_def distinct_map inj_on_def InstanceSection_id_def)
  note o = start_observers_Inr [OF p(2) this, of node_allocator "so_release_delay options"]
  have reach: "coord_reachable node_allocator (so_release_delay options) st1"
    using o coord_next [OF coord_start step_set_policies] by blast
  then have "coord_reachable node_allocator (so_release_delay options) st"
    unfolding p(3) by (rule coord_next [OF _ step_reconcile])
  moreover have "st_policies st = policies"
    using node.reconcile_frame(3) [OF node.coord_inv_reachable [OF reach]] o by (simp add: p(3) set_policies_def)
  moreover have "rules_within (declared cluster) policies"
  proof -
    from config_policies [OF assms(2,3)] p(1) have
      rules: "\<And>key. Policies_rule policies key = map_option rule_of (bt_get (cc_tenant cluster) key)" by auto
    from valid show ?thesis
      by (fastforce simp: rules_within_def rules rule_of_def tenant_section_ok_def InstanceSection_id_def dest: bt_get_SomeD)
  qed
  ultimately show "node_ok node cluster f"
    using o by (simp add: node_ok_def st(2) start_front_def Let_def pools_ok_def ProxyPools_new_def)
  show "limit_live (fr_limit f) = 0" "map ob_instance obs = map InstanceSection_id (cc_instance cluster)"
    using o by (simp_all add: st(2) start_front_def Let_def client_limit_def ClientLimit_new_def)
qed

subsection \<open>The steps\<close>

lemma node_okD:
  assumes "node_ok node cluster f"
  shows "fr_node f = node"
    "\<And>s. s \<in> set (cc_instance cluster) \<Longrightarrow> bt_get (fr_addresses f) (InstanceSection_id s) = Some (InstanceSection_address s)"
    "coord_reachable node_allocator (fr_release_delay f) (fr_coordinator f)"
    "rules_within (declared cluster) (st_policies (fr_coordinator f))" "pools_ok (fr_addresses f) node (fr_pools f)"
    "coord_inv (fr_coordinator f)"
  using assms node.coord_inv_reachable by (auto simp: node_ok_def)

lemma node_ok_coordinator:
  assumes "node_ok node cluster f" "coord_reachable node_allocator (fr_release_delay f) st"
    and "rules_within (declared cluster) (st_policies st)"
  shows "node_ok node cluster (f\<lparr>fr_coordinator := st\<rparr>)"
  using assms by (auto simp: node_ok_def)

lemma node_ok_coord_step:
  assumes "node_ok node cluster f" "coord_step node_allocator (fr_release_delay f) (fr_coordinator f) st"
    and "st_policies st = st_policies (fr_coordinator f)"
  shows "node_ok node cluster (f\<lparr>fr_coordinator := st\<rparr>)"
  using node_ok_coordinator [OF assms(1) coord_next [OF node_okD(3) [OF assms(1)] assms(2)]] node_okD(4) [OF assms(1)] assms(3)
  by simp

lemma change_tenant_instances:
  assumes "Policies_change_tenant p tenant change budget = Inr p'" "rules_within I p"
  shows "rules_within I p'"
  using assms
  by (auto simp: change_tenant_cases Let_def check_budgets_Inr rules_within_def Policies_rule_def
      split: option.splits if_splits)

lemma set_tenant_policies:
  assumes "coord_inv st"
  shows "st_policies (fst (set_tenant node_allocator delay tenant change st)) =
    (case Policies_change_tenant (st_policies st) tenant change (budget_total st) of Inl _ \<Rightarrow> st_policies st | Inr p \<Rightarrow> p)"
  using node.reconcile_frame(3) [OF coord_inv_set_policies [OF assms]]
  by (simp add: set_tenant_def split: sum.split)

lemma set_margin_policies:
  assumes "coord_inv st"
  shows "st_policies (fst (set_margin node_allocator delay i margin st)) = st_policies st"
proof (cases "bt_get (st_budgets st) i")
  case (Some b)
  let ?st = "st\<lparr>st_budgets := bt_insert i (fst (InstanceBudget_set_margin b margin)) (st_budgets st)\<rparr>"
  have "coord_inv ?st"
    by (rule coord_inv_budget [OF assms]) (simp add: InstanceBudget_set_margin_def derived_total_bound)
  from node.reconcile_frame(3) [OF this] show ?thesis
    by (simp add: set_margin_def Some Let_def case_prod_unfold)
qed (simp add: set_margin_def)

lemma reconcile_at_policies:
  "coord_inv st \<Longrightarrow> st_policies (fst (reconcile_at node_allocator delay now st)) = st_policies st"
  using node.reconcile_frame(3) [OF coord_inv_set_now] by (simp add: reconcile_at_def)

lemma withdraw_policies:
  "coord_inv st \<Longrightarrow> st_policies (withdraw_proxy node_allocator delay proxy st) = st_policies st"
  using node.reconcile_frame(3) [OF coord_inv_mark_departed, where st1 = st and proxy1 = proxy]
  by (simp add: withdraw_proxy_def mark_departed_def split: option.splits)

lemma other_policies:
  "st_policies (report_for proxy r st) = st_policies st" "st_policies (fst (observe_instance i now n st)) = st_policies st"
  by (simp_all add: report_for_def observe_instance_def Let_def case_prod_unfold split: option.split)

lemma pools_ok_converge: "pools_ok a n pools \<Longrightarrow> pools_ok a n (fst (ProxyPools_converge alive grants pools))"
proof -
  assume ok: "pools_ok a n pools"
  have "pp_pools (fst (ProxyPools_converge alive grants pools))
      = bt_retain (entry_kept grants) (fst (converge_pools alive grants (pp_pools pools)))"
    by (simp add: ProxyPools_converge_def Let_def case_prod_unfold)
  with ok show ?thesis
    unfolding pools_ok_def by (simp add: converge_pools_map) (auto simp: bt_retain_def bt_map_def)
qed

lemma pools_ok_insert:
  "pools_ok a n pools \<Longrightarrow> opener_ok a n slot (fst (pe_welcome e)) \<Longrightarrow>
    pools_ok a n (pools\<lparr>pp_pools := bt_insert slot e (pp_pools pools)\<rparr>)"
  by (auto simp: pools_ok_def set_bt_insert)

lemma pools_ok_get: "pools_ok a n pools \<Longrightarrow> bt_get (pp_pools pools) slot = Some e \<Longrightarrow> opener_ok a n slot (fst (pe_welcome e))"
  unfolding pools_ok_def by (blast dest: bt_get_SomeD)

lemma node_ok_pools: "node_ok node cluster f \<Longrightarrow> pools_ok (fr_addresses f) node pools \<Longrightarrow> node_ok node cluster (f\<lparr>fr_pools := pools\<rparr>)"
  by (auto simp: node_ok_def)

lemma Front_checkout_ok:
  assumes "node_ok node cluster f" "Front_checkout f i tenant = Some (f', pool, opener, welcome)"
  shows "node_ok node cluster f'" "opener_ok (fr_addresses f) node (i, tenant) opener"
proof -
  note pools = node_okD(5) [OF assms(1)]
  show o: "opener_ok (fr_addresses f) node (i, tenant) opener"
    using assms(2) pools_ok_get [OF pools, of "(i, tenant)"] node_okD(1) [OF assms(1)]
    by (auto simp: Front_checkout_def Front_open_def ProxyPools_checkout_def bt_get_or_def opener_ok_def Let_def split: option.splits)
  have "\<exists>e. f' = f\<lparr>fr_pools := (fr_pools f)\<lparr>pp_pools := bt_insert (i, tenant) e (pp_pools (fr_pools f))\<rparr>\<rparr> \<and> fst (pe_welcome e) = opener"
    using assms(2)
    by (auto simp: Front_checkout_def ProxyPools_checkout_def bt_get_or_def Let_def split: option.splits)
  then show "node_ok node cluster f'"
    using node_ok_pools [OF assms(1)] pools_ok_insert [OF pools] o by auto
qed

lemma serve_session_ok:
  assumes "node_ok node cluster f" "serve_session roll tenant f = (fate, Some f')"
  shows "node_ok node cluster f'"
  using assms Front_checkout_ok(1) [OF assms(1)]
  by (auto simp: serve_session_def leave_def node_ok_def split: if_splits option.splits)

lemma serve_client_ok:
  assumes "node_ok node cluster f" "serve_client A roll s f = (fate, Some f')"
  shows "node_ok node cluster f'"
proof -
  have limit: "node_ok node cluster (f\<lparr>fr_limit := l\<rparr>)" for l using assms(1) by (simp add: node_ok_def)
  then have left: "leave (f\<lparr>fr_limit := l\<rparr>) = Some f' \<Longrightarrow> node_ok node cluster f'" for l
    by (auto simp: leave_def)
  show ?thesis
    using assms(2) limit left serve_session_ok [OF limit]
    by (auto simp: serve_client_def Let_def split: prod.splits sum.splits option.splits Accepted.splits)
qed

lemma node_ok_shutdown: "node_ok node cluster f \<Longrightarrow> node_ok node cluster (snd (shutdown drains alive f))"
proof -
  assume ok: "node_ok node cluster f"
  let ?f = "f\<lparr>fr_pools := fst (ProxyPools_drain alive (fr_pools f))\<rparr>"
  have f: "node_ok node cluster ?f"
    by (rule node_ok_pools [OF ok]) (simp add: ProxyPools_drain_def pools_ok_converge node_okD(5) [OF ok])
  have "coord_reachable node_allocator (fr_release_delay f) (withdraw_proxy node_allocator (fr_release_delay f) (fr_proxy f) (fr_coordinator f))"
    unfolding withdraw_proxy_def
    by (rule coord_next [OF coord_next [OF node_okD(3) [OF ok] step_mark_departed] step_reconcile])
  with node_ok_coordinator [OF f] node_okD(4) [OF ok] withdraw_policies [OF node_okD(6) [OF ok]] ok f show ?thesis
    by (simp add: shutdown_def Let_def case_prod_unfold)
qed

lemma node_ok_set_tenant:
  assumes "node_ok node cluster f"
  shows "node_ok node cluster (f\<lparr>fr_coordinator := fst (set_tenant node_allocator (fr_release_delay f) tenant change (fr_coordinator f))\<rparr>)"
  using change_tenant_instances [OF _ node_okD(4) [OF assms]] node_okD(4) [OF assms]
  by (intro node_ok_coordinator [OF assms coord_next [OF node_okD(3) [OF assms] step_set_tenant]])
    (auto simp: set_tenant_policies [OF node_okD(6) [OF assms]] split: sum.split)

lemma node_ok_step:
  assumes ok: "node_ok node cluster f" and "node_step f f'"
  shows "node_ok node cluster f'"
  using assms(2)
proof cases
  case (ns_client A roll s fate)
  then show ?thesis using serve_client_ok [OF ok] by blast
next
  case ns_left
  with ok show ?thesis by (auto simp: leave_def node_ok_def)
next
  case (ns_set_tenant tenant change r)
  with node_ok_set_tenant [OF ok, of tenant change] show ?thesis
    by (auto simp: Front_set_tenant_def split: prod.splits)
next
  case (ns_set_margin i margin)
  show ?thesis unfolding ns_set_margin
    by (rule node_ok_coord_step [OF ok step_set_margin set_margin_policies [OF node_okD(6) [OF ok]]])
next
  case (ns_reconcile now)
  show ?thesis unfolding ns_reconcile
    by (rule node_ok_coord_step [OF ok step_reconcile_at reconcile_at_policies [OF node_okD(6) [OF ok]]])
next
  case (ns_report r)
  show ?thesis unfolding ns_report by (rule node_ok_coord_step [OF ok step_report other_policies(1)])
next
  case (ns_observe i now n)
  show ?thesis unfolding ns_observe by (rule node_ok_coord_step [OF ok step_observe other_policies(2)])
next
  case (ns_converge alive grants)
  show ?thesis unfolding ns_converge by (rule node_ok_pools [OF ok pools_ok_converge [OF node_okD(5) [OF ok]]])
next
  case (ns_pool slot e e')
  from pools_ok_get [OF node_okD(5) [OF ok] ns_pool(2)] ns_pool(1,3) show ?thesis
    by (simp add: node_ok_pools [OF ok] pools_ok_insert [OF node_okD(5) [OF ok]])
next
  case (ns_cancels r)
  with ok show ?thesis by (simp add: node_ok_def)
next
  case (ns_shutdown drains alive)
  show ?thesis unfolding ns_shutdown by (rule node_ok_shutdown [OF ok])
qed

lemma node_ok_reachable:
  assumes "node_reachable W node cluster options f" "ClusterConfig_validate debug cluster = Inr ()" "bt_wf (cc_tenant cluster)"
  shows "node_ok node cluster f"
  using assms(1) by (rule node_run.invariant) (use serve_Inr(1) [OF _ assms(2,3)] node_ok_step in \<open>blast+\<close>)

section \<open>Properties\<close>

text \<open>A node that starts from a configuration of two instances.\<close>

definition demo_outside :: "(bytes, string, string, string list, string) outside" where
  "demo_outside = \<lparr>ou_lib = demo_lib, ou_tls = demo_tls, ou_crypto = demo_crypto, 
     ou_files = (\<lambda>path. if path = ''node.toml'' \<or> path = ''cluster.toml'' then Inr path else Inl ''no such file''),
     ou_dials = (\<lambda>_. (demo_dial, 0)), ou_binds = (\<lambda>_. True), ou_worker = True\<rparr>"

definition demo_config :: NodeConfig where
  "demo_config = demo_node_config\<lparr>nc_monitor := Some \<lparr>mon_user = ''watch'', mon_database = default_monitor_database\<rparr>,
     nc_server := [(''watch'', ''pw'')]\<rparr>"

definition demo_front :: Front where
  "demo_front = fst (projr (serve demo_outside demo_config demo_cluster ServeOptions_default))"

lemma demo_served: "serve demo_outside demo_config demo_cluster ServeOptions_default
    = Inr (demo_front, snd (projr (serve demo_outside demo_config demo_cluster ServeOptions_default)))"
proof -
  have "\<not> isl (serve demo_outside demo_config demo_cluster ServeOptions_default)" by code_simp
  then show ?thesis
    by (cases "serve demo_outside demo_config demo_cluster ServeOptions_default") (simp_all add: demo_front_def)
qed

lemma demo_reaches: "node_reachable demo_outside demo_config demo_cluster ServeOptions_default demo_front"
  using demo_served by (rule node_started)

lemma demo_cluster_valid: "ClusterConfig_validate decimal demo_cluster = Inr ()" "bt_wf (cc_tenant demo_cluster)"
  by code_simp+

lemma routed_declared:
  assumes "Policies_route p tenant roll = Some i" "rules_within I p"
  shows "i \<in> I"
proof -
  from assms(1) obtain rule where "Policies_resolve p tenant = Some rule" "i \<in> set (rule_instances rule)"
    by (auto simp: Policies_route_def Let_def dest: route_loop_mem split: option.splits if_splits)
  with resolve_rule [OF this(1)] assms(2) show ?thesis by (auto simp: rules_within_def)
qed

lemma checkout_defined:
  assumes "node_ok node cluster f" "i \<in> declared cluster"
  shows "Front_checkout f i tenant \<noteq> None"
  using assms node_okD(2) [OF assms(1)]
  by (auto simp: Front_checkout_def Front_open_def split: option.splits prod.splits)

lemma accept_place:
  assumes "ClientLimit_accept A s l = ((Inr a, s'), l')"
  shows "\<exists>l2. l' = Some l2 \<and> 0 < limit_live l2"
  using accept_counts_exactly [of A s l] assms by auto

lemma leave_defined: "0 < limit_live (fr_limit f) \<Longrightarrow> leave f \<noteq> None"
  by (simp add: leave_def drop_admitted_def)

lemma serve_session_no_panic:
  assumes "node_ok node cluster f" "leave f \<noteq> None"
  shows "snd (serve_session roll tenant f) \<noteq> None \<and> fst (serve_session roll tenant f) \<noteq> FatePanic"
proof (cases "Policies_route (st_policies (fr_coordinator f)) tenant roll")
  case (Some i)
  with checkout_defined [OF assms(1) routed_declared [OF Some node_okD(4) [OF assms(1)]], of tenant] show ?thesis
    by (auto simp: serve_session_def)
qed (use assms(2) in \<open>auto simp: serve_session_def\<close>)

lemma serve_session_pooled:
  assumes "fst (serve_session roll t f) = FatePooled i tenant pool opener welcome"
  shows "tenant = t \<and> \<not> is_console tenant \<and> Policies_route (st_policies (fr_coordinator f)) tenant roll = Some i
    \<and> (\<exists>f'. Front_checkout f i tenant = Some (f', pool, opener, welcome))"
  using assms by (auto simp: serve_session_def split: if_splits option.splits)

lemma serve_client_pooled:
  assumes "fst (serve_client A roll s f) = FatePooled i tenant pool opener welcome"
  shows "\<exists>l t. fst (serve_session roll t (f\<lparr>fr_limit := l\<rparr>)) = FatePooled i tenant pool opener welcome"
  using assms by (force simp: serve_client_def Let_def split: prod.splits sum.splits option.splits Accepted.splits)



text \<open>
  Every tenant is served as itself: in every state a node started from an accepted configuration
  reaches, a client that is given a pool belongs to the pool's own tenant, on an instance of a rule
  that covers it; and the connections of that pool are opened to the address of that instance, with
  the tenant's own user, database and password.
\<close>

lemma served_as_itself:
  assumes "node_reachable W node cluster options f" "ClusterConfig_validate debug cluster = Inr ()" "bt_wf (cc_tenant cluster)"
    and "fst (serve_client A roll s f) = FatePooled i tenant pool opener welcome"
  shows "\<not> is_console tenant
    \<and> (\<exists>rule. Policies_resolve (st_policies (fr_coordinator f)) tenant = Some rule \<and> i \<in> set (rule_instances rule))
    \<and> (\<exists>section \<in> set (cc_instance cluster). i = InstanceSection_id section \<and> op_addr opener = InstanceSection_address section)
    \<and> op_credentials opener = \<lparr>sc_login = TenantId_user tenant, sc_database = TenantId_database tenant,
        sc_secret = bt_get (nc_server node) (TenantId_user tenant)\<rparr>"
proof -
  note ok = node_ok_reachable [OF assms(1-3)]
  from serve_client_pooled [OF assms(4)] obtain l t where
    s: "fst (serve_session roll t (f\<lparr>fr_limit := l\<rparr>)) = FatePooled i tenant pool opener welcome" by blast
  let ?f = "f\<lparr>fr_limit := l\<rparr>"
  have f: "node_ok node cluster ?f" using ok by (auto simp: node_ok_def)
  from serve_session_pooled [OF s] obtain f' where c: "\<not> is_console tenant"
    "Policies_route (st_policies (fr_coordinator f)) tenant roll = Some i"
    "Front_checkout ?f i tenant = Some (f', pool, opener, welcome)" by auto
  from c(2) have rule: "\<exists>rule. Policies_resolve (st_policies (fr_coordinator f)) tenant = Some rule \<and> i \<in> set (rule_instances rule)"
    by (auto simp: Policies_route_def Let_def dest: route_loop_mem split: option.splits if_splits)
  from routed_declared [OF c(2) node_okD(4) [OF ok]] obtain sec where
    sec: "sec \<in> set (cc_instance cluster)" "i = InstanceSection_id sec" by auto
  from Front_checkout_ok(2) [OF f c(3)] sec node_okD(2) [OF ok sec(1)] c(1) rule show ?thesis
    by (auto simp: opener_ok_def server_credentials_def NodeConfig_password_def)
qed

lemma demo_front_parts:
  "(fr_credentials demo_front, fr_limit demo_front, fr_tls demo_front,
     Policies_route (st_policies (fr_coordinator demo_front)) (TenantId ''ann'' ''ann'') (\<lambda>_. 0))
   = (ClientCredentials_insert ''ann'' (ScramSha256 demo_verifier) ClientCredentials_new, ClientLimit_new 10, False,
      Some (InstanceId ''db2:5433''))"
  by code_simp

lemma demo_accepted:
  "fst (fst (ClientLimit_accept (demo_acceptor\<lparr>ac_method := ClientCredentials_method (fr_credentials demo_front), ac_tls := fr_tls demo_front\<rparr>)
     (Session.demo_conn ''ann'') (fr_limit demo_front)))
   = Inr (AcceptedSession (TenantId ''ann'' ''ann'') \<lparr>version = V3_0, parameters = [(''user'', ''ann'')]\<rparr>)"
proof -
  let ?creds = "ClientCredentials_insert ''ann'' (ScramSha256 demo_verifier) ClientCredentials_new"
  let ?A = "demo_acceptor\<lparr>ac_method := ClientCredentials_method ?creds, ac_tls := False\<rparr>"
  have "fst (accept ?A (Session.demo_conn ''ann''))
      = Inr (AcceptedSession (TenantId ''ann'' ''ann'') \<lparr>version = V3_0, parameters = [(''user'', ''ann'')]\<rparr>)" by code_simp
  then show ?thesis
    using demo_front_parts
    by (cases "accept ?A (Session.demo_conn ''ann'')") (simp add: ClientLimit_accept_def admit_def ClientLimit_new_def)
qed

lemma demo_pooled:
  "\<exists>i pool opener w. fst (serve_client demo_acceptor (\<lambda>_. 0) (Session.demo_conn ''ann'') demo_front)
      = FatePooled i (TenantId ''ann'' ''ann'') pool opener w"
proof -
  let ?A = "demo_acceptor\<lparr>ac_method := ClientCredentials_method (fr_credentials demo_front), ac_tls := fr_tls demo_front\<rparr>"
  let ?t = "TenantId ''ann'' ''ann''" and ?i = "InstanceId ''db2:5433''"
  note ok = node_ok_reachable [OF demo_reaches demo_cluster_valid]
  obtain a s' l where acc: "ClientLimit_accept ?A (Session.demo_conn ''ann'') (fr_limit demo_front) = ((Inr a, s'), l)"
    "a = AcceptedSession ?t \<lparr>version = V3_0, parameters = [(''user'', ''ann'')]\<rparr>"
    using demo_accepted by (metis prod.collapse)
  from accept_place [OF acc(1)] obtain l2 where l: "l = Some l2" by blast
  have "node_ok demo_config demo_cluster (demo_front\<lparr>fr_limit := l2\<rparr>)" using ok by (auto simp: node_ok_def)
  moreover have "?i \<in> declared demo_cluster" by (simp add: demo_cluster_def InstanceSection_id_def)
  ultimately obtain f' pool opener w where
    c: "Front_checkout (demo_front\<lparr>fr_limit := l2\<rparr>) ?i ?t = Some (f', pool, opener, w)"
    using checkout_defined [of demo_config demo_cluster "demo_front\<lparr>fr_limit := l2\<rparr>" ?i ?t] by auto
  have "\<not> is_console ?t" by (simp add: is_console_def DATABASE_def)
  moreover have "Policies_route (st_policies (fr_coordinator demo_front)) ?t (\<lambda>_. 0) = Some ?i"
    using demo_front_parts by simp
  ultimately have "fst (serve_client demo_acceptor (\<lambda>_. 0) (Session.demo_conn ''ann'') demo_front)
      = FatePooled ?i ?t pool opener w"
    using c by (simp add: serve_client_def acc l serve_session_def Let_def)
  then show ?thesis by blast
qed

text \<open>
  C10: A tenant setting is in force when it is answered. Typed at the console of a running node, a
  \<open>SET TENANT\<close> the policies accept is answered as done with the rule changed and the grants already
  recomputed from it; one they refuse is answered with the refusal and changes nothing.
\<close>

theorem setting_in_force:
  assumes "node_reachable W node cluster options f" "ClusterConfig_validate debug cluster = Inr ()" "bt_wf (cc_tenant cluster)"
    and "command_ok (SetTenant tenant settings)"
  shows "case Policies_change_tenant (st_policies (fr_coordinator f)) tenant (change_of settings) (budget_total (fr_coordinator f)) of
      Inl e \<Rightarrow> answer (Front_console later) (print_command (SetTenant tenant settings)) f
        = Some (encode_error_response (refusal e), f)
    | Inr changed \<Rightarrow> (\<exists>f'. answer (Front_console later) (print_command (SetTenant tenant settings)) f
          = Some (encode_command_complete SET_TAG, f')
        \<and> st_policies (fr_coordinator f') = changed
        \<and> st_table (fr_coordinator f') = round_table node_allocator (fr_release_delay f) ((fr_coordinator f)\<lparr>st_policies := changed\<rparr>))"
proof -
  note inv = node_okD(6) [OF node_ok_reachable [OF assms(1-3)]]
  have a: "answer (Front_console later) (print_command (SetTenant tenant settings)) f
      = (case set_tenant node_allocator (fr_release_delay f) tenant (change_of settings) (fr_coordinator f) of
           (st, r) \<Rightarrow> Some (written r, f\<lparr>fr_coordinator := st\<rparr>))"
    by (simp add: answer_def parse_printed [OF assms(4)] Front_console_def Front_set_tenant_def split: prod.split)
  show ?thesis
    using node.reconcile_frame(1,3) [OF coord_inv_set_policies [OF inv]]
    by (simp add: a set_tenant_def written_def split: sum.split)
qed

theorem setting_in_force_witness:
  "\<exists>out f'. answer (Front_console (\<lambda>_. [])) (print_command (SetTenant ''*'' \<lparr>set_min = None, set_max = Some 40, set_weight = None\<rparr>)) demo_front
      = Some (out, f')
    \<and> Policies_rule (st_policies (fr_coordinator f')) ''*''
      = map_option (\<lambda>rule. rule\<lparr>rule_policy := (rule_policy rule)\<lparr>policy_max := 40\<rparr>\<rparr>) (Policies_rule (st_policies (fr_coordinator demo_front)) ''*'')"
proof -
  let ?s = "\<lparr>set_min = None, set_max = Some 40, set_weight = None\<rparr>"
  let ?c = "Policies_change_tenant (st_policies (fr_coordinator demo_front)) ''*'' (change_of ?s) (budget_total (fr_coordinator demo_front))"
  have ok: "command_ok (SetTenant ''*'' ?s)" by code_simp
  have "map_sum id (\<lambda>p. Policies_rule p ''*'') ?c = Inr (map_option (\<lambda>rule. rule\<lparr>rule_policy := (rule_policy rule)\<lparr>policy_max := 40\<rparr>\<rparr>)
      (Policies_rule (st_policies (fr_coordinator demo_front)) ''*''))" by code_simp
  with setting_in_force [OF demo_reaches demo_cluster_valid ok, of "\<lambda>_. []"] show ?thesis
    by (cases ?c) auto
qed

text \<open>
  A margin is in force when it is answered. A \<open>SET INSTANCE\<close> typed at the console is answered
  with a refusal that changes nothing, or as done: then the margin is the instance's, and if its
  budget shrank the instance is within it at the moment of the answer, so no connection the margin
  was meant to free is still held.
\<close>

theorem margin_in_force:
  assumes "command_ok (SetInstance i margin)"
    and "answer (Front_console later) (print_command (SetInstance i margin)) f = Some (out, f')"
  shows "(\<exists>e. out = encode_error_response (refusal e) \<and> f' = f)
    \<or> out = encode_command_complete SET_TAG
      \<and> (\<exists>st waits. set_margin node_allocator (fr_release_delay f) (InstanceId i) margin (fr_coordinator f) = (st, Inr waits)
         \<and> (if waits then fr_coordinator f' \<in> set (st # later st) \<and> within_budget (fr_coordinator f') (InstanceId i)
            else fr_coordinator f' = st))"
proof -
  from assms(2) have a: "(case Front_set_instance later i margin f of None \<Rightarrow> None | Some (r, f') \<Rightarrow> Some (written r, f')) = Some (out, f')"
    by (simp add: answer_def parse_printed [OF assms(1)] Front_console_def)
  obtain st r where s: "set_margin node_allocator (fr_release_delay f) (InstanceId i) margin (fr_coordinator f) = (st, r)" by fastforce
  show ?thesis
  proof (cases r)
    case (Inl e)
    with s have "st = fr_coordinator f" by (auto simp: set_margin_def Let_def split: option.splits if_splits prod.splits)
    with a s Inl show ?thesis by (auto simp: Front_set_instance_def written_def)
  next
    case (Inr waits)
    with a s show ?thesis
      by (auto simp: Front_set_instance_def written_def split: if_splits option.splits dest!: converged_within)
  qed
qed

theorem margin_in_force_witness:
  "\<exists>out f'. answer (Front_console (\<lambda>_. [])) (print_command (SetInstance ''db1'' 20)) demo_front = Some (out, f')
    \<and> out = encode_command_complete SET_TAG \<and> within_budget (fr_coordinator f') (InstanceId ''db1'')"
proof -
  let ?a = "answer (Front_console (\<lambda>_. [])) (print_command (SetInstance ''db1'' 20)) demo_front"
  let ?m = "set_margin node_allocator (fr_release_delay demo_front) (InstanceId ''db1'') 20 (fr_coordinator demo_front)"
  have ok: "command_ok (SetInstance ''db1'' 20)" by code_simp
  have m: "snd ?m = Inr True \<and> within_budget (fst ?m) (InstanceId ''db1'')" by code_simp
  then have "?a = Some (encode_command_complete SET_TAG, demo_front\<lparr>fr_coordinator := fst ?m\<rparr>)"
    by (cases ?m) (simp add: answer_def parse_printed [OF ok] Front_console_def Front_set_instance_def written_def)
  note a = this
  have "encode_command_complete SET_TAG \<noteq> None" "BackendTag_byte CommandComplete \<noteq> BackendTag_byte ErrorResponseTag" by code_simp+
  then have "encode_command_complete SET_TAG \<noteq> encode_error_response (refusal e)" for e
    by (cases "encode_error_response (refusal e)")
      (auto simp: encode_command_complete_def encode_error_response_def encode_frame_def split: if_splits option.splits)
  with margin_in_force [OF ok a] a m show ?thesis by (cases ?m) auto
qed

lemma drained_pool: "pl_idle (fst (Pool_converge alive 0 p)) = []"
proof -
  obtain p1 out where r: "retire 0 p = (p1, out)" by fastforce
  show ?thesis
  proof (rule retire_spec [OF r])
    fix i k
    assume p1: "p1 = p\<lparr>pl_slots := 0, pl_retiring := [], pl_idle := i, pl_closing := pl_closing p + length k\<rparr>"
      "\<not> Pool_over_grant p1 \<or> i = []"
    let ?q = "p1\<lparr>pl_closing := pl_closing p1 - length out\<rparr>"
    have idle: "i = []" using p1 by (auto simp: Pool_over_grant_def)
    then have "vec_pop (pl_idle ?q) = None" "pl_slots ?q = 0" using p1(1) by (simp_all add: vec_pop_def)
    then have "hand_out alive ?q = (?q, [])" by (simp add: hand_out.simps [of alive ?q] split: list.split)
    with r p1(1) idle show ?thesis by (simp add: Pool_converge_def closed_def Let_def)
  qed
qed

lemma drained_idle:
  assumes "(slot, e) \<in> set (pp_pools (fst (ProxyPools_drain alive pools)))"
  shows "pl_idle (pe_pool e) = []"
proof -
  have "GrantSet_get GrantSet_default i t = 0" for i t by (simp add: GrantSet_get_def GrantSet_default_def bt_get_or_def)
  with assms show ?thesis
    by (auto simp: ProxyPools_drain_def ProxyPools_converge_def Let_def case_prod_unfold converge_pools_map
        bt_retain_def bt_map_def drained_pool)
qed

lemma withdrawn_grants:
  assumes "coord_inv st"
  shows "gr (withdraw_proxy node_allocator delay proxy st) proxy slot = 0"
proof (cases "bt_contains (st_proxies st) proxy")
  case True
  let ?st = "mark_departed proxy st"
  have inv: "coord_inv ?st" by (rule coord_inv_mark_departed [OF assms])
  have "ps_departed (proxy_at ?st proxy)" using True by (auto simp: mark_departed_def)
  from node.reconcile_unserved [OF inv served_departed [OF this]] show ?thesis
    by (simp add: withdraw_proxy_def node.reconcile_frame(1) [OF inv])
next
  case False
  let ?st' = "fst (reconcile node_allocator delay st)"
  have w: "withdraw_proxy node_allocator delay proxy st = ?st'"
    using False by (simp add: withdraw_proxy_def mark_departed_def)
  have "\<not> bt_contains (st_proxies ?st') proxy"
    using False arg_cong [OF node.reconcile_frame(4) [OF assms, of WeightedMaxMinFair_default delay], of set]
    by (simp add: bt_get_None_iff)
  with coord_invD(7) [OF node.reconcile_inv [OF assms], where proxy = proxy and slot = slot] show ?thesis
    unfolding w by blast
qed

text \<open>
  C9: A stopped node gives its grants back only when it holds nothing. Stopping leaves no idle
  connection open and tells exactly what is still held; only if that is nothing are the node's
  grants taken back, all of them, and otherwise every slot stays counted as it was.
\<close>

theorem shutdown_gives_back:
  assumes "node_reachable W node cluster options f" "ClusterConfig_validate debug cluster = Inr ()" "bt_wf (cc_tenant cluster)"
    and "shutdown True alive f = (stopped, f')"
  shows "stopped_held stopped = ProxyPools_occupied (fr_pools f')
    \<and> (\<forall>slot e. (slot, e) \<in> set (pp_pools (fr_pools f')) \<longrightarrow> pl_idle (pe_pool e) = [])
    \<and> (if stopped_held stopped = 0 then \<forall>slot. gr (fr_coordinator f') (fr_proxy f) slot = 0
       else fr_coordinator f' = fr_coordinator f)"
proof -
  note inv = node_okD(6) [OF node_ok_reachable [OF assms(1-3)]]
  let ?d = "ProxyPools_drain alive (fr_pools f)"
  from assms(4) have s: "stopped = \<lparr>stopped_closed = snd ?d, stopped_held = ProxyPools_occupied (fst ?d)\<rparr>"
    "fr_pools f' = fst ?d"
    "fr_coordinator f' = (if ProxyPools_occupied (fst ?d) = 0
       then withdraw_proxy node_allocator (fr_release_delay f) (fr_proxy f) (fr_coordinator f) else fr_coordinator f)"
    by (auto simp: shutdown_def Let_def case_prod_unfold split: if_splits)
  show ?thesis using drained_idle withdrawn_grants [OF inv] by (auto simp: s)
qed

theorem shutdown_gives_back_witness:
  "\<exists>stopped f'. shutdown True (\<lambda>_ _. False) demo_front = (stopped, f') \<and> stopped_held stopped = 0
    \<and> (\<forall>slot. gr (fr_coordinator f') (fr_proxy demo_front) slot = 0)"
proof -
  obtain stopped f' where s: "shutdown True (\<lambda>_ _. False) demo_front = (stopped, f')" by fastforce
  have "stopped_held (fst (shutdown True (\<lambda>_ _. False) demo_front)) = 0" by code_simp
  with shutdown_gives_back [OF demo_reaches demo_cluster_valid s] s show ?thesis by auto
qed

end
