(* ===== verification/Program.thy ===== *)
theory Program
  imports Node
begin

text \<open>
  The program (\<open>crates/node/src/main.rs\<close>): it reads its two files, starts the node they describe, waits
  for a signal and stops. The TOML library is the pair of parameters \<open>pg_toml_node\<close> and
  \<open>pg_toml_cluster\<close>; a table of a file becomes a \<open>BTreeMap\<close>, so its keys are in order and distinct.
\<close>

record Args =
  ar_config :: string
  ar_cluster :: string

datatype MainError =
    CannotRead string string
  | Reading string ConfigError
  | MainServe ServeError
  | MainSignal string

record ('k, 'cert, 'key, 'roots, 'name) program =
  pg_outside :: "('k, 'cert, 'key, 'roots, 'name) outside"
  pg_toml_node :: "bytes \<Rightarrow> string + NodeConfig"
  pg_toml_cluster :: "bytes \<Rightarrow> string + ClusterConfig"
  pg_debug :: "nat \<Rightarrow> string"

text \<open>\<open>read_to_string\<close> takes a file only if it is UTF-8.\<close>

definition read_file :: "(string \<Rightarrow> string + bytes) \<Rightarrow> string \<Rightarrow> MainError + bytes" where
  "read_file files path =
     (case files path of
        Inl e \<Rightarrow> Inl (CannotRead path e)
      | Inr bs \<Rightarrow> if valid_utf8 bs then Inr bs else Inl (CannotRead path ''stream did not contain valid UTF-8''))"

definition read_config :: "(string \<Rightarrow> string + bytes) \<Rightarrow> (bytes \<Rightarrow> ConfigError + 'c) \<Rightarrow> string \<Rightarrow> MainError + 'c" where
  "read_config files parser path =
     (case read_file files path of
        Inl e \<Rightarrow> Inl e
      | Inr bs \<Rightarrow> (case parser bs of Inl e \<Rightarrow> Inl (Reading path e) | Inr config \<Rightarrow> Inr config))"

definition main_start :: "('k, 'cert, 'key, 'roots, 'name) program \<Rightarrow> Args \<Rightarrow> MainError + Front \<times> 'roots Observer list" where
  "main_start P args =
     (let W = pg_outside P in
      case read_config (ou_files W) (NodeConfig_parse (pg_toml_node P) (ou_crypto W)) (ar_config args) of
        Inl e \<Rightarrow> Inl e
      | Inr node \<Rightarrow>
          (case read_config (ou_files W) (ClusterConfig_parse (pg_toml_cluster P) (pg_debug P)) (ar_cluster args) of
             Inl e \<Rightarrow> Inl e
           | Inr cluster \<Rightarrow>
               (case serve W node cluster ServeOptions_default of
                  Inl e \<Rightarrow> Inl (MainServe e)
                | Inr started \<Rightarrow> Inr started)))"

text \<open>
  The whole run: \<open>until_stop\<close> is what the node does until the signal arrives, \<open>signal\<close> the failure to wait
  for one.
\<close>

definition run_main :: "('k, 'cert, 'key, 'roots, 'name) program \<Rightarrow> Args \<Rightarrow> (Front \<Rightarrow> Front) \<Rightarrow> string option
    \<Rightarrow> bool \<Rightarrow> (Slot \<Rightarrow> nat \<Rightarrow> bool) \<Rightarrow> MainError + Stopped" where
  "run_main P args until_stop signal drains alive =
     (case main_start P args of
        Inl e \<Rightarrow> Inl e
      | Inr (f, _) \<Rightarrow>
          (case signal of
             Some e \<Rightarrow> Inl (MainSignal e)
           | None \<Rightarrow> Inr (fst (shutdown drains alive (until_stop f)))))"

section \<open>What a started program has read\<close>

lemma read_config_Inr:
  "read_config files parser path = Inr config \<longleftrightarrow> (\<exists>bs. files path = Inr bs \<and> valid_utf8 bs \<and> parser bs = Inr config)"
  by (auto simp: read_config_def read_file_def split: sum.splits if_splits)

lemma parse_Inr:
  "NodeConfig_parse toml C bs = Inr node \<longleftrightarrow> toml bs = Inr node \<and> NodeConfig_validate C node = Inr ()"
  "ClusterConfig_parse toml' debug bs = Inr cluster \<longleftrightarrow> toml' bs = Inr cluster \<and> ClusterConfig_validate debug cluster = Inr ()"
  by (auto simp: NodeConfig_parse_def ClusterConfig_parse_def split: sum.splits)

lemma main_start_Inr:
  assumes "main_start P args = Inr (f, obs)"
  obtains a node b cluster where
    "ou_files (pg_outside P) (ar_config args) = Inr a" "pg_toml_node P a = Inr node"
    "NodeConfig_validate (ou_crypto (pg_outside P)) node = Inr ()"
    "ou_files (pg_outside P) (ar_cluster args) = Inr b" "pg_toml_cluster P b = Inr cluster"
    "ClusterConfig_validate (pg_debug P) cluster = Inr ()"
    "serve (pg_outside P) node cluster ServeOptions_default = Inr (f, obs)"
  using assms by (auto simp: main_start_def Let_def read_config_Inr parse_Inr split: sum.splits)

lemma serve_credentials:
  "serve W node cluster options = Inr (f, obs) \<Longrightarrow> client_credentials (ou_crypto W) node = Inr (fr_credentials f)"
  by (auto simp: serve_def start_front_def Let_def split: if_splits option.splits sum.splits)

lemma serve_session_credentials:
  "serve_session roll tenant f = (fate, Some f') \<Longrightarrow> fr_credentials f' = fr_credentials f"
  by (auto simp: serve_session_def leave_def Front_checkout_def split: if_splits option.splits prod.splits)

lemma serve_client_credentials:
  "serve_client A roll s f = (fate, Some f') \<Longrightarrow> fr_credentials f' = fr_credentials f"
  by (auto simp: serve_client_def leave_def Let_def dest!: serve_session_credentials
      split: prod.splits sum.splits option.splits Accepted.splits)

lemma node_step_credentials: "node_step f f' \<Longrightarrow> fr_credentials f' = fr_credentials f"
  by (induction rule: node_step.induct)
    (auto simp: leave_def Front_set_tenant_def shutdown_def Let_def dest: serve_client_credentials split: prod.splits)

lemma node_steps_credentials: "node_step\<^sup>*\<^sup>* f f' \<Longrightarrow> fr_credentials f' = fr_credentials f"
  by (induction rule: rtranclp_induct) (simp_all add: node_step_credentials)

lemma node_steps_reachable: "node_step\<^sup>*\<^sup>* f f' \<Longrightarrow> node_reachable W node cluster options f \<Longrightarrow> node_reachable W node cluster options f'"
  by (induction rule: rtranclp_induct) (auto intro: node_next)

lemma limit_accepted:
  "ClientLimit_accept A s l = ((Inr a, s'), l') \<Longrightarrow> accept A s = (Inr a, s')"
  by (auto simp: ClientLimit_accept_def refuse_over_limit_def Session.refuse_def split: prod.splits bool.splits sum.splits)

lemma pooled_accepted:
  assumes "fst (serve_client A roll s f) = FatePooled i tenant pool opener welcome"
  shows "\<exists>m s'. accept (A\<lparr>ac_method := ClientCredentials_method (fr_credentials f), ac_tls := fr_tls f\<rparr>) s
    = (Inr (AcceptedSession tenant m), s')"
proof -
  let ?A = "A\<lparr>ac_method := ClientCredentials_method (fr_credentials f), ac_tls := fr_tls f\<rparr>"
  obtain r s' l where r: "ClientLimit_accept ?A s (fr_limit f) = ((r, s'), l)" by (metis prod.collapse)
  with assms obtain a l2 where a: "r = Inr a" "l = Some l2" by (cases r; cases l) (auto simp: serve_client_def)
  with assms r obtain t m where m: "a = AcceptedSession t m" by (cases a) (auto simp: serve_client_def Let_def)
  with assms r a have "fst (serve_session roll t (f\<lparr>fr_limit := l2\<rparr>)) = FatePooled i tenant pool opener welcome"
    by (simp add: serve_client_def)
  from serve_session_pooled [OF this] limit_accepted [OF r [unfolded a m]] show ?thesis by blast
qed

section \<open>From the files to a client\<close>


definition demo_program :: "(bytes, string, string, string list, string) program" where
  "demo_program = \<lparr>pg_outside = demo_outside,
     pg_toml_node = (\<lambda>bs. if bs = ''node.toml'' then Inr demo_config else Inl ''no node''),
     pg_toml_cluster = (\<lambda>bs. if bs = ''cluster.toml'' then Inr demo_cluster else Inl ''no cluster''), pg_debug = decimal\<rparr>"

definition demo_args :: Args where
  "demo_args = \<lparr>ar_config = ''node.toml'', ar_cluster = ''cluster.toml''\<rparr>"

lemma demo_program_starts: "\<exists>obs. main_start demo_program demo_args = Inr (demo_front, obs)"
proof -
  let ?W = "pg_outside demo_program"
  from demo_served obtain obs where start: "serve demo_outside demo_config demo_cluster ServeOptions_default = Inr (demo_front, obs)"
    by blast
  have "read_config (ou_files ?W) (NodeConfig_parse (pg_toml_node demo_program) (ou_crypto ?W)) (ar_config demo_args) = Inr demo_config"
    unfolding read_config_Inr parse_Inr by (rule exI [of _ "''node.toml''"]) code_simp
  moreover have "read_config (ou_files ?W) (ClusterConfig_parse (pg_toml_cluster demo_program) (pg_debug demo_program)) (ar_cluster demo_args)
      = Inr demo_cluster"
    unfolding read_config_Inr parse_Inr by (rule exI [of _ "''cluster.toml''"]) code_simp
  moreover have "serve ?W demo_config demo_cluster ServeOptions_default = Inr (demo_front, obs)"
    using start by (simp add: demo_program_def)
  ultimately show ?thesis by (simp add: main_start_def)
qed


end
