(* ===== verification/Wire.thy ===== *)
theory Wire
  imports Server
begin

text \<open>
  The bytes below a server connection (\<open>crates/core/src/server.rs\<close>): the loops that read until a
  message or a frame is whole, the handshake and the simple query on top of them, and the operations
  of an established connection. The theory Server runs the handshake on a sequence of messages that
  have arrived; here the messages are read out of chunks of bytes, and the refinement shows that the
  two agree however the bytes are cut.

  The parser of server messages (\<open>Message::parse\<close> of \<open>postgres_protocol\<close>) is the parameter \<open>parse\<close>.
  What is relied on is the contract \<open>stream_decoder\<close>, which the frame decoders of the program have
  too: it takes the bytes of a message off the front, waits without taking any while the message is
  not whole, and bytes that follow do not change what it found.
\<close>

section \<open>Reading until a message is whole\<close>

text \<open>
  One \<open>read_buf\<close>: it appends a chunk or fails. A chunk of no bytes is the end of the stream, and so
  is a stream with nothing left.
\<close>

datatype io_read = Got bytes | ReadBroken

text \<open>
  The loop of \<open>read_message\<close> and \<open>read_frame\<close>. The first result is a message, \<open>Inr None\<close> at the end of
  the stream, \<open>Inl (Some e)\<close> when the decoder rejects the bytes and \<open>Inl None\<close> when the read fails;
  the others are the buffer and the reads that are left.
\<close>

function read_loop :: "(bytes \<Rightarrow> 'e + 'm option \<times> bytes) \<Rightarrow> bytes \<Rightarrow> io_read list
    \<Rightarrow> ('e option + 'm option) \<times> bytes \<times> io_read list" where
  "read_loop decode buf reads =
     (case decode buf of
        Inl e \<Rightarrow> (Inl (Some e), buf, reads)
      | Inr (Some m, buf') \<Rightarrow> (Inr (Some m), buf', reads)
      | Inr (None, buf') \<Rightarrow>
          (case reads of
             [] \<Rightarrow> (Inr None, buf', [])
           | ReadBroken # rs \<Rightarrow> (Inl None, buf', rs)
           | Got chunk # rs \<Rightarrow> if chunk = [] then (Inr None, buf', rs) else read_loop decode (buf' @ chunk) rs))"
  by pat_completeness auto
termination by (relation "measure (\<lambda>(_, _, reads). length reads)") auto

declare read_loop.simps [simp del]

datatype ReadError = ReadIo | ReadClosed

fun HandshakeError_from :: "ReadError \<Rightarrow> HandshakeError" where
  "HandshakeError_from ReadIo = HandshakeIo"
| "HandshakeError_from ReadClosed = HandshakeClosed"

fun QueryError_from :: "ReadError \<Rightarrow> QueryError" where
  "QueryError_from ReadIo = QueryIo"
| "QueryError_from ReadClosed = QueryClosed"

type_synonym 'e message_parser = "bytes \<Rightarrow> 'e + Message option \<times> bytes"

definition read_message :: "'e message_parser \<Rightarrow> bytes \<Rightarrow> io_read list \<Rightarrow> (ReadError + Message) \<times> bytes \<times> io_read list" where
  "read_message parse buf reads =
     (case read_loop parse buf reads of
        (Inl _, rest) \<Rightarrow> (Inl ReadIo, rest)
      | (Inr None, rest) \<Rightarrow> (Inl ReadClosed, rest)
      | (Inr (Some m), rest) \<Rightarrow> (Inr m, rest))"

text \<open>
  Everything a reader gets that reads to the end: the messages, and whether the stream ended (\<open>True\<close>)
  or failed. A message takes at least a byte, so one round more than there are bytes is enough.
\<close>

fun read_bytes :: "io_read \<Rightarrow> bytes" where
  "read_bytes (Got chunk) = chunk"
| "read_bytes ReadBroken = []"

definition stream_bytes :: "bytes \<Rightarrow> io_read list \<Rightarrow> bytes" where
  "stream_bytes buf reads = buf @ concat (map read_bytes reads)"

fun drain_rounds :: "(bytes \<Rightarrow> 'e + 'm option \<times> bytes) \<Rightarrow> nat \<Rightarrow> bytes \<Rightarrow> io_read list \<Rightarrow> 'm list \<times> bool" where
  "drain_rounds decode 0 buf reads = ([], True)"
| "drain_rounds decode (Suc n) buf reads =
     (case read_loop decode buf reads of
        (Inl _, _) \<Rightarrow> ([], False)
      | (Inr None, _) \<Rightarrow> ([], True)
      | (Inr (Some m), buf', reads') \<Rightarrow> apfst (Cons m) (drain_rounds decode n buf' reads'))"

definition drain :: "(bytes \<Rightarrow> 'e + 'm option \<times> bytes) \<Rightarrow> bytes \<Rightarrow> io_read list \<Rightarrow> 'm list \<times> bool" where
  "drain decode buf reads = drain_rounds decode (Suc (length (stream_bytes buf reads))) buf reads"

definition arrivals_of :: "'e message_parser \<Rightarrow> bytes \<Rightarrow> io_read list \<Rightarrow> arrival list" where
  "arrivals_of parse buf reads =
     (case drain parse buf reads of (ms, ended) \<Rightarrow> map Arrived ms @ (if ended then [] else [ReadFailed]))"

section \<open>The contract of a decoder of a stream\<close>

locale stream_decoder =
  fixes decode :: "bytes \<Rightarrow> 'e + 'm option \<times> bytes"
  assumes decode_stable: "decode buf = Inr (Some m, rest) \<Longrightarrow> decode (buf @ bs) = Inr (Some m, rest @ bs)"
    and decode_failed: "decode buf = Inl e \<Longrightarrow> decode (buf @ bs) = Inl e"
    and decode_waits: "decode buf = Inr (None, buf') \<Longrightarrow> buf' = buf"
    and decode_splits: "decode buf = Inr (Some m, rest) \<Longrightarrow> \<exists>taken. taken \<noteq> [] \<and> buf = taken @ rest"
begin

lemma decode_cases:
  obtains (bad) e where "decode buf = Inl e"
    | (whole) m taken rest where "decode buf = Inr (Some m, rest)" "taken \<noteq> []" "buf = taken @ rest"
    | (wait) "decode buf = Inr (None, buf)"
proof (cases "decode buf")
  case (Inr r)
  then show thesis
  proof (cases "fst r")
    case None
    with Inr decode_waits [of buf "snd r"] wait show thesis by (metis prod.collapse)
  next
    case (Some m)
    with Inr have "decode buf = Inr (Some m, snd r)" by (metis prod.collapse)
    with decode_splits whole show thesis by blast
  qed
qed (rule bad)

lemma read_now:
  "decode buf = Inl e \<Longrightarrow> read_loop decode buf reads = (Inl (Some e), buf, reads)"
  "decode buf = Inr (Some m, rest) \<Longrightarrow> read_loop decode buf reads = (Inr (Some m), rest, reads)"
  by (simp_all add: read_loop.simps)

lemma read_wait:
  assumes "decode buf = Inr (None, buf)"
  shows "read_loop decode buf [] = (Inr None, buf, [])"
    "read_loop decode buf (ReadBroken # reads) = (Inl None, buf, reads)"
    "read_loop decode buf (Got [] # reads) = (Inr None, buf, reads)"
    "chunk \<noteq> [] \<Longrightarrow> read_loop decode buf (Got chunk # reads) = read_loop decode (buf @ chunk) reads"
  using assms by (simp_all add: read_loop.simps)

text \<open>
  What a read that delivers a message does to the bytes: those before the message's end are gone,
  the others are in the buffer or still to be read, in their order.
\<close>

lemma read_takes:
  assumes "read_loop decode buf reads = (Inr (Some m), buf', reads')"
  shows "\<exists>taken. taken \<noteq> [] \<and> stream_bytes buf reads = taken @ stream_bytes buf' reads'"
  using assms
proof (induction reads arbitrary: buf)
  case Nil
  show ?case by (cases buf rule: decode_cases) (use Nil in \<open>auto simp: read_now read_wait stream_bytes_def\<close>)
next
  case (Cons r reads)
  show ?case
  proof (cases buf rule: decode_cases)
    case wait
    show ?thesis
    proof (cases r)
      case (Got chunk)
      show ?thesis
      proof (cases "chunk = []")
        case False
        with Cons.prems Got wait have "read_loop decode (buf @ chunk) reads = (Inr (Some m), buf', reads')"
          by (simp add: read_wait)
        from Cons.IH [OF this] show ?thesis by (simp add: Got stream_bytes_def)
      qed (use Cons.prems wait Got in \<open>simp add: read_wait\<close>)
    qed (use Cons.prems wait in \<open>simp add: read_wait\<close>)
  qed (use Cons.prems in \<open>auto simp: read_now stream_bytes_def\<close>)
qed

lemma read_shrinks:
  "read_loop decode buf reads = (Inr (Some m), buf', reads') \<Longrightarrow> length (stream_bytes buf' reads') < length (stream_bytes buf reads)"
  using read_takes by fastforce

lemma drain_enough:
  "length (stream_bytes buf reads) < n \<Longrightarrow> length (stream_bytes buf reads) < k \<Longrightarrow>
    drain_rounds decode n buf reads = drain_rounds decode k buf reads"
proof (induction n arbitrary: buf reads k)
  case (Suc n)
  then obtain j where k: "k = Suc j" by (cases k) auto
  have "drain_rounds decode n buf' reads' = drain_rounds decode j buf' reads'"
    if "read_loop decode buf reads = (Inr (Some m), buf', reads')" for m buf' reads'
    using Suc.IH [of buf' reads' j] read_shrinks [OF that] Suc.prems k by simp
  then show ?case by (auto simp: k split: sum.split option.split prod.split)
qed simp

lemma drain_unfold:
  "drain decode buf reads =
     (case read_loop decode buf reads of
        (Inl _, _) \<Rightarrow> ([], False)
      | (Inr None, _) \<Rightarrow> ([], True)
      | (Inr (Some m), buf', reads') \<Rightarrow> apfst (Cons m) (drain decode buf' reads'))"
proof -
  have "drain_rounds decode (length (stream_bytes buf reads)) buf' reads' = drain decode buf' reads'"
    if "read_loop decode buf reads = (Inr (Some m), buf', reads')" for m buf' reads'
    unfolding drain_def using read_shrinks [OF that] by (intro drain_enough) auto
  then show ?thesis
    by (subst drain_def) (auto split: sum.split option.split prod.split)
qed

lemma drain_now:
  "decode buf = Inl e \<Longrightarrow> drain decode buf reads = ([], False)"
  "decode buf = Inr (Some m, rest) \<Longrightarrow> drain decode buf reads = apfst (Cons m) (drain decode rest reads)"
  by (simp_all add: drain_unfold [of buf] read_now)

text \<open>A chunk that is still to be read may as well be in the buffer already.\<close>

lemma drain_absorb:
  assumes "chunk \<noteq> []"
  shows "drain decode buf (Got chunk # reads) = drain decode (buf @ chunk) reads"
proof (induction "length buf" arbitrary: buf rule: less_induct)
  case less
  show ?case
  proof (cases buf rule: decode_cases)
    case (bad e)
    then show ?thesis by (simp add: drain_now(1) [OF bad] drain_now(1) [OF decode_failed [OF bad]])
  next
    case (whole m taken rest)
    then have "length rest < length buf" by simp
    from less [OF this] show ?thesis
      by (simp only: drain_now(2) [OF whole(1)] drain_now(2) [OF decode_stable [OF whole(1)]])
  next
    case wait
    with assms show ?thesis by (simp add: drain_unfold [of buf] drain_unfold [of "buf @ chunk"] read_wait)
  qed
qed

lemma drain_chunks:
  "[] \<notin> set chunks \<Longrightarrow> drain decode buf (map Got chunks @ reads) = drain decode (buf @ concat chunks) reads"
  by (induction chunks arbitrary: buf) (auto simp: drain_absorb)

end

text \<open>The decoders of the program's own frames keep the contract.\<close>

interpretation frame_reader: stream_decoder "\<lambda>buf. decode_frame buf max_len" for max_len
proof
  fix buf m rest bs
  assume "decode_frame buf max_len = Inr (Some m, rest)"
  from frames.decode_written [OF this] obtain out where out: "write_frame max_len m = Some out" "buf = out @ rest" by blast
  with frames.decode_encoded [OF out(1), of "rest @ bs"] show "decode_frame (buf @ bs) max_len = Inr (Some m, rest @ bs)" by simp
  from out frames.encode_nonempty [OF out(1)] show "\<exists>taken. taken \<noteq> [] \<and> buf = taken @ rest" by blast
qed (auto simp: decode_frame_def framing_consts Let_def split: if_splits sum.splits)

interpretation startup_reader: stream_decoder "\<lambda>buf. decode_startup_frame buf max_len" for max_len
proof
  fix buf m rest bs
  assume "decode_startup_frame buf max_len = Inr (Some m, rest)"
  from startups.decode_written [OF this] obtain out where out: "write_startup max_len m = Some out" "buf = out @ rest" by blast
  with startups.decode_encoded [OF out(1), of "rest @ bs"] show "decode_startup_frame (buf @ bs) max_len = Inr (Some m, rest @ bs)" by simp
  from out startups.encode_nonempty [OF out(1)] show "\<exists>taken. taken \<noteq> [] \<and> buf = taken @ rest" by blast
qed (auto simp: decode_startup_frame_def framing_consts Let_def split: if_splits sum.splits)

section \<open>A connection over a stream of bytes\<close>

text \<open>
  What was written: an encoded message, or bytes that are passed on. \<open>wc_shut\<close> says that the sending
  side was shut down.
\<close>

datatype wire_out = Encoded sent | Raw bytes

record WireConnection =
  wc_parameters :: "(bytes, bytes) btree_map"
  wc_backend_key :: CancelKey
  wc_read_buf :: bytes
  wc_reads :: "io_read list"
  wc_out :: "wire_out list"
  wc_shut :: bool

text \<open>
  The loop of the handshake reads one message per round, and every message takes at least a byte of
  the stream; \<open>None\<close> is a loop that has run out of rounds, which the refinement rules out for the
  rounds \<open>wire_handshake\<close> gives it.
\<close>

fun wire_handshake_loop :: "nat \<Rightarrow> ('k, 'z) client_lib_scheme \<Rightarrow> ServerCredentials \<Rightarrow> 'e message_parser \<Rightarrow> bytes \<Rightarrow> io_read list
    \<Rightarrow> 'k StartupState \<Rightarrow> sent list \<Rightarrow> (HandshakeError + WireConnection) option" where
  "wire_handshake_loop 0 L c parse buf reads s out = None"
| "wire_handshake_loop (Suc n) L c parse buf reads s out =
     (case read_message parse buf reads of
        (Inl e, _) \<Rightarrow> Some (Inl (HandshakeError_from e))
      | (Inr m, buf', reads') \<Rightarrow>
          (case handshake_message L c m s of
             Inl (Inl e) \<Rightarrow> Some (Inl e)
           | Inl (Inr key) \<Rightarrow>
               Some (Inr \<lparr>wc_parameters = su_parameters s, wc_backend_key = key, wc_read_buf = buf',
                 wc_reads = reads', wc_out = map Encoded out, wc_shut = False\<rparr>)
           | Inr (ms, s') \<Rightarrow> wire_handshake_loop n L c parse buf' reads' s' (out @ ms)))"

definition wire_handshake :: "('k, 'z) client_lib_scheme \<Rightarrow> ServerCredentials \<Rightarrow> ApplicationName \<Rightarrow> 'e message_parser \<Rightarrow> io_read list
    \<Rightarrow> (HandshakeError + WireConnection) option" where
  "wire_handshake L c name parse reads =
     wire_handshake_loop (Suc (length (stream_bytes [] reads))) L c parse [] reads StartupState_default
       [SentStartup (startup_request c name)]"

fun wire_query_loop :: "nat \<Rightarrow> 'e message_parser \<Rightarrow> row list \<Rightarrow> QueryError option \<Rightarrow> WireConnection
    \<Rightarrow> ((QueryError + row list) \<times> WireConnection) option" where
  "wire_query_loop 0 parse rows refusal w = None"
| "wire_query_loop (Suc n) parse rows refusal w =
     (case read_message parse (wc_read_buf w) (wc_reads w) of
        (Inl e, buf, reads) \<Rightarrow> Some (Inl (QueryError_from e), w\<lparr>wc_read_buf := buf, wc_reads := reads\<rparr>)
      | (Inr m, buf, reads) \<Rightarrow>
          (let w = w\<lparr>wc_read_buf := buf, wc_reads := reads\<rparr> in
           case query_message m rows refusal (wc_parameters w) of
             Inl r \<Rightarrow> Some (r, w)
           | Inr (rows', refusal', ps) \<Rightarrow> wire_query_loop n parse rows' refusal' (w\<lparr>wc_parameters := ps\<rparr>)))"

definition wire_simple_query :: "('k, 'z) client_lib_scheme \<Rightarrow> 'e message_parser \<Rightarrow> bytes \<Rightarrow> WireConnection
    \<Rightarrow> ((QueryError + row list) \<times> WireConnection) option" where
  "wire_simple_query L parse sql w =
     (if encodes L (SentQuery sql)
      then wire_query_loop (Suc (length (stream_bytes (wc_read_buf w) (wc_reads w)))) parse [] None
        (w\<lparr>wc_out := wc_out w @ [Encoded (SentQuery sql)]\<rparr>)
      else Some (Inl QueryIo, w))"

text \<open>
  The operations of an established connection. \<open>write_ok\<close> and \<open>shutdown_ok\<close> say whether the stream
  takes what is written to it and the request to shut down; the errors are \<open>io::Error\<close>s.
\<close>

datatype io_error = InvalidData FrameError | IoOther

definition parameter :: "bytes \<Rightarrow> WireConnection \<Rightarrow> bytes option" where
  "parameter name w = bt_get (wc_parameters w) name"

definition into_parts :: "WireConnection \<Rightarrow> io_read list \<times> bytes" where
  "into_parts w = (wc_reads w, wc_read_buf w)"

definition buffered_frame :: "WireConnection \<Rightarrow> (io_error + Frame option) \<times> WireConnection" where
  "buffered_frame w =
     (case decode_frame (wc_read_buf w) MAX_MESSAGE of
        Inl e \<Rightarrow> (Inl (InvalidData e), w)
      | Inr (found, buf) \<Rightarrow> (Inr found, w\<lparr>wc_read_buf := buf\<rparr>))"

definition ServerConnection_read_frame :: "WireConnection \<Rightarrow> (io_error + Frame option) \<times> WireConnection" where
  "ServerConnection_read_frame w =
     (case read_loop (\<lambda>buf. decode_frame buf MAX_MESSAGE) (wc_read_buf w) (wc_reads w) of
        (r, buf, reads) \<Rightarrow>
          (case r of
             Inl (Some e) \<Rightarrow> Inl (InvalidData e)
           | Inl None \<Rightarrow> Inl IoOther
           | Inr found \<Rightarrow> Inr found,
           w\<lparr>wc_read_buf := buf, wc_reads := reads\<rparr>))"

definition forward :: "bool \<Rightarrow> bytes \<Rightarrow> WireConnection \<Rightarrow> (io_error + unit) \<times> WireConnection" where
  "forward write_ok bs w = (if write_ok then (Inr (), w\<lparr>wc_out := wc_out w @ [Raw bs]\<rparr>) else (Inl IoOther, w))"

definition wire_terminate :: "bool \<Rightarrow> bool \<Rightarrow> WireConnection \<Rightarrow> (io_error + unit) \<times> WireConnection" where
  "wire_terminate write_ok shutdown_ok w =
     (if \<not> write_ok then (Inl IoOther, w)
      else let w = w\<lparr>wc_out := wc_out w @ [Encoded SentTerminate]\<rparr> in
        if shutdown_ok then (Inr (), w\<lparr>wc_shut := True\<rparr>) else (Inl IoOther, w))"

fun read_out :: "io_read list \<Rightarrow> io_read list" where
  "read_out [] = []"
| "read_out (ReadBroken # rs) = rs"
| "read_out (Got chunk # rs) = (if chunk = [] then rs else read_out rs)"

definition close_and_drain :: "bool \<Rightarrow> bool \<Rightarrow> WireConnection \<Rightarrow> WireConnection" where
  "close_and_drain write_ok shutdown_ok w =
     (let w = (if write_ok then w\<lparr>wc_out := wc_out w @ [Encoded SentTerminate]\<rparr> else w);
          w = (if shutdown_ok then w\<lparr>wc_shut := True\<rparr> else w) in
      w\<lparr>wc_reads := read_out (wc_reads w)\<rparr>)"

section \<open>The messages that arrive are those in the bytes\<close>

fun sent_of :: "wire_out \<Rightarrow> sent list" where
  "sent_of (Encoded m) = [m]"
| "sent_of (Raw _) = []"

definition wire_abs :: "'e message_parser \<Rightarrow> WireConnection \<Rightarrow> ServerConnection" where
  "wire_abs parse w = \<lparr>cn_parameters = wc_parameters w, cn_backend_key = wc_backend_key w,
     cn_arrivals = arrivals_of parse (wc_read_buf w) (wc_reads w), cn_sent = concat (map sent_of (wc_out w))\<rparr>"

lemma sent_of_encoded [simp]: "concat (map (sent_of \<circ> Encoded) ms) = ms"
  by (induction ms) simp_all

lemma arrivals_step:
  assumes "stream_decoder parse"
  shows "arrivals_of parse buf reads =
    (case read_message parse buf reads of
       (Inl ReadClosed, _) \<Rightarrow> []
     | (Inl ReadIo, _) \<Rightarrow> [ReadFailed]
     | (Inr m, buf', reads') \<Rightarrow> Arrived m # arrivals_of parse buf' reads')"
  by (subst arrivals_of_def, subst stream_decoder.drain_unfold [OF assms])
    (auto simp: read_message_def arrivals_of_def apfst_def split: prod.split sum.split option.split)

lemma arrivals_chunks:
  "stream_decoder parse \<Longrightarrow> [] \<notin> set chunks \<Longrightarrow> arrivals_of parse buf (map Got chunks) = arrivals_of parse (buf @ concat chunks) []"
  using stream_decoder.drain_chunks [of parse chunks buf "[]"] by (simp add: arrivals_of_def)

lemma read_message_takes:
  "stream_decoder parse \<Longrightarrow> read_message parse buf reads = (Inr m, buf', reads') \<Longrightarrow>
    \<exists>taken. taken \<noteq> [] \<and> stream_bytes buf reads = taken @ stream_bytes buf' reads'"
  by (rule stream_decoder.read_takes) (auto simp: read_message_def split: prod.splits sum.splits option.splits)

lemma read_message_shrinks:
  "stream_decoder parse \<Longrightarrow> read_message parse buf reads = (Inr m, buf', reads') \<Longrightarrow>
    length (stream_bytes buf' reads') < length (stream_bytes buf reads)"
  using read_message_takes by fastforce

lemma wire_handshake_loop_refines:
  assumes "stream_decoder parse" "length (stream_bytes buf reads) < n"
  shows "\<exists>r. wire_handshake_loop n L c parse buf reads s out = Some r
    \<and> map_sum id (wire_abs parse) r = handshake_loop L c (arrivals_of parse buf reads) s out
    \<and> (\<forall>w. r = Inr w \<longrightarrow> (\<exists>taken. stream_bytes buf reads = taken @ stream_bytes (wc_read_buf w) (wc_reads w)))"
  using assms(2)
proof (induction n arbitrary: buf reads s out)
  case (Suc n)
  note step = arrivals_step [OF assms(1), of buf reads]
  obtain r buf' reads' where read: "read_message parse buf reads = (r, buf', reads')" by (metis prod_cases3)
  show ?case
  proof (cases r)
    case (Inl e)
    with read step show ?thesis by (cases e) simp_all
  next
    case (Inr m)
    note step = step [unfolded read Inr, simplified]
    from read_message_takes [OF assms(1) read [unfolded Inr]] obtain taken where
      taken: "stream_bytes buf reads = taken @ stream_bytes buf' reads'" by blast
    from read_message_shrinks [OF assms(1) read [unfolded Inr]] Suc.prems
    have "length (stream_bytes buf' reads') < n" by simp
    note IH = Suc.IH [OF this]
    show ?thesis
    proof (cases "handshake_message L c m s")
      case (Inl ended)
      then show ?thesis
        using taken by (cases ended) (auto simp: read Inr step wire_abs_def)
    next
      case (Inr outcome)
      obtain ms s' where o: "outcome = (ms, s')" by (cases outcome)
      from IH [of s' "out @ ms"] taken show ?thesis
        by (auto simp: read \<open>r = Inr m\<close> step Inr o)
    qed
  qed
qed simp

lemma query_loop_arrivals [simp]: "query_loop as rows refusal (s\<lparr>cn_arrivals := x\<rparr>) = query_loop as rows refusal s"
proof (induction as rows refusal s rule: query_loop.induct)
  case (3 m as rows refusal s)
  have swap: "s\<lparr>cn_arrivals := x, cn_parameters := ps\<rparr> = s\<lparr>cn_parameters := ps, cn_arrivals := x\<rparr>" for ps by simp
  from 3 show ?case by (auto simp: swap simp del: query_loop.simps(1,2) split: sum.split)
qed simp_all

definition dead :: "QueryError + row list \<Rightarrow> bool" where
  "dead r \<longleftrightarrow> r = Inl QueryIo \<or> r = Inl QueryClosed"

lemma wire_query_loop_refines:
  assumes "stream_decoder parse" "length (stream_bytes (wc_read_buf w) (wc_reads w)) < n"
  shows "\<exists>r w' s'. wire_query_loop n parse rows refusal w = Some (r, w')
    \<and> query_loop (cn_arrivals (wire_abs parse w)) rows refusal (wire_abs parse w) = (r, s')
    \<and> (\<not> dead r \<longrightarrow> s' = wire_abs parse w')"
  using assms(2)
proof (induction n arbitrary: w rows refusal)
  case (Suc n)
  have arr: "cn_arrivals (wire_abs parse w) = arrivals_of parse (wc_read_buf w) (wc_reads w)" for w
    by (simp add: wire_abs_def)
  note step = arrivals_step [OF assms(1), of "wc_read_buf w" "wc_reads w"]
  obtain r buf reads where read: "read_message parse (wc_read_buf w) (wc_reads w) = (r, buf, reads)" by (metis prod_cases3)
  show ?case
  proof (cases r)
    case (Inl e)
    with read step show ?thesis by (cases e) (simp_all add: arr dead_def)
  next
    case (Inr m)
    note step = step [unfolded read Inr, simplified]
    from read_message_shrinks [OF assms(1) read [unfolded Inr]] Suc.prems
    have "length (stream_bytes buf reads) < n" by simp
    then have IH: "\<exists>r w' s'. wire_query_loop n parse rows' refusal' (w\<lparr>wc_read_buf := buf, wc_reads := reads, wc_parameters := ps\<rparr>) = Some (r, w')
        \<and> query_loop (arrivals_of parse buf reads) rows' refusal' (wire_abs parse w\<lparr>cn_parameters := ps\<rparr>) = (r, s')
        \<and> (\<not> dead r \<longrightarrow> s' = wire_abs parse w')" for rows' refusal' ps
      using Suc.IH [of "w\<lparr>wc_read_buf := buf, wc_reads := reads, wc_parameters := ps\<rparr>" rows' refusal']
        query_loop_arrivals [of "arrivals_of parse buf reads" rows' refusal' "arrivals_of parse buf reads" "wire_abs parse w\<lparr>cn_parameters := ps\<rparr>"]
      by (simp add: wire_abs_def)
    have "cn_parameters (wire_abs parse w) = wc_parameters w" by (simp add: wire_abs_def)
    then show ?thesis
    proof (cases "query_message m rows refusal (wc_parameters w)")
      case (Inl ended)
      then show ?thesis by (auto simp: read Inr step arr wire_abs_def)
    next
      case (Inr outcome)
      obtain rows' refusal' ps where o: "outcome = (rows', refusal', ps)" by (metis prod_cases3)
      from IH [of rows' refusal' ps] \<open>cn_parameters (wire_abs parse w) = wc_parameters w\<close> show ?thesis
        by (simp add: read \<open>r = Inr m\<close> step arr Inr o)
    qed
  qed
qed simp

section \<open>Frames read from a connection\<close>

text \<open>A reader that takes frames until the stream ends or fails.\<close>

fun read_frames :: "nat \<Rightarrow> WireConnection \<Rightarrow> Frame list \<times> bool" where
  "read_frames 0 w = ([], True)"
| "read_frames (Suc n) w =
     (case ServerConnection_read_frame w of
        (Inl _, _) \<Rightarrow> ([], False)
      | (Inr None, _) \<Rightarrow> ([], True)
      | (Inr (Some f), w') \<Rightarrow> apfst (Cons f) (read_frames n w'))"

lemma read_frames_drain:
  "read_frames n w = drain_rounds (\<lambda>buf. decode_frame buf MAX_MESSAGE) n (wc_read_buf w) (wc_reads w)"
  by (induction n arbitrary: w) (auto simp: ServerConnection_read_frame_def split: prod.split sum.split option.split)

lemma drain_frames:
  "encode_all (write_frame max_len) fs = Some bs \<Longrightarrow> drain (\<lambda>buf. decode_frame buf max_len) bs [] = (fs, True)"
proof (induction fs arbitrary: bs)
  case Nil
  then show ?case
    using frames.decode_empty [of max_len] by (simp add: frame_reader.drain_unfold [of _ "[]"] frame_reader.read_wait)
next
  case (Cons f fs)
  from encode_all_ConsD [OF Cons.prems] obtain b cs where
    *: "write_frame max_len f = Some b" "encode_all (write_frame max_len) fs = Some cs" "bs = b @ cs" by blast
  from frame_reader.drain_now(2) [OF frames.decode_encoded [OF *(1)]] Cons.IH [OF *(2)] *(3) show ?case by simp
qed

section \<open>The properties of a connection over bytes\<close>

text \<open>
  C18: The handshake over bytes is the handshake over messages. However the bytes of the
  server are cut into reads, the handshake ends, and its result is the one of the sequence of
  messages those bytes hold, with the messages after ReadyForQuery still to be read. No byte after
  the handshake is lost: what is left in the buffer and in the stream is the rest of what the server
  sent, so a connection that is taken apart and relayed starts with the right byte.
\<close>

theorem handshake_over_bytes:
  assumes "stream_decoder parse" "[] \<notin> set chunks"
  shows "\<exists>r. wire_handshake L c name parse (map Got chunks) = Some r
    \<and> map_sum id (wire_abs parse) r = handshake L c name (arrivals_of parse (concat chunks) [])
    \<and> (\<forall>w. r = Inr w \<longrightarrow> (\<exists>taken. concat chunks = taken @ stream_bytes (snd (into_parts w)) (fst (into_parts w))))"
proof -
  have "stream_bytes [] (map Got chunks) = concat chunks" by (simp add: stream_bytes_def comp_def)
  moreover have "arrivals_of parse [] (map Got chunks) = arrivals_of parse (concat chunks) []"
    using arrivals_chunks [OF assms, of "[]"] by simp
  ultimately show ?thesis
    using wire_handshake_loop_refines [OF assms(1), of "[]" "map Got chunks" "Suc (length (concat chunks))" L c
        StartupState_default "[SentStartup (startup_request c name)]"]
    by (simp add: wire_handshake_def handshake_def into_parts_def)
qed

text \<open>A parser made of the frame decoder and a reading of three kinds of frames.\<close>

definition demo_message :: "Frame \<Rightarrow> Message" where
  "demo_message f =
     (if tag f = CHR ''R'' then MAuthenticationOk
      else if tag f = CHR ''K'' then MBackendKeyData (i32_from_be_bytes (take 4 (body f))) (i32_from_be_bytes (drop 4 (body f)))
      else if tag f = CHR ''Z'' then MReadyForQuery (hd (body f)) else MOther)"

definition demo_parse :: "FrameError message_parser" where
  "demo_parse buf = map_sum id (apfst (map_option demo_message)) (decode_frame buf MAX_MESSAGE)"

lemma stream_decoder_map:
  assumes "stream_decoder d"
  shows "stream_decoder (\<lambda>buf. map_sum id (apfst (map_option f)) (d buf))"
proof -
  note d = stream_decoder.decode_cases [OF assms]
  show ?thesis
  proof
    fix buf m rest bs
    assume "map_sum id (apfst (map_option f)) (d buf) = Inr (Some m, rest)"
    then show "map_sum id (apfst (map_option f)) (d (buf @ bs)) = Inr (Some m, rest @ bs)"
      by (cases buf rule: d) (auto dest: stream_decoder.decode_stable [OF assms, of _ _ _ bs])
  next
    fix buf e bs
    assume "map_sum id (apfst (map_option f)) (d buf) = Inl e"
    then show "map_sum id (apfst (map_option f)) (d (buf @ bs)) = Inl e"
      by (cases buf rule: d) (auto dest: stream_decoder.decode_failed [OF assms, of _ _ bs])
  next
    fix buf buf'
    assume "map_sum id (apfst (map_option f)) (d buf) = Inr (None, buf')"
    then show "buf' = buf" by (cases buf rule: d) auto
  next
    fix buf m rest
    assume "map_sum id (apfst (map_option f)) (d buf) = Inr (Some m, rest)"
    then show "\<exists>taken. taken \<noteq> [] \<and> buf = taken @ rest" by (cases buf rule: d) auto
  qed
qed

lemma demo_parse_ok: "stream_decoder demo_parse"
  using stream_decoder_map [OF frame_reader.stream_decoder_axioms, of demo_message MAX_MESSAGE]
  by (simp add: demo_parse_def [abs_def])

definition demo_chunks :: "bytes list" where
  "demo_chunks = [CHR ''R'' # [NUL, NUL], [NUL, CHR 0x08, NUL, NUL, NUL, NUL, CHR ''K'', NUL, NUL, NUL, CHR 0x0C, NUL, NUL],
     [NUL, CHR 0x07, NUL, NUL, NUL, CHR 0x09, CHR ''Z'', NUL, NUL, NUL, CHR 0x05, CHR ''I'', CHR ''S'']]"

theorem handshake_over_bytes_witness:
  "\<exists>w. wire_handshake demo_lib demo_login (ApplicationName_new ''p'') demo_parse (map Got demo_chunks) = Some (Inr w)
    \<and> wc_backend_key w = \<lparr>process_id = 7, secret_key = 9\<rparr>
    \<and> (\<exists>taken. concat demo_chunks = taken @ stream_bytes (snd (into_parts w)) (fst (into_parts w)))"
proof -
  let ?h = "handshake demo_lib demo_login (ApplicationName_new ''p'') (arrivals_of demo_parse (concat demo_chunks) [])"
  have h: "map_sum id cn_backend_key ?h = Inr \<lparr>process_id = 7, secret_key = 9\<rparr>" by code_simp
  have "[] \<notin> set demo_chunks" by code_simp
  from handshake_over_bytes [OF demo_parse_ok this, of demo_lib demo_login "ApplicationName_new ''p''"] obtain r where
    r: "wire_handshake demo_lib demo_login (ApplicationName_new ''p'') demo_parse (map Got demo_chunks) = Some r"
      "map_sum id (wire_abs demo_parse) r = ?h"
      "\<forall>w. r = Inr w \<longrightarrow> (\<exists>taken. concat demo_chunks = taken @ stream_bytes (snd (into_parts w)) (fst (into_parts w)))" by blast
  from h [folded r(2)] show ?thesis using r(1,3) by (cases r) (auto simp: wire_abs_def)
qed

text \<open>
  The simple query over bytes is the simple query over messages: it ends, with the same rows or the
  same error, and unless the stream broke the connection goes on with the same messages to read.
\<close>

theorem query_over_bytes:
  assumes "stream_decoder parse"
  shows "\<exists>r w'. wire_simple_query L parse sql w = Some (r, w') \<and> fst (simple_query L sql (wire_abs parse w)) = r
    \<and> (\<not> dead r \<longrightarrow> snd (simple_query L sql (wire_abs parse w)) = wire_abs parse w')"
proof -
  let ?w = "w\<lparr>wc_out := wc_out w @ [Encoded (SentQuery sql)]\<rparr>"
  have "wire_abs parse ?w = wire_abs parse w\<lparr>cn_sent := cn_sent (wire_abs parse w) @ [SentQuery sql]\<rparr>"
    by (simp add: wire_abs_def)
  with wire_query_loop_refines [OF assms, of ?w "Suc (length (stream_bytes (wc_read_buf w) (wc_reads w)))" "[]" None]
  show ?thesis by (auto simp: wire_simple_query_def simple_query_def dead_def)
qed

text \<open>
  C35: Frames read from a connection. When the bytes a server connection has buffered and the
  reads to come hold a sequence of frames, cut anywhere, \<open>read_frame\<close> returns exactly these frames, in
  order, and then the end of the stream; the last frame does not depend on a read after it.
\<close>

theorem frames_over_wire:
  assumes "encode_all (write_frame MAX_MESSAGE) fs = Some (wc_read_buf w @ concat chunks)"
    and "wc_reads w = map Got chunks" "[] \<notin> set chunks"
  shows "read_frames (Suc (length (stream_bytes (wc_read_buf w) (wc_reads w)))) w = (fs, True)"
  using drain_frames [OF assms(1)] frame_reader.drain_chunks [OF assms(3), of MAX_MESSAGE "wc_read_buf w" "[]"]
  unfolding read_frames_drain drain_def [symmetric] assms(2) by simp

theorem frames_over_wire_witness:
  "read_frames (Suc (length (stream_bytes [CHR ''Z''] [Got [NUL, NUL], Got [NUL, CHR 0x05, CHR ''I'']])))
     \<lparr>wc_parameters = [], wc_backend_key = \<lparr>process_id = 1, secret_key = 2\<rparr>, wc_read_buf = [CHR ''Z''],
       wc_reads = [Got [NUL, NUL], Got [NUL, CHR 0x05, CHR ''I'']], wc_out = [], wc_shut = False\<rparr>
   = ([\<lparr>tag = CHR ''Z'', body = ''I''\<rparr>], True)"
proof -
  let ?w = "\<lparr>wc_parameters = [], wc_backend_key = \<lparr>process_id = 1, secret_key = 2\<rparr>, wc_read_buf = [CHR ''Z''],
       wc_reads = [Got [NUL, NUL], Got [NUL, CHR 0x05, CHR ''I'']], wc_out = [], wc_shut = False\<rparr>"
  have "encode_all (write_frame MAX_MESSAGE) [\<lparr>tag = CHR ''Z'', body = ''I''\<rparr>]
      = Some ([CHR ''Z''] @ concat [[NUL, NUL], [NUL, CHR 0x05, CHR ''I'']])" by code_simp
  then show ?thesis
    using frames_over_wire [of "[\<lparr>tag = CHR ''Z'', body = ''I''\<rparr>]" ?w "[[NUL, NUL], [NUL, CHR 0x05, CHR ''I'']]"] by simp
qed

end
