(* ===== verification/Clock.thy ===== *)
theory Clock
  imports Transaction Coordinator
begin

text \<open>
  The clocks of the runtimes (\<open>crates/core/src/rt\<close>) and the two places where the program measures the
  time it sleeps: the wait of a queued client (\<open>Pool::wait\<close>) and the rounds of the coordinator
  (\<open>InProcessCoordinator::run\<close>). A host's clock may run at its own rate. The argument of a reading is
  the simulated time since the runtime was made, in nanoseconds.

  The locale \<open>steady_clock\<close> is the contract of \<open>Clock\<close>: readings do not go back, and a sleep lasts its
  whole duration on the clock that measures it. A sleep may end late; \<open>late\<close> says by how much.
\<close>

section \<open>The clocks\<close>

text \<open>A rate in millionths; \<open>NonZeroU32\<close> is a number that is not zero.\<close>

datatype ClockRate = ClockRate (per_million: nat)

definition ClockRate_EXACT :: ClockRate where "ClockRate_EXACT = ClockRate 1000000"

definition ClockRate_ok :: "ClockRate \<Rightarrow> bool" where
  "ClockRate_ok r \<longleftrightarrow> 0 < per_million r \<and> per_million r \<le> u32_max"

definition NANOS_PER_SEC :: nat where "NANOS_PER_SEC = 1000000000"

definition div_ceil :: "nat \<Rightarrow> nat \<Rightarrow> nat" where
  "div_ceil a b = (a + b - 1) div b"

text \<open>
  The product of a duration of less than \<open>2 ^ 64\<close> seconds and a rate fits \<open>u128\<close>. A result with more
  seconds than a \<open>u64\<close> holds is a panic.
\<close>

definition scale :: "nat \<Rightarrow> nat \<Rightarrow> nat \<Rightarrow> nat option" where
  "scale duration numerator denominator =
     (let nanos = div_ceil (duration * numerator) denominator;
          secs = nanos div NANOS_PER_SEC;
          subsec = nanos mod NANOS_PER_SEC in
      if secs < 2 ^ 64 then Some (secs * NANOS_PER_SEC + subsec) else None)"

definition to_local :: "ClockRate \<Rightarrow> nat \<Rightarrow> nat option" where
  "to_local rate simulated = scale simulated (per_million rate) (per_million ClockRate_EXACT)"

definition to_simulated :: "ClockRate \<Rightarrow> nat \<Rightarrow> nat option" where
  "to_simulated rate duration = scale duration (per_million ClockRate_EXACT) (per_million rate)"

record TurmoilRuntime =
  tr_rate :: ClockRate
  tr_epoch :: nat

definition TurmoilRuntime_with_rate :: "ClockRate \<Rightarrow> nat \<Rightarrow> TurmoilRuntime" where
  "TurmoilRuntime_with_rate rate instant = \<lparr>tr_rate = rate, tr_epoch = instant\<rparr>"

definition TurmoilRuntime_new :: "nat \<Rightarrow> TurmoilRuntime" where
  "TurmoilRuntime_new = TurmoilRuntime_with_rate ClockRate_EXACT"

definition TurmoilRuntime_now :: "TurmoilRuntime \<Rightarrow> nat \<Rightarrow> nat option" where
  "TurmoilRuntime_now rt since = map_option ((+) (tr_epoch rt)) (to_local (tr_rate rt) since)"

definition TurmoilRuntime_sleep :: "TurmoilRuntime \<Rightarrow> nat \<Rightarrow> nat option" where
  "TurmoilRuntime_sleep rt duration = to_simulated (tr_rate rt) duration"

definition TokioRuntime_now :: "nat \<Rightarrow> nat option" where
  "TokioRuntime_now instant = Some instant"

definition TokioRuntime_sleep :: "nat \<Rightarrow> nat option" where
  "TokioRuntime_sleep duration = Some duration"

section \<open>What the program does with a clock\<close>

text \<open>
  \<open>InProcessCoordinator::run\<close>, the first \<open>n\<close> rounds: what other tasks do to the coordinator while a
  round sleeps is \<open>others\<close>. The result is the instant at which the next round starts and the state then.
\<close>

fun coordinator_run :: "(nat \<Rightarrow> nat option) \<Rightarrow> (nat \<Rightarrow> nat option) \<Rightarrow> (nat \<Rightarrow> nat) \<Rightarrow> (nat \<Rightarrow> State \<Rightarrow> State)
    \<Rightarrow> allocator \<Rightarrow> nat \<Rightarrow> nat \<Rightarrow> nat \<Rightarrow> nat \<Rightarrow> State \<Rightarrow> (nat \<times> State) option" where
  "coordinator_run now sleep late others alloc delay interval 0 t st = Some (t, st)"
| "coordinator_run now sleep late others alloc delay interval (Suc n) t st =
     (case now t of
        None \<Rightarrow> None
      | Some at \<Rightarrow>
          (case sleep interval of
             None \<Rightarrow> None
           | Some d \<Rightarrow>
               coordinator_run now sleep late others alloc delay interval n (t + d + late n)
                 (others n (fst (reconcile_at alloc delay at st)))))"

text \<open>
  The timeout of \<open>Pool::wait\<close>: a client that starts to wait at \<open>t\<close> and whose timer fires is told for
  how long it has waited, read on the same clock.
\<close>

definition waited_at_timeout :: "(nat \<Rightarrow> nat option) \<Rightarrow> (nat \<Rightarrow> nat option) \<Rightarrow> nat \<Rightarrow> nat \<Rightarrow> nat \<Rightarrow> nat option" where
  "waited_at_timeout now sleep wait_timeout late t =
     (case (now t, sleep wait_timeout) of
        (Some started, Some d) \<Rightarrow> map_option (\<lambda>ended. ended - started) (now (t + d + late))
      | _ \<Rightarrow> None)"

lemma coordinator_run_later:
  "coordinator_run now sleep late others alloc delay interval n t st = Some (u, st') \<Longrightarrow> t \<le> u"
proof (induction n arbitrary: t st)
  case (Suc n)
  then show ?case by (fastforce split: option.splits)
qed simp

locale steady_clock =
  fixes now :: "nat \<Rightarrow> nat option"
    and sleep :: "nat \<Rightarrow> nat option"
  assumes now_mono: "now t = Some a \<Longrightarrow> now u = Some b \<Longrightarrow> t \<le> u \<Longrightarrow> a \<le> b"
    and sleep_lasts: "now t = Some a \<Longrightarrow> sleep d = Some s \<Longrightarrow> now (t + s) = Some b \<Longrightarrow> a + d \<le> b"
    and now_earlier: "now u = Some b \<Longrightarrow> t \<le> u \<Longrightarrow> \<exists>a. now t = Some a"
begin

lemma sleep_lasts_late:
  assumes "now t = Some a" "sleep d = Some s" "now (t + s + extra) = Some b"
  shows "a + d \<le> b"
proof -
  from now_earlier [OF assms(3), of "t + s"] obtain c where c: "now (t + s) = Some c" by auto
  from sleep_lasts [OF assms(1,2) c] now_mono [OF c assms(3)] show ?thesis by simp
qed

lemma coordinator_run_apart:
  assumes "coordinator_run now sleep late others alloc delay interval n t st = Some (u, st')"
    and "now t = Some a" "now u = Some b"
  shows "a + n * interval \<le> b"
  using assms
proof (induction n arbitrary: t st a)
  case (Suc n)
  from Suc.prems obtain d where d: "sleep interval = Some d"
    and run: "coordinator_run now sleep late others alloc delay interval n (t + d + late n)
      (others n (fst (reconcile_at alloc delay a st))) = Some (u, st')"
    by (auto split: option.splits)
  from coordinator_run_later [OF run] now_earlier [OF Suc.prems(3)] obtain c where c: "now (t + d + late n) = Some c" by blast
  from Suc.IH [OF run c Suc.prems(3)] sleep_lasts_late [OF Suc.prems(2) d c] show ?case by simp
qed simp

lemma waited_in_full: "waited_at_timeout now sleep wait_timeout late t = Some waited \<Longrightarrow> wait_timeout \<le> waited"
  using sleep_lasts_late [of t _ wait_timeout _ late]
  by (fastforce simp: waited_at_timeout_def split: option.splits)

end

section \<open>Both runtimes keep the contract\<close>

interpretation tokio: steady_clock TokioRuntime_now TokioRuntime_sleep
  by unfold_locales (auto simp: TokioRuntime_now_def TokioRuntime_sleep_def)

lemma scale_eq:
  "scale d n m = (if div_ceil (d * n) m div NANOS_PER_SEC < 2 ^ 64 then Some (div_ceil (d * n) m) else None)"
  by (simp add: scale_def Let_def)

lemma div_ceil_mono: "a \<le> b \<Longrightarrow> div_ceil a m \<le> div_ceil b m"
  by (simp add: div_ceil_def div_le_mono)

lemma div_ceil_add:
  assumes "0 < m"
  shows "div_ceil (a + d * m) m = div_ceil a m + d"
proof -
  from assms have "a + d * m + m - 1 = d * m + (a + m - 1)" by simp
  then have "div_ceil (a + d * m) m = (d * m + (a + m - 1)) div m" by (simp only: div_ceil_def)
  also have "\<dots> = d + div_ceil a m" using assms unfolding div_ceil_def by (intro div_mult_self3) simp
  finally show ?thesis by simp
qed

lemma div_ceil_bounds:
  assumes "0 < m"
  shows "a \<le> div_ceil a m * m" "div_ceil a m * m < a + m"
proof -
  let ?b = "a + m - 1"
  have b: "?b = ?b div m * m + ?b mod m" by simp
  have "?b mod m < m" using assms by simp
  with b assms show "a \<le> div_ceil a m * m" "div_ceil a m * m < a + m" unfolding div_ceil_def by linarith+
qed

lemma scaled_sleep:
  assumes "0 < r" "0 < e"
  shows "div_ceil (t * r) e + d \<le> div_ceil ((t + div_ceil (d * e) r) * r) e"
    "div_ceil ((t + div_ceil (d * e) r) * r) e \<le> div_ceil (t * r) e + d + div_ceil r e"
proof -
  note s = div_ceil_bounds [OF assms(1), of "d * e"]
  have eq: "(t + div_ceil (d * e) r) * r = t * r + div_ceil (d * e) r * r" by (simp add: algebra_simps)
  have "div_ceil (t * r + d * e) e \<le> div_ceil ((t + div_ceil (d * e) r) * r) e"
    unfolding eq using s(1) by (intro div_ceil_mono) simp
  then show "div_ceil (t * r) e + d \<le> div_ceil ((t + div_ceil (d * e) r) * r) e"
    by (simp add: div_ceil_add [OF assms(2)])
  have "r \<le> div_ceil r e * e" by (rule div_ceil_bounds(1) [OF assms(2)])
  with s(2) have "(t + div_ceil (d * e) r) * r \<le> t * r + (d + div_ceil r e) * e"
    unfolding eq by (simp add: algebra_simps)
  from div_ceil_mono [OF this, of e] show "div_ceil ((t + div_ceil (d * e) r) * r) e \<le> div_ceil (t * r) e + d + div_ceil r e"
    unfolding div_ceil_add [OF assms(2)] by simp
qed

locale turmoil =
  fixes rt :: TurmoilRuntime
  assumes rate_ok: "ClockRate_ok (tr_rate rt)"

lemmas turmoil_defs = TurmoilRuntime_now_def TurmoilRuntime_sleep_def to_local_def to_simulated_def scale_eq ClockRate_EXACT_def

sublocale turmoil \<subseteq> steady_clock "TurmoilRuntime_now rt" "TurmoilRuntime_sleep rt"
proof
  fix t u a b
  assume *: "TurmoilRuntime_now rt t = Some a" "TurmoilRuntime_now rt u = Some b" "t \<le> u"
  then have "t * per_million (tr_rate rt) \<le> u * per_million (tr_rate rt)" by simp
  with * show "a \<le> b" by (auto simp: turmoil_defs div_ceil_mono split: if_splits)
next
  fix t a d s b
  assume "TurmoilRuntime_now rt t = Some a" "TurmoilRuntime_sleep rt d = Some s" "TurmoilRuntime_now rt (t + s) = Some b"
  with scaled_sleep(1) [of "per_million (tr_rate rt)" 1000000 t d] rate_ok show "a + d \<le> b"
    by (auto simp: turmoil_defs ClockRate_ok_def split: if_splits)
next
  fix u b t
  assume *: "TurmoilRuntime_now rt u = Some b" "(t :: nat) \<le> u"
  then have "t * per_million (tr_rate rt) \<le> u * per_million (tr_rate rt)" by simp
  note le = div_le_mono [OF div_ceil_mono [OF this, of 1000000], of NANOS_PER_SEC]
  from *(1) have "div_ceil (u * per_million (tr_rate rt)) 1000000 div NANOS_PER_SEC < 2 ^ 64"
    by (auto simp: turmoil_defs split: if_splits)
  with le show "\<exists>a. TurmoilRuntime_now rt t = Some a" by (simp add: turmoil_defs)
qed

context turmoil
begin

lemmas drift_waited = waited_in_full

lemmas drift_run = coordinator_run_apart

lemmas drift_sleep = sleep_lasts

end

interpretation exact: turmoil "TurmoilRuntime_new epoch" for epoch
  by unfold_locales (simp add: TurmoilRuntime_new_def TurmoilRuntime_with_rate_def ClockRate_ok_def ClockRate_EXACT_def u32_max_def)

section \<open>Timers keep their time\<close>

text \<open>
  C21: Timers keep their time on a clock that drifts. Whatever the rate of a host's clock and however late
  its timers fire, a sleep is never shorter than asked for on the clock of that host, and on time it is
  longer by at most what the clock gains in a simulated nanosecond; a client whose wait expires has
  waited, and is told, at least the timeout; and \<open>n\<close> rounds of the coordinator take at least \<open>n\<close>
  intervals.
\<close>

theorem timers_keep_time:
  assumes "ClockRate_ok (tr_rate rt)" "TurmoilRuntime_now rt t = Some a"
  shows "(TurmoilRuntime_sleep rt d = Some s \<and> TurmoilRuntime_now rt (t + s) = Some b \<longrightarrow>
        a + d \<le> b \<and> b \<le> a + d + div_ceil (per_million (tr_rate rt)) 1000000)
    \<and> (waited_at_timeout (TurmoilRuntime_now rt) (TurmoilRuntime_sleep rt) d late t = Some waited \<longrightarrow> d \<le> waited)
    \<and> (coordinator_run (TurmoilRuntime_now rt) (TurmoilRuntime_sleep rt) lates others alloc delay d n t st = Some (u, st')
        \<and> TurmoilRuntime_now rt u = Some c \<longrightarrow> a + n * d \<le> c)"
proof (intro conjI impI; (elim conjE)?)
  have rt: "turmoil rt" using assms(1) by (rule turmoil.intro)
  show "a + d \<le> b" if "TurmoilRuntime_sleep rt d = Some s" "TurmoilRuntime_now rt (t + s) = Some b"
    using turmoil.drift_sleep [OF rt assms(2) that] .
  show "b \<le> a + d + div_ceil (per_million (tr_rate rt)) 1000000"
    if "TurmoilRuntime_sleep rt d = Some s" "TurmoilRuntime_now rt (t + s) = Some b"
    using scaled_sleep(2) [of "per_million (tr_rate rt)" 1000000 t d] assms that
    by (auto simp: turmoil_defs ClockRate_ok_def split: if_splits)
  show "d \<le> waited"
    if "waited_at_timeout (TurmoilRuntime_now rt) (TurmoilRuntime_sleep rt) d late t = Some waited"
    using that by (rule turmoil.drift_waited [OF rt])
  show "a + n * d \<le> c"
    if "coordinator_run (TurmoilRuntime_now rt) (TurmoilRuntime_sleep rt) lates others alloc delay d n t st = Some (u, st')"
      "TurmoilRuntime_now rt u = Some c"
    using turmoil.drift_run [OF rt that(1) assms(2) that(2)] .
qed

text \<open>A clock that gains a millisecond every second.\<close>

definition fast_clock :: TurmoilRuntime where
  "fast_clock = TurmoilRuntime_with_rate (ClockRate 1001000) 0"

theorem timers_keep_time_witness:
  "\<exists>w. waited_at_timeout (TurmoilRuntime_now fast_clock) (TurmoilRuntime_sleep fast_clock) 5000000000 3 1500 = Some w
     \<and> 5000000000 \<le> w"
proof -
  have "ClockRate_ok (tr_rate fast_clock)" by code_simp
  moreover have "TurmoilRuntime_now fast_clock 1500 = Some 1502" by code_simp
  moreover have "waited_at_timeout (TurmoilRuntime_now fast_clock) (TurmoilRuntime_sleep fast_clock) 5000000000 3 1500 \<noteq> None"
    by code_simp
  then obtain w where "waited_at_timeout (TurmoilRuntime_now fast_clock) (TurmoilRuntime_sleep fast_clock) 5000000000 3 1500 = Some w"
    by blast
  ultimately show ?thesis
    using timers_keep_time [of fast_clock 1500 1502 5000000000 0 0 3 w] by blast
qed

end
