(* ===== verification/Spec2Isabelle.thy ===== *)
theory Spec2Isabelle
  imports Program Wire Clock
begin

text \<open>
  A verification of PgSteward, a connection pooler for PostgreSQL that keeps every database instance
  within a total budget of connections.

  \<^bold>\<open>The program.\<close> A node accepts clients, authenticates them, routes each to an instance by its tenant
  (user and database) and serves it transaction by transaction on pooled server connections. A
  coordinator derives each instance's budget from what its server reports, computes with a weighted
  max-min fair allocator how many connections each tenant may have, splits that over the proxies and
  publishes it as grants. A proxy's pools converge to its grants and report back what they hold; the
  coordinator counts a connection as held until a report that was measured late enough says otherwise.
  An operator reads and changes the settings at an admin console and scrapes metrics.

  \<^bold>\<open>Theories\<close>, in the order of the code they model (files under \<open>src/crates\<close>):

  \<^item> \<open>Prelude\<close>: 32-bit arithmetic, ordered maps (\<open>BTreeMap\<close>) as sorted association lists, the locale
    \<open>transition_system\<close> in which invariants of reachable states are proved, named collections of facts.
  \<^item> \<open>Fair\<close>, \<open>Split\<close>: the allocator and the split over proxies (\<open>sched/src\<close>). The allocation is work
    conserving, max-min fair and meets the guarantees exactly when they fit.
  \<^item> \<open>Allocation\<close>, \<open>Budget\<close>, \<open>Policy\<close>: the allocation table, the derivation of a budget with its
    sliding window of foreign connections, and the tenant rules (\<open>core/src/allocation.rs\<close>,
    \<open>budget.rs\<close>, \<open>policy.rs\<close>).
  \<^item> \<open>Grant\<close>, \<open>Coordinator\<close>: the coordinator's state and every operation that takes its lock
    (\<open>core/src/grant.rs\<close>), then the same operations as a transition system: no reachable state has its
    desired state rejected, no round overcommits.
  \<^item> \<open>Pool\<close>, \<open>Convergence\<close>: one pool and the pools of a proxy (\<open>core/src/pool.rs\<close>, \<open>convergence.rs\<close>).
    The counters are exact, no slot is lost, no client waits in vain.
  \<^item> \<open>Cluster\<close>: coordinator and proxies interleaved at the granularity of their locks and messages, with
    the pools behind the locale of what the protocol needs of them. Through any run under an unchanged
    budget the connections on an instance stay within it.
  \<^item> \<open>Bytes\<close>, \<open>Framing\<close>, \<open>Message\<close>, \<open>Frontend\<close>, \<open>Startup\<close>, \<open>Backend\<close>, \<open>Ready\<close>, \<open>Listen\<close>, \<open>Prepared\<close>, \<open>Admin\<close>:
    the wire protocol (\<open>protocol/src\<close>): byte codecs, frames and their reassembly from reads, opening
    packets, messages in both directions, the tracker of the transaction boundary, the scan for LISTEN,
    prepared statements, the language of the console.
  \<^item> \<open>Relay\<close>, \<open>Transaction\<close>: one assignment of a server connection and the whole client session
    (\<open>core/src/relay.rs\<close> with the handles of \<open>pool.rs\<close>). A connection goes back to the pool only at a
    boundary and after its reset; a session keeps the protocol towards the pool and the cancel registry.
  \<^item> \<open>Cancel\<close>, \<open>Admission\<close>: cancel keys and the client limit (\<open>core/src/cancel.rs\<close>, \<open>admission.rs\<close>).
  \<^item> \<open>Scram\<close>, \<open>Session\<close>: SCRAM-SHA-256 and the acceptance of a client, TLS upgrade included
    (\<open>core/src/scram.rs\<close>, \<open>session.rs\<close>, \<open>auth.rs\<close>).
  \<^item> \<open>Server\<close>, \<open>Wire\<close>, \<open>Tls\<close>, \<open>Inspect\<close>: connecting to a server, the checks each TLS mode makes, simple
    queries, reading the limits (\<open>core/src/server.rs\<close>, \<open>tls.rs\<close>, \<open>inspect.rs\<close>). \<open>Server\<close> works on the
    messages that have arrived; \<open>Wire\<close> reads them out of chunks of bytes and refines it, so nothing
    depends on how the bytes are cut.
  \<^item> \<open>Console\<close>, \<open>Metrics\<close>: the tables and answers of the console and the series of a scrape
    (\<open>core/src/console.rs\<close>, \<open>node/src/metrics.rs\<close>).
  \<^item> \<open>Config\<close>, \<open>Node\<close>: the configuration and the node that runs it (\<open>node/src/config.rs\<close>, \<open>serve.rs\<close>):
    starting, observing, serving each client, settings, stopping. Its steps are a transition system
    whose invariant ties the configuration, the coordinator and the pools together.
  \<^item> \<open>Program\<close>: the entry point (\<open>node/src/main.rs\<close>), from the bytes of the two files to a served client.
  \<^item> \<open>Clock\<close>: the clocks of the runtimes (\<open>core/src/rt\<close>) behind the locale \<open>steady_clock\<close>, and what the
    timeout of a wait and the rounds of the coordinator rely on.

  \<^bold>\<open>How code becomes definitions.\<close> A struct is a record, an enum a datatype, a method a function of the
  same name (with the type's name in front where names clash). \<open>BTreeMap\<close> is a sorted association list
  and iterates in key order; \<open>HashMap\<close> is a function. \<open>u32\<close> and \<open>usize\<close> are natural numbers with
  saturation, wrap-around (\<open>outstanding\<close> of the tracker, sums in \<open>route\<close> and \<open>granted_to\<close>) and
  underflow written out; cancel keys are \<open>32 word\<close>s. The coordinator's generation, a \<open>u64\<close> that counts
  rounds, is unbounded. Texts are byte lists, UTF-8 where the code demands it. A \<open>Result\<close> is a sum, a
  panic an error value or a missing result. Loops are total functions with measures; the reading loops
  recurse over the list of reads they are given, so running out of reads is the end of a stream or a
  session that still waits, as the definition says.

  \<^bold>\<open>Concurrency.\<close> What runs under a mutex is one step; a \<open>watch\<close> channel is its current value; sending
  on a oneshot channel succeeds if the receiver is still there, which the argument \<open>alive\<close> says. Between
  two waits nothing interleaves: tasks that share state are steps of an \<open>inductive\<close> relation
  (\<open>coord_step\<close>, \<open>pool_step\<close>, \<open>cluster_step\<close>, \<open>cancel_step\<close>, \<open>admission_step\<close>, \<open>tx_step\<close>,
  \<open>node_step\<close>), and the properties hold in every reachable state. Instants and durations are numbers.

  \<^bold>\<open>Parameters.\<close> Code that is not in the repository is an argument: HMAC, SHA-256, base64, SASLprep and
  the random source (\<open>crypto\<close>), \<open>postgres_protocol\<close> with its SCRAM client and MD5 (\<open>client_lib\<close>),
  \<open>rustls\<close> (\<open>tls_lib\<close>), \<open>prometheus_client\<close>, the file system, the network, and the texts derived for an
  error or a duration. Where a property relies on one of them it says so as a hypothesis, and its
  witness instantiates it.

  \<^bold>\<open>Not modelled.\<close> Spawning tasks, binding and accepting sockets (the rest of \<open>core/src/rt\<close>), the log, the
  texts made for it (\<open>Debug\<close> and some \<open>Display\<close> implementations) and the command line are I/O. TOML is
  parsed by a library, so a configuration starts at its sections. The wrappers \<open>MaybeTls\<close>, \<open>Assigned\<close>,
  \<open>Reservation\<close> and \<open>Queued\<close> appear as the operations they perform, on reading, writing or being
  dropped. Closing a server connection waits for the server to let go; here a pool's closing
  connections are counted until the step that says it has. Session mode is modelled up to its copy of
  bytes in both directions, and a node refuses to start in it.
\<close>

end
